(* ===== verification/Prelude.thy ===== *)
theory Prelude
  imports Main "HOL-Library.Word"
begin

text \<open>
  Shared vocabulary of the development: the ways a C++ execution can go wrong as values
  (\<open>err\<close>), sequencing of fallible operations (\<open>rbind\<close>), bounds-checked memory blocks
  (\<open>mem_read\<close>, \<open>mem_write\<close>), the arithmetic of \<^verbatim>\<open>size_t\<close>, and the word and list lemmas
  that several components use.
\<close>

unbundle bit_operations_syntax

named_theorems res_simps \<open>rewriting of fallible sequencing\<close>
named_theorems mem_simps \<open>rewriting of bounds-checked memory accesses\<close>

section \<open>Failing executions\<close>

text \<open>
  \<open>LogFatal\<close> is \<^verbatim>\<open>LOG_FATAL\<close>, which ends the process with \<^verbatim>\<open>exit(-1)\<close>; \<open>AssertFail\<close> a false
  \<^verbatim>\<open>assert\<close>; \<open>Deadlock\<close> a thread that waits for a mutex it holds itself; \<open>BadFunctionCall\<close>
  the call of an empty \<^verbatim>\<open>std::function\<close>; \<open>BadAlloc\<close> and \<open>LengthError\<close> the exceptions of
  \<^verbatim>\<open>operator new\<close> and of \<^verbatim>\<open>std::vector::resize\<close>; \<open>BlocksForever\<close> a system call that can never
  return; the rest are undefined behaviours of the
  language.
\<close>

datatype err =
    LogFatal
  | AssertFail
  | Deadlock
  | BadFunctionCall
  | BadAlloc
  | LengthError
  | OutOfBounds
  | NullDeref
  | UseAfterFree
  | ShiftOverflow
  | SignedOverflow
  | FloatCast
  | DivByZero
  | BlocksForever

type_synonym 'a res = "err + 'a"
type_synonym addr = nat
type_synonym byte = "8 word"
type_synonym u16 = "16 word"
type_synonym u32 = "32 word"
type_synonym u64 = "64 word"

definition rbind :: "'a res \<Rightarrow> ('a \<Rightarrow> 'b res) \<Rightarrow> 'b res" where
  "rbind r f = (case r of Inl e \<Rightarrow> Inl e | Inr x \<Rightarrow> f x)"

definition check :: "err \<Rightarrow> bool \<Rightarrow> unit res" where
  "check e b = (if b then Inr () else Inl e)"

lemma rbind_Inl [simp, res_simps]: "rbind (Inl e) f = Inl e"
  by (simp add: rbind_def)

lemma rbind_Inr [simp, res_simps]: "rbind (Inr x) f = f x"
  by (simp add: rbind_def)

lemma rbind_eq_Inr [res_simps]: "rbind r f = Inr y \<longleftrightarrow> (\<exists>x. r = Inr x \<and> f x = Inr y)"
  by (cases r) auto

lemma rbind_eq_Inl [res_simps]:
  "rbind r f = Inl e \<longleftrightarrow> r = Inl e \<or> (\<exists>x. r = Inr x \<and> f x = Inl e)"
  by (cases r) auto

lemma rbind_Inr_right [simp]: "rbind r Inr = r"
  by (cases r) simp_all

lemma rbind_assoc: "rbind (rbind r f) g = rbind r (\<lambda>x. rbind (f x) g)"
  by (cases r) auto

lemma rbind_cong [fundef_cong]:
  "r = r' \<Longrightarrow> (\<And>x. r' = Inr x \<Longrightarrow> f x = f' x) \<Longrightarrow> rbind r f = rbind r' f'"
  by (cases r') auto

lemma check_True [simp, res_simps]: "check e True = Inr ()"
  by (simp add: check_def)

lemma check_False [simp, res_simps]: "check e False = Inl e"
  by (simp add: check_def)

lemma check_eq_Inr [res_simps]: "check e b = Inr u \<longleftrightarrow> b"
  by (simp add: check_def)

text \<open>
  \<open>ends E P r\<close>: the execution \<open>r\<close> either returns a value with \<open>P\<close> or fails with an error of \<open>E\<close>.
  The rules compose such statements along \<open>rbind\<close>.
\<close>

definition ends :: "err set \<Rightarrow> ('a \<Rightarrow> bool) \<Rightarrow> 'a res \<Rightarrow> bool" where
  "ends E P r = (case r of Inl e \<Rightarrow> e \<in> E | Inr x \<Rightarrow> P x)"

lemma ends_Inr [simp]: "ends E P (Inr x) \<longleftrightarrow> P x"
  by (simp add: ends_def)

lemma ends_Inl [simp]: "ends E P (Inl e) \<longleftrightarrow> e \<in> E"
  by (simp add: ends_def)

lemma ends_bind:
  "ends E P r \<Longrightarrow> (\<And>x. r = Inr x \<Longrightarrow> P x \<Longrightarrow> ends E Q (f x)) \<Longrightarrow> ends E Q (rbind r f)"
  by (cases r) auto

lemma ends_mono: "ends E P r \<Longrightarrow> (\<And>x. r = Inr x \<Longrightarrow> P x \<Longrightarrow> Q x) \<Longrightarrow> E \<subseteq> F \<Longrightarrow> ends F Q r"
  by (cases r) auto

lemma ends_cases:
  assumes "ends E P r"
  obtains e where "r = Inl e" "e \<in> E" | x where "r = Inr x" "P x"
  using assms by (cases r) auto

section \<open>Memory blocks\<close>

text \<open>
  A block of memory is a list; a read or a write of a segment that leaves the block is
  \<open>OutOfBounds\<close>. \<open>blit xs off ys\<close> overwrites the segment that starts at \<open>off\<close>.
\<close>

definition blit :: "'a list \<Rightarrow> nat \<Rightarrow> 'a list \<Rightarrow> 'a list" where
  "blit xs off ys = take off xs @ ys @ drop (off + length ys) xs"

definition mem_read :: "'a list \<Rightarrow> nat \<Rightarrow> nat \<Rightarrow> 'a list res" where
  "mem_read xs off len =
     (if off + len \<le> length xs then Inr (take len (drop off xs)) else Inl OutOfBounds)"

definition mem_write :: "'a list \<Rightarrow> nat \<Rightarrow> 'a list \<Rightarrow> 'a list res" where
  "mem_write xs off ys =
     (if off + length ys \<le> length xs then Inr (blit xs off ys) else Inl OutOfBounds)"

lemma length_blit [simp]: "off + length ys \<le> length xs \<Longrightarrow> length (blit xs off ys) = length xs"
  by (simp add: blit_def)

lemma blit_Nil [simp]: "blit xs off [] = xs"
  by (simp add: blit_def)

lemma nth_blit:
  assumes "off + length ys \<le> length xs" and "i < length xs"
  shows "blit xs off ys ! i =
    (if off \<le> i \<and> i < off + length ys then ys ! (i - off) else xs ! i)"
  using assms by (auto simp: blit_def nth_append not_le)

lemma take_blit [simp]: "n \<le> off \<Longrightarrow> off \<le> length xs \<Longrightarrow> take n (blit xs off ys) = take n xs"
  by (simp add: blit_def)

lemma blit_at_end: "blit xs (length xs) ys = xs @ ys"
  by (simp add: blit_def)

lemma mem_read_ok [mem_simps]:
  "off + len \<le> length xs \<Longrightarrow> mem_read xs off len = Inr (take len (drop off xs))"
  by (simp add: mem_read_def)

lemma mem_write_ok [mem_simps]:
  "off + length ys \<le> length xs \<Longrightarrow> mem_write xs off ys = Inr (blit xs off ys)"
  by (simp add: mem_write_def)

lemma mem_read_eq_Inr:
  "mem_read xs off len = Inr ys \<longleftrightarrow> off + len \<le> length xs \<and> ys = take len (drop off xs)"
  by (auto simp: mem_read_def)

section \<open>Arithmetic of \<^verbatim>\<open>size_t\<close>\<close>

definition size_max :: nat where
  "size_max = 2 ^ 64"

definition size_add :: "nat \<Rightarrow> nat \<Rightarrow> nat" where
  "size_add a b = (a + b) mod size_max"

definition size_sub :: "nat \<Rightarrow> nat \<Rightarrow> nat" where
  "size_sub a b = (a + (size_max - b mod size_max)) mod size_max"

lemma size_add_small [simp]: "a + b < size_max \<Longrightarrow> size_add a b = a + b"
  by (simp add: size_add_def)

lemma size_sub_small [simp]:
  assumes "b \<le> a" and "a < size_max"
  shows "size_sub a b = a - b"
proof -
  have "a + (size_max - b) = (a - b) + size_max" using assms by simp
  moreover have "b mod size_max = b" using assms by simp
  ultimately have "size_sub a b = ((a - b) + size_max) mod size_max"
    by (simp only: size_sub_def)
  also have "\<dots> = a - b"
    by (subst mod_add_self2) (use assms in simp)
  finally show ?thesis .
qed

section \<open>Signed integers\<close>

text \<open>Signed arithmetic that leaves the range of its type is undefined behaviour.\<close>

definition int32_ok :: "int \<Rightarrow> bool" where
  "int32_ok x \<longleftrightarrow> - (2 ^ 31) \<le> x \<and> x < 2 ^ 31"

definition int64_ok :: "int \<Rightarrow> bool" where
  "int64_ok x \<longleftrightarrow> - (2 ^ 63) \<le> x \<and> x < 2 ^ 63"

definition to_int32 :: "int \<Rightarrow> int res" where
  "to_int32 x = (if int32_ok x then Inr x else Inl SignedOverflow)"

definition to_int64 :: "int \<Rightarrow> int res" where
  "to_int64 x = (if int64_ok x then Inr x else Inl SignedOverflow)"

lemma ends_to_int64: "SignedOverflow \<in> E \<Longrightarrow> ends E (\<lambda>y. y = x) (to_int64 x)"
  by (simp add: to_int64_def)

text \<open>Division and remainder of C++ truncate towards zero.\<close>

definition cdiv :: "int \<Rightarrow> int \<Rightarrow> int" where
  "cdiv a b = sgn a * sgn b * (\<bar>a\<bar> div \<bar>b\<bar>)"

definition cmod :: "int \<Rightarrow> int \<Rightarrow> int" where
  "cmod a b = a - cdiv a b * b"

lemma cdiv_nonneg [simp]: "0 \<le> a \<Longrightarrow> 0 < b \<Longrightarrow> cdiv a b = a div b"
  by (cases "a = 0") (auto simp: cdiv_def)

lemma cmod_nonneg [simp]: "0 \<le> a \<Longrightarrow> 0 < b \<Longrightarrow> cmod a b = a mod b"
  by (simp add: cmod_def minus_div_mult_eq_mod)

section \<open>Words\<close>

lemma u32_less: "unat (x :: u32) < 2 ^ 32"
  using unsigned_less [of x] by simp

lemma unat_pow2: "p < LENGTH('a) \<Longrightarrow> unat ((2 :: 'a::len word) ^ p) = 2 ^ p"
proof -
  assume "p < LENGTH('a)"
  then have "(2::nat) ^ p < 2 ^ LENGTH('a)" by simp
  then have "unat (of_nat (2 ^ p) :: 'a word) = 2 ^ p" by (simp only: unat_of_nat mod_less)
  then show ?thesis by (simp only: of_nat_power of_nat_numeral)
qed

lemma unat_and_mask:
  assumes "unat n = 2 ^ p"
  shows "unat ((x :: 'a::len word) AND (n - 1)) = unat x mod unat n"
proof -
  have "(2::nat) ^ p < 2 ^ LENGTH('a)"
    using unsigned_less [of n] by (simp flip: assms)
  then have p: "p < LENGTH('a)" by simp
  have "n = of_nat (unat n)" by simp
  then have "n = 2 ^ p" by (simp only: assms of_nat_power of_nat_numeral)
  then have "n - 1 = mask p"
    by (simp add: mask_eq_decr_exp)
  then have "x AND (n - 1) = take_bit p x"
    by (simp add: take_bit_eq_mask)
  then have "unat (x AND (n - 1)) = take_bit p (unat x)"
    by (simp only: unsigned_take_bit_eq)
  then show ?thesis
    by (simp only: assms take_bit_eq_mod)
qed

lemma unat_plus_mod:
  assumes "m dvd 2 ^ LENGTH('a)"
  shows "unat (x + y :: 'a::len word) mod m = (unat x + unat y) mod m"
  using assms by (simp add: unat_word_ariths mod_mod_cancel)

end
