(* ===== verification/Ring.thy ===== *)
theory Ring
  imports Prelude
begin

text \<open>
  Ring buffers over lists, independent of any word size: the run of \<open>len\<close> elements that
  starts at a position (\<open>ring_view\<close>), the two-segment write that \<^verbatim>\<open>Kfifo::writeBuffer\<close> does
  with two \<^verbatim>\<open>memcpy\<close> calls (\<open>ring_put\<close>) and the two-segment read of \<^verbatim>\<open>Kfifo::readBuffer\<close>
  (\<open>ring_get\<close>). Positions count up for ever and are reduced modulo the block's length.
\<close>

definition ring_view :: "'a list \<Rightarrow> nat \<Rightarrow> nat \<Rightarrow> 'a list" where
  "ring_view bs r len = map (\<lambda>j. bs ! ((r + j) mod length bs)) [0..<len]"

definition ring_put :: "'a list \<Rightarrow> nat \<Rightarrow> 'a list \<Rightarrow> 'a list" where
  "ring_put bs w ys =
     (let off = w mod length bs; l = min (length ys) (length bs - off)
      in blit (blit bs off (take l ys)) 0 (drop l ys))"

definition ring_get :: "'a list \<Rightarrow> nat \<Rightarrow> nat \<Rightarrow> 'a list" where
  "ring_get bs r n =
     (let off = r mod length bs; l = min n (length bs - off)
      in take l (drop off bs) @ take (n - l) bs)"

lemma length_ring_view [simp]: "length (ring_view bs r len) = len"
  by (simp add: ring_view_def)

lemma nth_ring_view [simp]: "j < len \<Longrightarrow> ring_view bs r len ! j = bs ! ((r + j) mod length bs)"
  by (simp add: ring_view_def)

lemma ring_view_0 [simp]: "ring_view bs r 0 = []"
  by (simp add: ring_view_def)

lemma ring_view_mod: "r mod length bs = r' mod length bs \<Longrightarrow> ring_view bs r len = ring_view bs r' len"
  unfolding ring_view_def by (rule map_cong) (auto intro: arg_cong2 [where f = nth] mod_add_cong)

lemma drop_ring_view: "n \<le> len \<Longrightarrow> drop n (ring_view bs r len) = ring_view bs (r + n) (len - n)"
  by (rule nth_equalityI) (auto simp: add.assoc)

lemma take_ring_view: "n \<le> len \<Longrightarrow> take n (ring_view bs r len) = ring_view bs r n"
  by (rule nth_equalityI) auto

lemma length_ring_put [simp]:
  assumes "length ys \<le> length bs"
  shows "length (ring_put bs w ys) = length bs"
proof (cases "bs = []")
  case True
  with assms show ?thesis by (simp add: ring_put_def blit_def)
next
  case False
  then have "w mod length bs < length bs" by simp
  with assms show ?thesis by (simp add: ring_put_def Let_def min_def)
qed

lemma nth_blit_wrapped:
  assumes n: "length ys \<le> length bs" and i: "i < length bs" and off: "off < length bs"
    and l: "l = min (length ys) (length bs - off)"
    and d: "d = (if off \<le> i then i - off else i + length bs - off)"
  shows "blit (blit bs off (take l ys)) 0 (drop l ys) ! i = (if d < length ys then ys ! d else bs ! i)"
proof -
  have "blit (blit bs off (take l ys)) 0 (drop l ys) ! i =
      (if i < length ys - l then ys ! (l + i) else blit bs off (take l ys) ! i)"
    using n i off l by (subst nth_blit) auto
  also have "blit bs off (take l ys) ! i = (if off \<le> i \<and> i < off + l then ys ! (i - off) else bs ! i)"
    using i off l by (subst nth_blit) (auto intro!: nth_take)
  finally show ?thesis
    using n i off by (cases "length ys \<le> length bs - off") (auto simp: l d add.commute)
qed

lemma nth_ring_put:
  assumes n: "length ys \<le> length bs" and i: "i < length bs"
  shows "ring_put bs w ys ! i =
    (let d = (i + length bs - w mod length bs) mod length bs
     in if d < length ys then ys ! d else bs ! i)"
proof -
  let ?N = "length bs" and ?o = "w mod length bs"
  have o: "?o < ?N" using i by (cases "?N = 0") auto
  have "(i + ?N - ?o) mod ?N = (if ?o \<le> i then i - ?o else i + ?N - ?o)"
  proof (cases "?o \<le> i")
    case True
    then have "i + ?N - ?o = (i - ?o) + ?N" by simp
    then have "(i + ?N - ?o) mod ?N = (i - ?o) mod ?N" by (simp only: mod_add_self2)
    with True i show ?thesis by simp
  next
    case False
    with o i show ?thesis by simp
  qed
  then show ?thesis
    using nth_blit_wrapped [OF n i o refl refl] by (simp only: ring_put_def Let_def)
qed

lemma ring_distance:
  assumes "j < N"
  shows "((w + j) mod N + N - w mod N) mod N = (j :: nat)"
proof -
  have "w mod N \<le> N" using assms by simp
  then have "((w + j) mod N + N - w mod N) mod N = ((w + j) + (N - w mod N)) mod N"
    by (metis Nat.add_diff_assoc mod_add_left_eq)
  also have "\<dots> = (w mod N + j + (N - w mod N)) mod N"
    by (metis mod_add_left_eq)
  also have "w mod N + j + (N - w mod N) = j + N"
    using \<open>w mod N \<le> N\<close> by simp
  finally show ?thesis using assms by simp
qed

lemma ring_put_at:
  assumes "length ys \<le> length bs" and "j < length bs"
  shows "ring_put bs w ys ! ((w + j) mod length bs) =
    (if j < length ys then ys ! j else bs ! ((w + j) mod length bs))"
proof -
  have "(w + j) mod length bs < length bs" using assms(2) by (cases "length bs = 0") auto
  then show ?thesis
    using nth_ring_put [OF assms(1), of "(w + j) mod length bs" w] ring_distance [OF assms(2), of w]
    by simp
qed

lemma ring_put_mod: "w mod length bs = w' mod length bs \<Longrightarrow> ring_put bs w ys = ring_put bs w' ys"
  by (simp add: ring_put_def)

text \<open>Writing at the end of the run extends it, as long as the run still fits into the block.\<close>

lemma ring_view_put:
  assumes fit: "len + length ys \<le> length bs"
  shows "ring_view (ring_put bs (r + len) ys) r (len + length ys) = ring_view bs r len @ ys"
proof (rule nth_equalityI)
  let ?N = "length bs" and ?B = "ring_put bs (r + len) ys"
  have n: "length ys \<le> ?N" using fit by simp
  fix j assume "j < length (ring_view ?B r (len + length ys))"
  then have j: "j < len + length ys" by simp
  show "ring_view ?B r (len + length ys) ! j = (ring_view bs r len @ ys) ! j"
  proof (cases "j < len")
    case True
    have "(r + len + (?N - len + j)) mod ?N = (r + j) mod ?N"
      using fit by (metis Nat.add_diff_assoc2 add.assoc add.commute add_diff_cancel_left'
          add_leE mod_add_self1)
    moreover have "?N - len + j < ?N" using True fit by simp
    moreover have "\<not> ?N - len + j < length ys" using fit by simp
    ultimately have "?B ! ((r + j) mod ?N) = bs ! ((r + j) mod ?N)"
      using ring_put_at [OF n, of "?N - len + j" "r + len"] by simp
    with True j n show ?thesis by (simp add: nth_append)
  next
    case False
    then have e: "r + j = r + len + (j - len)" by simp
    have k: "j - len < length ys" "j - len < ?N" using False j fit by auto
    then have "?B ! ((r + len + (j - len)) mod ?N) = ys ! (j - len)"
      using ring_put_at [OF n k(2), of "r + len"] by simp
    with False j n e show ?thesis by (simp add: nth_append)
  qed
qed simp

lemma ring_get_view:
  assumes "n \<le> length bs"
  shows "ring_get bs r n = ring_view bs r n"
proof (rule nth_equalityI)
  let ?N = "length bs"
  show "length (ring_get bs r n) = length (ring_view bs r n)"
    using assms by (simp add: ring_get_def Let_def)
  fix j assume "j < length (ring_get bs r n)"
  then have j: "j < n" using assms by (simp add: ring_get_def Let_def)
  then have o: "r mod ?N < ?N" using assms by (cases "?N = 0") auto
  have m: "(r + j) mod ?N = (if r mod ?N + j < ?N then r mod ?N + j else r mod ?N + j - ?N)"
  proof -
    have "(r + j) mod ?N = (r mod ?N + j) mod ?N" by (simp add: mod_add_left_eq)
    then show ?thesis using j assms o by (auto simp: le_mod_geq not_less)
  qed
  show "ring_get bs r n ! j = ring_view bs r n ! j"
    using j assms o
    by (auto simp: ring_get_def Let_def nth_append m min_def) (simp only: add.commute)
qed

text \<open>The two pairs of \<^verbatim>\<open>memcpy\<close> calls of \<^verbatim>\<open>Kfifo\<close>, with their bounds checks.\<close>

lemma copy_in_ring:
  assumes "n \<le> length src" and "n \<le> length bs" and "0 < length bs"
    and off: "off = w mod length bs" and l: "l = min n (length bs - off)"
  shows "rbind (mem_read src 0 l) (\<lambda>seg.
    rbind (mem_write bs off seg) (\<lambda>bs.
    rbind (mem_read src l (n - l)) (\<lambda>seg.
    rbind (mem_write bs 0 seg) f))) = f (ring_put bs w (take n src))"
proof -
  have o: "off < length bs" and ln: "l \<le> n" "l \<le> length bs - off" using assms by auto
  have "take (n - l) (drop l src) = drop l (take n src)" by (simp add: drop_take)
  moreover have "ring_put bs w (take n src) =
      blit (blit bs off (take l src)) 0 (take (n - l) (drop l src))"
    using assms ln by (simp add: ring_put_def Let_def drop_take min_absorb1)
  ultimately show ?thesis
    using assms(1,2) o ln by (simp add: mem_simps)
qed

lemma copy_out_ring:
  assumes "n \<le> length dst" and "n \<le> length bs" and "0 < length bs"
    and off: "off = r mod length bs" and l: "l = min n (length bs - off)"
  shows "rbind (mem_read bs off l) (\<lambda>seg.
    rbind (mem_write dst 0 seg) (\<lambda>dst.
    rbind (mem_read bs 0 (n - l)) (\<lambda>seg.
    rbind (mem_write dst l seg) f))) = f (blit dst 0 (ring_view bs r n))"
proof -
  have o: "off < length bs" and ln: "l \<le> n" "l \<le> length bs - off" using assms by auto
  have "ring_view bs r n = take l (drop off bs) @ take (n - l) bs"
    using assms by (simp add: ring_get_def Let_def flip: ring_get_view)
  then have "blit dst 0 (ring_view bs r n) =
      blit (blit dst 0 (take l (drop off bs))) l (take (n - l) bs)"
    using ln assms(1,2) o by (simp add: blit_def min_absorb2)
  then show ?thesis
    using assms(1,2) o ln by (simp add: mem_simps)
qed

end
