(* ===== verification/Byte_Fifo.thy ===== *)
theory Byte_Fifo
  imports Prelude
begin

text \<open>
  The contract both buffer classes of the library promise to a connection: a first-in first-out
  queue of bytes. \<open>push q ys\<close> offers bytes and says how many were taken; \<open>pop q n\<close> asks for up
  to \<open>n\<close> bytes. \<open>room\<close> is how many bytes a push takes and \<open>bound\<close> limits the sizes asked
  for; \<open>errs\<close> are the errors an operation may end with. The stream theorem is proved here once: over any sequence of calls, what was taken in
  comes out in order, each byte once.
\<close>

datatype fifo_cmd = Push "byte list" | Pop nat

text \<open>A run collects the bytes taken in and the bytes given out.\<close>

fun fifo_run ::
    "('q \<Rightarrow> byte list \<Rightarrow> (nat \<times> 'q) res) \<Rightarrow> ('q \<Rightarrow> nat \<Rightarrow> (byte list \<times> 'q) res) \<Rightarrow>
      'q \<Rightarrow> fifo_cmd list \<Rightarrow> (byte list \<times> byte list \<times> 'q) res" where
  "fifo_run push pop q [] = Inr ([], [], q)"
| "fifo_run push pop q (Push ys # cs) =
     rbind (push q ys) (\<lambda>(n, q).
     rbind (fifo_run push pop q cs) (\<lambda>(ins, outs, q). Inr (take n ys @ ins, outs, q)))"
| "fifo_run push pop q (Pop n # cs) =
     rbind (pop q n) (\<lambda>(out, q).
     rbind (fifo_run push pop q cs) (\<lambda>(ins, outs, q). Inr (ins, out @ outs, q)))"

fun cmd_size :: "fifo_cmd \<Rightarrow> nat" where
  "cmd_size (Push ys) = length ys"
| "cmd_size (Pop n) = n"

definition legal_cmds :: "nat \<Rightarrow> fifo_cmd list \<Rightarrow> bool" where
  "legal_cmds bound cs \<longleftrightarrow> list_all (\<lambda>c. 0 < cmd_size c \<and> cmd_size c \<le> bound) cs"

locale byte_fifo =
  fixes invar :: "'q \<Rightarrow> bool"
    and contents :: "'q \<Rightarrow> byte list"
    and room :: "'q \<Rightarrow> nat"
    and bound :: nat
    and errs :: "err set"
    and push :: "'q \<Rightarrow> byte list \<Rightarrow> (nat \<times> 'q) res"
    and pop :: "'q \<Rightarrow> nat \<Rightarrow> (byte list \<times> 'q) res"
  assumes push_law: "invar q \<Longrightarrow> 0 < length ys \<Longrightarrow> length ys \<le> bound \<Longrightarrow> push q ys = Inr (n, q') \<Longrightarrow>
      n = min (length ys) (room q) \<and> invar q' \<and> contents q' = contents q @ take n ys"
    and pop_law: "invar q \<Longrightarrow> 0 < n \<Longrightarrow> n \<le> bound \<Longrightarrow> pop q n = Inr (out, q') \<Longrightarrow>
      out = take n (contents q) \<and> invar q' \<and> contents q' = drop n (contents q)"
    and push_fails: "invar q \<Longrightarrow> 0 < length ys \<Longrightarrow> length ys \<le> bound \<Longrightarrow> push q ys = Inl e \<Longrightarrow> e \<in> errs"
    and pop_fails: "invar q \<Longrightarrow> 0 < n \<Longrightarrow> n \<le> bound \<Longrightarrow> pop q n = Inl e \<Longrightarrow> e \<in> errs"
begin

text \<open>One call: it fails with one of the declared errors or advances the stream.\<close>

lemma push_step:
  assumes "invar q" and "0 < length ys" and "length ys \<le> bound"
  obtains e where "push q ys = Inl e" "e \<in> errs"
  | n q' where "push q ys = Inr (n, q')" "invar q'" "contents q' = contents q @ take n ys"
proof (cases "push q ys")
  case (Inl e)
  then show ?thesis using push_fails [OF assms] that(1) by blast
next
  case (Inr r)
  then show ?thesis using push_law [OF assms] that(2) by (cases r) blast
qed

lemma pop_step:
  assumes "invar q" and "0 < n" and "n \<le> bound"
  obtains e where "pop q n = Inl e" "e \<in> errs"
  | out q' where "pop q n = Inr (out, q')" "invar q'" "contents q = out @ contents q'"
proof (cases "pop q n")
  case (Inl e)
  then show ?thesis using pop_fails [OF assms] that(1) by blast
next
  case (Inr r)
  then show ?thesis using pop_law [OF assms] that(2) by (cases r) fastforce
qed

lemma run_stream:
  "invar q \<Longrightarrow> legal_cmds bound cs \<Longrightarrow>
     (\<exists>e \<in> errs. fifo_run push pop q cs = Inl e) \<or>
     (\<exists>ins outs q'. fifo_run push pop q cs = Inr (ins, outs, q') \<and>
        invar q' \<and> contents q @ ins = outs @ contents q')"
proof (induction cs arbitrary: q)
  case (Cons c cs)
  then have c: "0 < cmd_size c" "cmd_size c \<le> bound" "legal_cmds bound cs"
    by (auto simp: legal_cmds_def)
  note IH = Cons.IH [OF _ c(3)]
  show ?case
  proof (cases c)
    case (Push ys)
    then have ys: "0 < length ys" "length ys \<le> bound" using c by auto
    show ?thesis
    proof (rule push_step [OF Cons.prems(1) ys])
      fix n q'
      assume q': "push q ys = Inr (n, q')" "invar q'" "contents q' = contents q @ take n ys"
      from IH [OF q'(2)] show ?thesis using q'(1,3) Push by fastforce
    qed (simp add: Push)
  next
    case (Pop n)
    then have n: "0 < n" "n \<le> bound" using c by auto
    show ?thesis
    proof (rule pop_step [OF Cons.prems(1) n])
      fix out q'
      assume q': "pop q n = Inr (out, q')" "invar q'" "contents q = out @ contents q'"
      from IH [OF q'(2)] show ?thesis using q'(1,3) Pop by fastforce
    qed (simp add: Pop)
  qed
qed simp

end

text \<open>A queue whose operations always return.\<close>

locale byte_fifo_total = byte_fifo +
  assumes no_errs: "errs = {}"
begin

lemma run_total:
  assumes "invar q" and "legal_cmds bound cs"
  shows "\<exists>ins outs q'. fifo_run push pop q cs = Inr (ins, outs, q') \<and>
       invar q' \<and> contents q @ ins = outs @ contents q'"
  using run_stream [OF assms] no_errs by simp

end

end
