(* ===== verification/Kfifo.thy ===== *)
theory Kfifo
  imports Ring Byte_Fifo
begin

text \<open>
  The ring buffer \<^verbatim>\<open>Kfifo\<close> of \<^verbatim>\<open>src/mymuduo/kfifo.h\<close> and \<^verbatim>\<open>kfifo.cpp\<close>. Its three counters are
  \<^verbatim>\<open>uint32_t\<close>, so they are \<^typ>\<open>u32\<close> and wrap; the block \<^verbatim>\<open>buffer\<close> is a byte list or
  \<open>None\<close> (\<^verbatim>\<open>nullptr\<close>). \<open>mutex\<close> counts the locks the calling thread holds. \<^verbatim>\<open>std::mutex\<close> leaves
  locking twice in one thread undefined: the argument \<open>mx\<close> of the operations says what the
  implementation does then. \<open>RelockBlocks\<close> is the POSIX mutex of a program linked with
  \<^verbatim>\<open>-lpthread\<close> as the Makefile does; \<open>RelockProceeds\<close> is an implementation in which the second
  lock has no effect (a single-threaded C++ runtime).
  System calls are arguments: \<open>readv fd lens\<close> and \<open>write fd bytes\<close> give either \<open>Inl errno\<close> or
  what the kernel transferred.
\<close>

section \<open>State and locking\<close>

datatype relock = RelockBlocks | RelockProceeds

record kfifo =
  buffer :: "byte list option"
  bufferSize :: u32
  kwrite :: u32
  kread :: u32
  mutex :: nat

definition is_power_of_two :: "u32 \<Rightarrow> bool" where
  "is_power_of_two x \<longleftrightarrow> x \<noteq> 0 \<and> x AND (x - 1) = 0"

definition Kfifo_new :: kfifo where
  "Kfifo_new = \<lparr>buffer = None, bufferSize = 0, kwrite = 0, kread = 0, mutex = 0\<rparr>"

definition Kfifo_lock :: "relock \<Rightarrow> kfifo \<Rightarrow> kfifo res" where
  "Kfifo_lock mx k =
     (if mutex k = 0 \<or> mx = RelockProceeds then Inr (k\<lparr>mutex := mutex k + 1\<rparr>) else Inl Deadlock)"

definition Kfifo_unlock :: "kfifo \<Rightarrow> kfifo" where
  "Kfifo_unlock k = k\<lparr>mutex := mutex k - 1\<rparr>"

section \<open>Operations\<close>

text \<open>The rounding loop of \<^verbatim>\<open>initBuffer\<close>: how often \<^verbatim>\<open>size >>= 1\<close> runs until \<^verbatim>\<open>size\<close> is zero.\<close>

function shift_count :: "u32 \<Rightarrow> nat" where
  "shift_count s = (if s = 0 then 0 else Suc (shift_count (drop_bit 1 s)))"
  by pat_completeness auto

lemma unat_drop_bit_1: "unat (drop_bit (Suc 0) (s :: u32)) = unat s div 2"
  by (simp add: drop_bit_eq_div unat_div_distrib)

termination shift_count
proof (relation "measure unat")
  fix s :: u32
  assume "s \<noteq> 0"
  then have "0 < unat s" by (simp add: unat_gt_0)
  then show "(drop_bit 1 s, s) \<in> measure unat"
    by (simp add: unat_drop_bit_1)
qed simp

declare shift_count.simps [simp del]

definition Kfifo_round_size :: "u32 \<Rightarrow> u32 res" where
  "Kfifo_round_size sz =
     (if is_power_of_two sz then Inr sz
      else let i = shift_count (if sz < 2 then 2 else sz)
           in if i < 32 then Inr (push_bit i 1) else Inl ShiftOverflow)"

definition Kfifo_initBuffer :: "relock \<Rightarrow> bool \<Rightarrow> kfifo \<Rightarrow> u32 \<Rightarrow> (bool \<times> kfifo) res" where
  "Kfifo_initBuffer mx alloc_ok k sz =
     rbind (Kfifo_round_size sz) (\<lambda>sz.
     rbind (Kfifo_lock mx k) (\<lambda>k.
     if \<not> alloc_ok then Inl BadAlloc
     else Inr (True, Kfifo_unlock (k\<lparr>buffer := Some (replicate (unat sz) 0), bufferSize := sz,
                                     kwrite := 0, kread := 0\<rparr>))))"

definition Kfifo_freeBuffer :: "relock \<Rightarrow> kfifo \<Rightarrow> kfifo res" where
  "Kfifo_freeBuffer mx k =
     rbind (Kfifo_lock mx k) (\<lambda>k.
     Inr (Kfifo_unlock (k\<lparr>bufferSize := 0, kwrite := 0, kread := 0, buffer := None\<rparr>)))"

definition Kfifo_dtor :: "relock \<Rightarrow> kfifo \<Rightarrow> kfifo res" where
  "Kfifo_dtor = Kfifo_freeBuffer"

definition Kfifo_resetBuffer :: "relock \<Rightarrow> kfifo \<Rightarrow> kfifo res" where
  "Kfifo_resetBuffer mx k =
     rbind (Kfifo_lock mx k) (\<lambda>k.
     case buffer k of
       None \<Rightarrow> if bufferSize k = 0 then Inr (Kfifo_unlock (k\<lparr>kwrite := 0, kread := 0\<rparr>))
               else Inl NullDeref
     | Some bs \<Rightarrow>
         rbind (mem_write bs 0 (replicate (unat (bufferSize k)) 0)) (\<lambda>bs.
         Inr (Kfifo_unlock (k\<lparr>kwrite := 0, kread := 0, buffer := Some bs\<rparr>))))"

definition Kfifo_isEmpty :: "relock \<Rightarrow> kfifo \<Rightarrow> (bool \<times> kfifo) res" where
  "Kfifo_isEmpty mx k = rbind (Kfifo_lock mx k) (\<lambda>k. Inr (kwrite k = kread k, Kfifo_unlock k))"

definition Kfifo_isFull :: "relock \<Rightarrow> kfifo \<Rightarrow> (bool \<times> kfifo) res" where
  "Kfifo_isFull mx k =
     rbind (Kfifo_lock mx k) (\<lambda>k. Inr (bufferSize k = kwrite k - kread k, Kfifo_unlock k))"

definition Kfifo_getReadableLen :: "relock \<Rightarrow> kfifo \<Rightarrow> (u32 \<times> kfifo) res" where
  "Kfifo_getReadableLen mx k =
     rbind (Kfifo_lock mx k) (\<lambda>k. Inr (kwrite k - kread k, Kfifo_unlock k))"

definition Kfifo_getRemainLen :: "relock \<Rightarrow> kfifo \<Rightarrow> (u32 \<times> kfifo) res" where
  "Kfifo_getRemainLen mx k =
     rbind (Kfifo_lock mx k) (\<lambda>k. Inr (bufferSize k - (kwrite k - kread k), Kfifo_unlock k))"

definition Kfifo_getBufferSize :: "relock \<Rightarrow> kfifo \<Rightarrow> (u32 \<times> kfifo) res" where
  "Kfifo_getBufferSize mx k = rbind (Kfifo_lock mx k) (\<lambda>k. Inr (bufferSize k, Kfifo_unlock k))"

text \<open>
  The macro \<^verbatim>\<open>Min(a, b)\<close> evaluates the smaller argument a second time; here the second argument
  is a call that locks, so \<open>Min_call\<close> runs it again when it is the minimum.
\<close>

definition Min_call :: "u32 \<Rightarrow> (kfifo \<Rightarrow> (u32 \<times> kfifo) res) \<Rightarrow> kfifo \<Rightarrow> (u32 \<times> kfifo) res" where
  "Min_call a f k = rbind (f k) (\<lambda>(b, k). if a < b then Inr (a, k) else f k)"

definition Kfifo_writeBuffer ::
    "relock \<Rightarrow> kfifo \<Rightarrow> byte list option \<Rightarrow> u32 \<Rightarrow> (u32 \<times> kfifo) res" where
  "Kfifo_writeBuffer mx k inBuf inSize =
     rbind (Kfifo_lock mx k) (\<lambda>k.
     case (buffer k, inBuf) of
       (Some bs, Some src) \<Rightarrow>
         if inSize = 0 then Inr (- 1, Kfifo_unlock k)
         else
           rbind (Min_call inSize (Kfifo_getRemainLen mx) k) (\<lambda>(inSize, k).
           let off = kwrite k AND (bufferSize k - 1);
               len = (if inSize < bufferSize k - off then inSize else bufferSize k - off) in
           rbind (mem_read src 0 (unat len)) (\<lambda>seg.
           rbind (mem_write bs (unat off) seg) (\<lambda>bs.
           rbind (mem_read src (unat len) (unat (inSize - len))) (\<lambda>seg.
           rbind (mem_write bs 0 seg) (\<lambda>bs.
           Inr (inSize, Kfifo_unlock (k\<lparr>buffer := Some bs, kwrite := kwrite k + inSize\<rparr>)))))))
     | _ \<Rightarrow> Inr (- 1, Kfifo_unlock k))"

definition Kfifo_readBuffer ::
    "relock \<Rightarrow> kfifo \<Rightarrow> byte list option \<Rightarrow> u32 \<Rightarrow> (u32 \<times> byte list option \<times> kfifo) res" where
  "Kfifo_readBuffer mx k outBuf outSize =
     rbind (Kfifo_lock mx k) (\<lambda>k.
     case (buffer k, outBuf) of
       (Some bs, Some dst) \<Rightarrow>
         if outSize = 0 then Inr (- 1, outBuf, Kfifo_unlock k)
         else
           rbind (Min_call outSize (Kfifo_getReadableLen mx) k) (\<lambda>(outSize, k).
           let off = kread k AND (bufferSize k - 1);
               len = (if outSize < bufferSize k - off then outSize else bufferSize k - off) in
           rbind (mem_read bs (unat off) (unat len)) (\<lambda>seg.
           rbind (mem_write dst 0 seg) (\<lambda>dst.
           rbind (mem_read bs 0 (unat (outSize - len))) (\<lambda>seg.
           rbind (mem_write dst (unat len) seg) (\<lambda>dst.
           Inr (outSize, Some dst, Kfifo_unlock (k\<lparr>kread := kread k + outSize\<rparr>)))))))
     | _ \<Rightarrow> Inr (- 1, outBuf, Kfifo_unlock k))"

text \<open>
  \<^verbatim>\<open>readFd\<close> gives the value returned, the \<^verbatim>\<open>errno\<close> saved if any, and the buffer. It takes no lock
  itself. The kernel fills the first segment (the block from the write position to its end)
  before \<^verbatim>\<open>extrabuf\<close>.
\<close>

definition extrabuf_size :: nat where
  "extrabuf_size = 65536"

definition Kfifo_readFd ::
    "relock \<Rightarrow> (int \<Rightarrow> nat list \<Rightarrow> int + byte list) \<Rightarrow> kfifo \<Rightarrow> int \<Rightarrow>
      (int \<times> int option \<times> kfifo) res" where
  "Kfifo_readFd mx readv k fd =
     (let off = kwrite k AND (bufferSize k - 1);
          writableByte = unat (bufferSize k - off);
          iov = (if writableByte < extrabuf_size then [writableByte, extrabuf_size]
                 else [writableByte]) in
      case readv fd iov of
        Inl errno \<Rightarrow> Inr (- 1, Some errno, k)
      | Inr bytes \<Rightarrow>
          let n = length bytes in
          rbind (case buffer k of
                   None \<Rightarrow> if writableByte = 0 then Inr None else Inl NullDeref
                 | Some bs \<Rightarrow> rbind (mem_write bs (unat off) (take writableByte bytes)) (\<lambda>bs. Inr (Some bs)))
            (\<lambda>buf.
          let k = k\<lparr>buffer := buf\<rparr> in
          if n \<le> writableByte then Inr (int n, None, k\<lparr>kwrite := kwrite k + of_nat n\<rparr>)
          else
            let extrabuf = drop writableByte bytes @ replicate (extrabuf_size - (n - writableByte)) 0 in
            rbind (Kfifo_writeBuffer mx k (Some extrabuf) (of_nat (n - writableByte))) (\<lambda>(_, k).
            Inr (int n, None, k))))"

definition Kfifo_writeFd ::
    "relock \<Rightarrow> (int \<Rightarrow> byte list \<Rightarrow> int + nat) \<Rightarrow> kfifo \<Rightarrow> int \<Rightarrow>
      (int \<times> int option \<times> kfifo) res" where
  "Kfifo_writeFd mx write k fd =
     rbind (Kfifo_getReadableLen mx k) (\<lambda>(len, k).
     rbind (case buffer k of
              None \<Rightarrow> if len = 0 then Inr [] else Inl NullDeref
            | Some bs \<Rightarrow> mem_read bs (unat (kread k AND (bufferSize k - 1))) (unat len)) (\<lambda>bytes.
     case write fd bytes of
       Inl errno \<Rightarrow> Inr (- 1, Some errno, k)
     | Inr n \<Rightarrow> Inr (int n, None, k)))"

section \<open>Powers of two and the size chosen by \<^verbatim>\<open>initBuffer\<close>\<close>

lemma nat_and_pred_pow2: "0 < (n :: nat) \<Longrightarrow> n AND (n - 1) = 0 \<Longrightarrow> \<exists>p. n = 2 ^ p"
proof (induction n rule: less_induct)
  case (less n)
  show ?case
  proof (cases "even n")
    case True
    then obtain m where m: "n = 2 * m" by blast
    with less.prems have m0: "0 < m" by simp
    then have e: "n - 1 = 2 * (m - 1) + 1" using m by simp
    have "n AND (n - 1) = 2 * (m AND (m - 1))"
      unfolding e unfolding m by (subst and_rec) simp
    with less.prems have "m AND (m - 1) = 0" by simp
    with less.IH [of m] m m0 obtain p where "m = 2 ^ p" by auto
    with m have "n = 2 ^ Suc p" by simp
    then show ?thesis by blast
  next
    case False
    then obtain m where m: "n = 2 * m + 1" by (blast elim: oddE)
    have "n AND (n - 1) = 2 * m"
      unfolding m by (subst and_rec) simp
    with less.prems m have "n = 2 ^ 0" by simp
    then show ?thesis by blast
  qed
qed

lemma is_power_of_two_iff: "is_power_of_two x \<longleftrightarrow> (\<exists>p. unat x = 2 ^ p)"
proof
  assume x: "is_power_of_two x"
  then have "unat (x AND (x - 1)) = 0" by (simp add: is_power_of_two_def)
  moreover have "unat (x - 1) = unat x - 1"
    by (rule unat_minus_one) (use x in \<open>simp add: is_power_of_two_def\<close>)
  then have "unat (x AND (x - 1)) = unat x AND (unat x - 1)"
    by (simp only: unsigned_and_eq)
  moreover have "0 < unat x" using x by (simp add: is_power_of_two_def unat_gt_0)
  ultimately show "\<exists>p. unat x = 2 ^ p" by (metis nat_and_pred_pow2)
next
  assume "\<exists>p. unat x = 2 ^ p"
  then obtain p where p: "unat x = 2 ^ p" by blast
  then have "unat (x AND (x - 1)) = 0" by (simp add: unat_and_mask)
  moreover have "x \<noteq> 0" using p by (metis unat_0 power_eq_0_iff zero_neq_numeral)
  ultimately show "is_power_of_two x" by (simp add: is_power_of_two_def unat_eq_0)
qed

lemma shift_count_bounds:
  "s \<noteq> 0 \<Longrightarrow> 2 ^ (shift_count s - 1) \<le> unat s \<and> unat s < 2 ^ shift_count s \<and> 0 < shift_count s"
proof (induction s rule: shift_count.induct)
  case (1 s)
  have c: "shift_count s = Suc (shift_count (drop_bit 1 s))"
    using "1.prems" by (subst shift_count.simps) simp
  have h: "unat (drop_bit 1 s) = unat s div 2" by (simp add: unat_drop_bit_1)
  show ?case
  proof (cases "drop_bit 1 s = 0")
    case True
    then have "unat s div 2 = 0" using h by simp
    moreover have "0 < unat s" using "1.prems" by (simp add: unat_gt_0)
    ultimately have "unat s = 1" by linarith
    moreover have "shift_count (drop_bit 1 s) = 0" using True by (subst shift_count.simps) simp
    ultimately show ?thesis using c by simp
  next
    case False
    with "1.IH" "1.prems" h obtain m where m: "shift_count (drop_bit 1 s) = Suc m"
      and b: "2 ^ m \<le> unat s div 2" "unat s div 2 < 2 ^ Suc m"
      by (cases "shift_count (drop_bit 1 s)") auto
    have "2 * 2 ^ m \<le> unat s" "unat s < 2 * 2 ^ Suc m" using b by linarith+
    then show ?thesis using c m by simp
  qed
qed

lemma round_size_unat:
  assumes "Kfifo_round_size sz = Inr sz'"
  shows "is_power_of_two sz' \<and> unat sz \<le> unat sz' \<and> (0 < unat sz \<longrightarrow> unat sz' < 2 * unat sz)"
proof (cases "is_power_of_two sz")
  case True
  then have "0 < unat sz" by (simp add: is_power_of_two_def unat_gt_0)
  with True assms show ?thesis by (simp add: Kfifo_round_size_def)
next
  case False
  define s where "s = (if sz < 2 then 2 else sz)"
  have i: "shift_count s < 32" and sz': "sz' = push_bit (shift_count s) 1"
    using assms False by (auto simp: Kfifo_round_size_def Let_def s_def split: if_splits)
  have u: "unat sz' = 2 ^ shift_count s"
    unfolding sz' using i by (simp add: unat_pow2)
  have s0: "s \<noteq> 0" and le: "unat sz \<le> unat s"
    by (auto simp: s_def word_less_nat_alt not_less)
  note b = shift_count_bounds [OF s0]
  have "unat sz' < 2 * unat sz" if "sz \<noteq> 0"
  proof -
    have "sz \<noteq> 1" using False by (auto simp: is_power_of_two_def)
    with that have "unat sz \<noteq> unat (0 :: u32)" "unat sz \<noteq> unat (1 :: u32)"
      by (simp_all only: word_unat_eq_iff not_False_eq_True)
    then have "\<not> sz < 2" by (simp add: word_less_nat_alt)
    then have "s = sz" by (simp add: s_def)
    moreover have "unat sz \<noteq> 2 ^ (shift_count s - 1)"
      using False by (auto simp: is_power_of_two_iff)
    ultimately have "2 ^ (shift_count s - 1) < unat sz" using b by simp
    with b u show ?thesis by (cases "shift_count s") auto
  qed
  moreover have "is_power_of_two sz'" using u is_power_of_two_iff by blast
  ultimately show ?thesis using b u le by (auto simp: unat_gt_0)
qed

section \<open>Invariant and contents\<close>

text \<open>
  Between operations the mutex is free; without a block everything is zero; with a block its
  length is \<^verbatim>\<open>bufferSize\<close>, a power of two, and the distance of the counters, computed modulo
  \<open>2 ^ 32\<close>, is at most that. The bytes held are the run from the read position.
\<close>

definition Kfifo_inv :: "kfifo \<Rightarrow> bool" where
  "Kfifo_inv k \<longleftrightarrow> mutex k = 0 \<and>
     (case buffer k of
        None \<Rightarrow> bufferSize k = 0 \<and> kwrite k = 0 \<and> kread k = 0
      | Some bs \<Rightarrow> is_power_of_two (bufferSize k) \<and> length bs = unat (bufferSize k) \<and>
          unat (kwrite k - kread k) \<le> unat (bufferSize k))"

definition Kfifo_contents :: "kfifo \<Rightarrow> byte list" where
  "Kfifo_contents k =
     (case buffer k of None \<Rightarrow> []
      | Some bs \<Rightarrow> ring_view bs (unat (kread k)) (unat (kwrite k - kread k)))"

definition Kfifo_room :: "kfifo \<Rightarrow> nat" where
  "Kfifo_room k = unat (bufferSize k) - length (Kfifo_contents k)"

lemma Kfifo_inv_new [simp]: "Kfifo_inv Kfifo_new"
  by (simp add: Kfifo_inv_def Kfifo_new_def)

lemma Kfifo_lock_free [simp]: "mutex k = 0 \<Longrightarrow> Kfifo_lock mx k = Inr (k\<lparr>mutex := 1\<rparr>)"
  by (simp add: Kfifo_lock_def)

lemma Kfifo_lock_held [simp]: "0 < mutex k \<Longrightarrow> Kfifo_lock RelockBlocks k = Inl Deadlock"
  by (simp add: Kfifo_lock_def)

lemma Kfifo_lock_proceeds [simp]: "Kfifo_lock RelockProceeds k = Inr (k\<lparr>mutex := mutex k + 1\<rparr>)"
  by (simp add: Kfifo_lock_def)

lemma Kfifo_blockD:
  assumes "Kfifo_inv k" and "buffer k = Some bs"
  shows "mutex k = 0" and "length bs = unat (bufferSize k)" and "0 < length bs"
    and "length bs < 2 ^ 32" and "length bs dvd 2 ^ 32"
    and "unat (kwrite k - kread k) \<le> length bs"
    and "unat (x AND (bufferSize k - 1)) = unat x mod length bs"
    and "unat (bufferSize k - (x AND (bufferSize k - 1))) = length bs - unat x mod length bs"
proof -
  from assms obtain p where p: "unat (bufferSize k) = 2 ^ p"
    by (auto simp: Kfifo_inv_def is_power_of_two_iff)
  show "mutex k = 0" and l: "length bs = unat (bufferSize k)"
    and "unat (kwrite k - kread k) \<le> length bs"
    using assms by (auto simp: Kfifo_inv_def)
  show lt: "length bs < 2 ^ 32" using u32_less [of "bufferSize k"] l by simp
  show pos: "0 < length bs" using l p by simp
  have "(2::nat) ^ p < 2 ^ 32" using lt by (simp only: l p)
  then have "p \<le> 32" by (rule less_imp_le [OF power_less_imp_less_exp, rotated]) simp
  then show "length bs dvd 2 ^ 32" by (simp only: l p le_imp_power_dvd)
  show m: "unat (x AND (bufferSize k - 1)) = unat x mod length bs"
    using unat_and_mask [OF p] l by simp
  have "x AND (bufferSize k - 1) \<le> bufferSize k"
    using m l pos by (simp add: word_le_nat_alt less_imp_le)
  then show "unat (bufferSize k - (x AND (bufferSize k - 1))) = length bs - unat x mod length bs"
    using m l by (simp add: unat_sub)
qed

lemma Kfifo_position:
  assumes "Kfifo_inv k" and "buffer k = Some bs"
  shows "unat (kwrite k) mod length bs =
    (unat (kread k) + unat (kwrite k - kread k)) mod length bs"
  using unat_plus_mod [of "length bs" "kread k" "kwrite k - kread k"] Kfifo_blockD(5) [OF assms]
  by simp

lemma Kfifo_remain:
  assumes "Kfifo_inv k" and "buffer k = Some bs"
  shows "unat (bufferSize k - (kwrite k - kread k)) = length bs - unat (kwrite k - kread k)"
  using Kfifo_blockD(2,6) [OF assms] by (simp add: unat_sub word_le_nat_alt)

lemma length_Kfifo_contents: "buffer k = Some bs \<Longrightarrow> length (Kfifo_contents k) = unat (kwrite k - kread k)"
  by (simp add: Kfifo_contents_def)

lemma unat_advance:
  assumes "unat (w - r) + n < 2 ^ 32"
  shows "unat (w + of_nat n - r :: u32) = unat (w - r) + n"
proof -
  have "w + of_nat n - r = (w - r) + of_nat n" by simp
  moreover have "unat (of_nat n :: u32) = n" using assms by (simp add: unat_of_nat)
  ultimately show ?thesis using assms by (simp only: unat_word_ariths) simp
qed

lemma unat_consume:
  assumes "n \<le> unat (w - r)"
  shows "unat (w - (r + of_nat n) :: u32) = unat (w - r) - n"
proof -
  have "w - (r + of_nat n) = (w - r) - of_nat n" by simp
  moreover have n: "unat (of_nat n :: u32) = n"
    using assms u32_less [of "w - r"] by (simp add: unat_of_nat)
  moreover have "(of_nat n :: u32) \<le> w - r" using assms n by (simp only: word_le_nat_alt)
  ultimately show ?thesis by (simp only: unat_sub)
qed

section \<open>What the operations do when locks do not block\<close>

lemma Min_call_remain:
  "Min_call a (Kfifo_getRemainLen RelockProceeds) k =
     Inr (min a (bufferSize k - (kwrite k - kread k)), k)"
  by (auto simp: Min_call_def Kfifo_getRemainLen_def Kfifo_unlock_def min_def)

lemma Min_call_readable:
  "Min_call a (Kfifo_getReadableLen RelockProceeds) k = Inr (min a (kwrite k - kread k), k)"
  by (auto simp: Min_call_def Kfifo_getReadableLen_def Kfifo_unlock_def min_def)

lemma if_less_min: "(if (a :: 'a::linorder) < b then a else b) = min a b"
  by (auto simp: min_def)

lemma unat_min: "unat (min a b) = min (unat a) (unat b)"
  by (auto simp: min_def word_le_nat_alt)

lemma kfifo_mutex_0:
  "mutex k = 0 \<Longrightarrow> k\<lparr>buffer := b, kwrite := w, mutex := 0\<rparr> = k\<lparr>buffer := b, kwrite := w\<rparr>"
  "mutex k = 0 \<Longrightarrow> k\<lparr>kread := r, mutex := 0\<rparr> = k\<lparr>kread := r\<rparr>"
  "mutex k = 0 \<Longrightarrow> k\<lparr>mutex := 0\<rparr> = k"
  by (cases k, simp)+

lemma Kfifo_writeBuffer_ring:
  assumes inv: "Kfifo_inv k" and b: "buffer k = Some bs" and sz: "sz \<noteq> 0"
    and src: "unat sz \<le> length src"
    and n: "n = min (unat sz) (length bs - unat (kwrite k - kread k))"
  shows "Kfifo_writeBuffer RelockProceeds k (Some src) sz =
    Inr (of_nat n, k\<lparr>buffer := Some (ring_put bs (unat (kwrite k)) (take n src)),
                      kwrite := kwrite k + of_nat n\<rparr>)"
proof -
  note D = Kfifo_blockD [OF inv b]
  define m where "m = min sz (bufferSize k - (kwrite k - kread k))"
  define off where "off = kwrite k AND (bufferSize k - 1)"
  define len where "len = min (of_nat n) (bufferSize k - off)"
  have m: "unat m = n" unfolding m_def by (simp add: unat_min Kfifo_remain [OF inv b] n)
  have m': "m = of_nat n" by (simp flip: m)
  have un: "unat (of_nat n :: u32) = n" using m by (simp only: m')
  have off: "unat off = unat (kwrite k) mod length bs" unfolding off_def by (rule D)
  have len: "unat len = min n (length bs - unat off)"
    unfolding len_def off_def by (simp only: unat_min un D)
  have "unat (of_nat n - len) = n - unat len"
    using un by (simp add: unat_sub len_def word_le_nat_alt unat_min)
  moreover have ns: "n \<le> length src" "n \<le> length bs" using src n by auto
  ultimately show ?thesis
    using b sz D(1) m'
    by (simp add: Kfifo_writeBuffer_def Min_call_remain if_less_min Let_def Kfifo_unlock_def
        copy_in_ring [OF ns D(3) off len] kfifo_mutex_0 flip: m_def off_def len_def)
qed

lemma Kfifo_readBuffer_ring:
  assumes inv: "Kfifo_inv k" and b: "buffer k = Some bs" and sz: "sz \<noteq> 0"
    and dst: "unat sz \<le> length dst"
    and n: "n = min (unat sz) (unat (kwrite k - kread k))"
  shows "Kfifo_readBuffer RelockProceeds k (Some dst) sz =
    Inr (of_nat n, Some (blit dst 0 (ring_view bs (unat (kread k)) n)), k\<lparr>kread := kread k + of_nat n\<rparr>)"
proof -
  note D = Kfifo_blockD [OF inv b]
  define m where "m = min sz (kwrite k - kread k)"
  define off where "off = kread k AND (bufferSize k - 1)"
  define len where "len = min (of_nat n) (bufferSize k - off)"
  have m: "unat m = n" unfolding m_def by (simp add: unat_min n)
  have m': "m = of_nat n" by (simp flip: m)
  have un: "unat (of_nat n :: u32) = n" using m by (simp only: m')
  have off: "unat off = unat (kread k) mod length bs" unfolding off_def by (rule D)
  have len: "unat len = min n (length bs - unat off)"
    unfolding len_def off_def by (simp only: unat_min un D)
  have "unat (of_nat n - len) = n - unat len"
    using un by (simp add: unat_sub len_def word_le_nat_alt unat_min)
  moreover have ns: "n \<le> length dst" "n \<le> length bs" using dst n D(6) by auto
  ultimately show ?thesis
    using b sz D(1) m'
    by (simp add: Kfifo_readBuffer_def Min_call_readable if_less_min Let_def Kfifo_unlock_def
        copy_out_ring [OF ns D(3) off len] kfifo_mutex_0 flip: m_def off_def len_def)
qed

section \<open>The queue contract\<close>

lemma Kfifo_inv_put:
  assumes inv: "Kfifo_inv k" and b: "buffer k = Some bs"
    and n: "length ys \<le> Kfifo_room k"
    and k': "k' = k\<lparr>buffer := Some (ring_put bs (unat (kwrite k)) ys),
                    kwrite := kwrite k + of_nat (length ys)\<rparr>"
  shows "Kfifo_inv k' \<and> Kfifo_contents k' = Kfifo_contents k @ ys"
proof -
  note D = Kfifo_blockD [OF inv b]
  have fit: "unat (kwrite k - kread k) + length ys \<le> length bs"
    using n D(2,6) by (simp add: Kfifo_room_def length_Kfifo_contents [OF b])
  then have len: "unat (kwrite k + of_nat (length ys) - kread k) = unat (kwrite k - kread k) + length ys"
    using D(4) by (intro unat_advance) simp
  have "ring_put bs (unat (kwrite k)) ys = ring_put bs (unat (kread k) + unat (kwrite k - kread k)) ys"
    by (rule ring_put_mod) (rule Kfifo_position [OF inv b])
  then have "Kfifo_contents k' = Kfifo_contents k @ ys"
    using len fit b by (simp add: Kfifo_contents_def k' ring_view_put)
  moreover have "Kfifo_inv k'"
    using inv b len fit D(2) by (simp add: Kfifo_inv_def k')
  ultimately show ?thesis by simp
qed

lemma Kfifo_inv_get:
  assumes inv: "Kfifo_inv k" and b: "buffer k = Some bs" and n: "n \<le> length (Kfifo_contents k)"
  shows "Kfifo_inv (k\<lparr>kread := kread k + of_nat n\<rparr>) \<and>
    Kfifo_contents (k\<lparr>kread := kread k + of_nat n\<rparr>) = drop n (Kfifo_contents k)"
proof -
  note D = Kfifo_blockD [OF inv b]
  have n: "n \<le> unat (kwrite k - kread k)" using n length_Kfifo_contents [OF b] by simp
  have len: "unat (kwrite k - (kread k + of_nat n)) = unat (kwrite k - kread k) - n"
    using n by (rule unat_consume)
  have "unat (of_nat n :: u32) = n"
    using n u32_less [of "kwrite k - kread k"] by (simp add: unat_of_nat)
  then have "unat (kread k + of_nat n) mod length bs = (unat (kread k) + n) mod length bs"
    using unat_plus_mod [of "length bs" "kread k" "of_nat n"] D(5) by simp
  then have "ring_view bs (unat (kread k + of_nat n)) m = ring_view bs (unat (kread k) + n) m" for m
    by (rule ring_view_mod)
  then show ?thesis
    using inv b len n D(2,6) by (auto simp: Kfifo_inv_def Kfifo_contents_def drop_ring_view)
qed

lemma Kfifo_writeBuffer_appends:
  assumes "Kfifo_inv k" and "buffer k \<noteq> None" and "sz \<noteq> 0" and "unat sz \<le> length src"
  shows "\<exists>k'. Kfifo_writeBuffer RelockProceeds k (Some src) sz =
        Inr (of_nat (min (unat sz) (Kfifo_room k)), k') \<and>
      Kfifo_inv k' \<and> bufferSize k' = bufferSize k \<and> buffer k' \<noteq> None \<and> kread k' = kread k \<and>
      Kfifo_contents k' = Kfifo_contents k @ take (min (unat sz) (Kfifo_room k)) src"
proof -
  obtain bs where b: "buffer k = Some bs" using assms(2) by blast
  define n where "n = min (unat sz) (Kfifo_room k)"
  have n: "n = min (unat sz) (length bs - unat (kwrite k - kread k))"
    using Kfifo_blockD(2) [OF assms(1) b]
    by (simp add: n_def Kfifo_room_def length_Kfifo_contents [OF b])
  let ?k = "k\<lparr>buffer := Some (ring_put bs (unat (kwrite k)) (take n src)),
              kwrite := kwrite k + of_nat n\<rparr>"
  have l: "length (take n src) = n" using assms(4) n_def by simp
  have nr: "n \<le> Kfifo_room k" by (simp add: n_def)
  have "Kfifo_inv ?k \<and> Kfifo_contents ?k = Kfifo_contents k @ take n src"
    by (rule Kfifo_inv_put [OF assms(1) b]) (simp_all only: l nr)
  then show ?thesis
    using Kfifo_writeBuffer_ring [OF assms(1) b assms(3,4) n] by (simp flip: n_def)
qed

lemma Kfifo_readBuffer_removes:
  assumes "Kfifo_inv k" and "buffer k \<noteq> None" and "sz \<noteq> 0" and "unat sz \<le> length dst"
  shows "\<exists>k'. Kfifo_readBuffer RelockProceeds k (Some dst) sz =
        Inr (of_nat (min (unat sz) (length (Kfifo_contents k))),
             Some (take (unat sz) (Kfifo_contents k) @
                   drop (min (unat sz) (length (Kfifo_contents k))) dst), k') \<and>
      Kfifo_inv k' \<and> bufferSize k' = bufferSize k \<and> buffer k' = buffer k \<and>
      Kfifo_contents k' = drop (unat sz) (Kfifo_contents k)"
proof -
  obtain bs where b: "buffer k = Some bs" using assms(2) by blast
  define n where "n = min (unat sz) (length (Kfifo_contents k))"
  have n: "n = min (unat sz) (unat (kwrite k - kread k))"
    by (simp add: n_def length_Kfifo_contents [OF b])
  have "ring_view bs (unat (kread k)) n = take n (Kfifo_contents k)"
    using b n by (simp add: Kfifo_contents_def take_ring_view)
  moreover have "take n (Kfifo_contents k) = take (unat sz) (Kfifo_contents k)"
    by (simp add: n_def min_def)
  moreover have "drop n (Kfifo_contents k) = drop (unat sz) (Kfifo_contents k)"
    by (simp add: n_def min_def)
  moreover have "blit dst 0 (take n (Kfifo_contents k)) = take n (Kfifo_contents k) @ drop n dst"
    by (simp add: blit_def n_def)
  ultimately show ?thesis
    using Kfifo_readBuffer_ring [OF assms(1) b assms(3,4) n] Kfifo_inv_get [OF assms(1) b, of n]
    by (simp add: n_def [symmetric]) (simp add: n_def)
qed

text \<open>The two operations as a byte queue, and the stream theorem for them.\<close>

definition Kfifo_push :: "kfifo \<Rightarrow> byte list \<Rightarrow> (nat \<times> kfifo) res" where
  "Kfifo_push k ys =
     rbind (Kfifo_writeBuffer RelockProceeds k (Some ys) (of_nat (length ys))) (\<lambda>(n, k). Inr (unat n, k))"

definition Kfifo_pop :: "kfifo \<Rightarrow> nat \<Rightarrow> (byte list \<times> kfifo) res" where
  "Kfifo_pop k n =
     rbind (Kfifo_readBuffer RelockProceeds k (Some (replicate n 0)) (of_nat n)) (\<lambda>(r, dst, k).
     Inr (take (unat r) (case dst of None \<Rightarrow> [] | Some d \<Rightarrow> d), k))"

definition Kfifo_ready :: "kfifo \<Rightarrow> bool" where
  "Kfifo_ready k \<longleftrightarrow> Kfifo_inv k \<and> buffer k \<noteq> None"

lemma unat_of_nat_u32: "n < 2 ^ 32 \<Longrightarrow> unat (of_nat n :: u32) = n"
  by (simp add: unat_of_nat)

lemma of_nat_u32_neq_0: "0 < n \<Longrightarrow> n < 2 ^ 32 \<Longrightarrow> (of_nat n :: u32) \<noteq> 0"
  by (metis unat_of_nat_u32 unat_0 less_numeral_extra(3))

lemma Kfifo_push_law:
  assumes "Kfifo_ready k" and "0 < length ys" and "length ys < 2 ^ 32"
  shows "\<exists>k'. Kfifo_push k ys = Inr (min (length ys) (Kfifo_room k), k') \<and> Kfifo_ready k' \<and>
    Kfifo_contents k' = Kfifo_contents k @ take (min (length ys) (Kfifo_room k)) ys"
proof -
  let ?n = "min (length ys) (Kfifo_room k)"
  note u = unat_of_nat_u32 [OF assms(3)]
  obtain k' where k': "Kfifo_writeBuffer RelockProceeds k (Some ys) (of_nat (length ys)) = Inr (of_nat ?n, k')"
    "Kfifo_inv k'" "bufferSize k' = bufferSize k" "Kfifo_contents k' = Kfifo_contents k @ take ?n ys"
    using Kfifo_writeBuffer_appends [of k "of_nat (length ys)" ys] assms u of_nat_u32_neq_0 [OF assms(2,3)]
    by (auto simp: Kfifo_ready_def)
  have "unat (of_nat ?n :: u32) = ?n" using assms(3) by (intro unat_of_nat_u32) simp
  moreover have "buffer k' \<noteq> None"
    using k'(2,3) assms(1)
    by (auto simp: Kfifo_inv_def Kfifo_ready_def is_power_of_two_def split: option.splits)
  ultimately show ?thesis using k' by (auto simp: Kfifo_push_def Kfifo_ready_def)
qed

lemma Kfifo_pop_law:
  assumes "Kfifo_ready k" and "0 < n" and "n < 2 ^ 32"
  shows "\<exists>k'. Kfifo_pop k n = Inr (take n (Kfifo_contents k), k') \<and> Kfifo_ready k' \<and>
    Kfifo_contents k' = drop n (Kfifo_contents k)"
proof -
  let ?m = "min n (length (Kfifo_contents k))"
  note u = unat_of_nat_u32 [OF assms(3)]
  have "unat (of_nat ?m :: u32) = ?m" using assms(3) by (intro unat_of_nat_u32) simp
  moreover obtain k' where "Kfifo_readBuffer RelockProceeds k (Some (replicate n 0)) (of_nat n) =
      Inr (of_nat ?m, Some (take n (Kfifo_contents k) @ drop ?m (replicate n 0)), k')"
    "Kfifo_inv k'" "buffer k' = buffer k" "Kfifo_contents k' = drop n (Kfifo_contents k)"
    using Kfifo_readBuffer_removes [of k "of_nat n" "replicate n 0"] assms u of_nat_u32_neq_0 [OF assms(2,3)]
    by (auto simp: Kfifo_ready_def)
  moreover have "take ?m (Kfifo_contents k) = take n (Kfifo_contents k)" by (simp add: min_def)
  ultimately show ?thesis using assms(1) by (auto simp: Kfifo_pop_def Kfifo_ready_def)
qed

interpretation kf: byte_fifo_total Kfifo_ready Kfifo_contents Kfifo_room "2 ^ 32 - 1" "{}" Kfifo_push Kfifo_pop
proof unfold_locales
  fix k ys n k'
  assume "Kfifo_ready k" "0 < length ys" "length ys \<le> 2 ^ 32 - 1" "Kfifo_push k ys = Inr (n, k')"
  then show "n = min (length ys) (Kfifo_room k) \<and> Kfifo_ready k' \<and>
      Kfifo_contents k' = Kfifo_contents k @ take n ys"
    using Kfifo_push_law [of k ys] by auto
next
  fix k n out k'
  assume "Kfifo_ready k" "0 < n" "n \<le> 2 ^ 32 - 1" "Kfifo_pop k n = Inr (out, k')"
  then show "out = take n (Kfifo_contents k) \<and> Kfifo_ready k' \<and>
      Kfifo_contents k' = drop n (Kfifo_contents k)"
    using Kfifo_pop_law [of k n] by auto
next
  fix k and ys :: "byte list" and e
  assume "Kfifo_ready k" "0 < length ys" "length ys \<le> 2 ^ 32 - 1" "Kfifo_push k ys = Inl e"
  then show "e \<in> {}" using Kfifo_push_law [of k ys] by auto
next
  fix k and n :: nat and e
  assume "Kfifo_ready k" "0 < n" "n \<le> 2 ^ 32 - 1" "Kfifo_pop k n = Inl e"
  then show "e \<in> {}" using Kfifo_pop_law [of k n] by auto
qed simp

section \<open>Reading and writing descriptors\<close>

abbreviation Kfifo_tail :: "kfifo \<Rightarrow> nat" where
  "Kfifo_tail k \<equiv> unat (bufferSize k - (kwrite k AND (bufferSize k - 1)))"

abbreviation Kfifo_iov :: "kfifo \<Rightarrow> nat list" where
  "Kfifo_iov k \<equiv> (if Kfifo_tail k < extrabuf_size then [Kfifo_tail k, extrabuf_size] else [Kfifo_tail k])"

lemma mem_write_tail:
  assumes inv: "Kfifo_inv k" and b: "buffer k = Some bs" and n: "length ys \<le> Kfifo_tail k"
  shows "mem_write bs (unat (kwrite k AND (bufferSize k - 1))) ys = Inr (ring_put bs (unat (kwrite k)) ys)"
proof -
  note D = Kfifo_blockD [OF inv b]
  have "length ys \<le> length bs - unat (kwrite k) mod length bs" using n by (simp only: D)
  moreover have "unat (kwrite k) mod length bs < length bs" using D(3) by simp
  ultimately show ?thesis
    unfolding D(7) by (simp add: mem_write_def ring_put_def Let_def)
qed

lemma Kfifo_readFd_small:
  assumes inv: "Kfifo_inv k" and b: "buffer k = Some bs"
    and r: "readv fd (Kfifo_iov k) = Inr bytes" and n: "length bytes \<le> Kfifo_tail k"
  shows "Kfifo_readFd mx readv k fd = Inr (int (length bytes), None,
    k\<lparr>buffer := Some (ring_put bs (unat (kwrite k)) bytes), kwrite := kwrite k + of_nat (length bytes)\<rparr>)"
  using b r n mem_write_tail [OF inv b n] by (simp add: Kfifo_readFd_def Let_def)

lemma Kfifo_room_tail:
  assumes "Kfifo_inv k" and "buffer k = Some bs"
  shows "Kfifo_room k = length bs - unat (kwrite k - kread k)"
  using Kfifo_blockD(2) [OF assms] by (simp add: Kfifo_room_def length_Kfifo_contents [OF assms(2)])

lemma Kfifo_readFd_overflow_state:
  assumes inv: "Kfifo_inv k" and b: "buffer k = Some bs"
    and n: "Kfifo_tail k < length bytes" and room: "Kfifo_tail k \<le> Kfifo_room k"
    and k1: "k1 = k\<lparr>buffer := Some (ring_put bs (unat (kwrite k)) (take (Kfifo_tail k) bytes))\<rparr>"
  shows "Kfifo_inv k1 \<and> Kfifo_contents k1 = Kfifo_contents k \<and> Kfifo_room k1 = Kfifo_room k"
proof -
  note D = Kfifo_blockD [OF inv b]
  let ?ys = "take (Kfifo_tail k) bytes" and ?len = "unat (kwrite k - kread k)"
  have l: "length ?ys = Kfifo_tail k" using n by simp
  have fit: "?len + length ?ys \<le> length bs"
    using room D(6) l by (simp add: Kfifo_room_tail [OF inv b])
  have "ring_put bs (unat (kwrite k)) ?ys = ring_put bs (unat (kread k) + ?len) ?ys"
    by (rule ring_put_mod) (rule Kfifo_position [OF inv b])
  then have "take ?len (ring_view (ring_put bs (unat (kwrite k)) ?ys) (unat (kread k)) (?len + length ?ys))
      = ring_view bs (unat (kread k)) ?len"
    by (simp only: ring_view_put [OF fit]) simp
  then have "Kfifo_contents k1 = Kfifo_contents k"
    using b by (simp add: Kfifo_contents_def k1 take_ring_view)
  moreover have "Kfifo_inv k1" using inv b fit by (simp add: Kfifo_inv_def k1)
  ultimately show ?thesis by (simp add: Kfifo_room_def k1)
qed

lemma Kfifo_readFd_large:
  assumes inv: "Kfifo_inv k" and b: "buffer k = Some bs"
    and r: "readv fd (Kfifo_iov k) = Inr bytes" and n: "Kfifo_tail k < length bytes"
    and k1: "k1 = k\<lparr>buffer := Some (ring_put bs (unat (kwrite k)) (take (Kfifo_tail k) bytes))\<rparr>"
    and ex: "extra = drop (Kfifo_tail k) bytes @
      replicate (extrabuf_size - (length bytes - Kfifo_tail k)) 0"
  shows "Kfifo_readFd mx readv k fd =
    rbind (Kfifo_writeBuffer mx k1 (Some extra) (of_nat (length bytes - Kfifo_tail k))) (\<lambda>(_, k).
    Inr (int (length bytes), None, k))"
  using b r n mem_write_tail [OF inv b, of "take (Kfifo_tail k) bytes"]
  by (simp add: Kfifo_readFd_def Let_def k1 ex)

lemma shift_count_mono_bounds:
  assumes "s \<noteq> 0"
  shows "unat s < 2 ^ 31 \<Longrightarrow> shift_count s < 32" and "2 ^ 31 \<le> unat s \<Longrightarrow> \<not> shift_count s < 32"
proof -
  note b = shift_count_bounds [OF assms]
  assume "unat s < 2 ^ 31"
  with b have "(2::nat) ^ (shift_count s - 1) < 2 ^ 31" by linarith
  then have "shift_count s - 1 < 31" by (rule power_less_imp_less_exp [rotated]) simp
  then show "shift_count s < 32" by simp
next
  note b = shift_count_bounds [OF assms]
  assume "2 ^ 31 \<le> unat s"
  with b have "(2::nat) ^ 31 < 2 ^ shift_count s" by linarith
  then have "31 < shift_count s" by (rule power_less_imp_less_exp [rotated]) simp
  then show "\<not> shift_count s < 32" by simp
qed

lemma Kfifo_round_size_returns: "unat sz \<le> 2 ^ 31 \<Longrightarrow> \<exists>sz'. Kfifo_round_size sz = Inr sz'"
proof (cases "is_power_of_two sz")
  case False
  assume "unat sz \<le> 2 ^ 31"
  moreover have "unat sz \<noteq> 2 ^ 31" using False by (auto simp only: is_power_of_two_iff)
  ultimately have "unat (if sz < 2 then 2 else sz) < 2 ^ 31" by simp
  moreover have "(if sz < 2 then 2 else sz) \<noteq> 0" by (auto simp: word_less_nat_alt)
  ultimately show ?thesis
    using False shift_count_mono_bounds(1) by (simp add: Kfifo_round_size_def Let_def)
qed (simp add: Kfifo_round_size_def)

lemma Kfifo_round_size_overflows: "\<not> unat sz \<le> 2 ^ 31 \<Longrightarrow> Kfifo_round_size sz = Inl ShiftOverflow"
proof -
  assume big: "\<not> unat sz \<le> 2 ^ 31"
  have "\<not> is_power_of_two sz"
  proof
    assume "is_power_of_two sz"
    then obtain p where p: "unat sz = 2 ^ p" by (auto simp: is_power_of_two_iff)
    then have "(2::nat) ^ p < 2 ^ 32" "(2::nat) ^ 31 < 2 ^ p"
      using u32_less [of sz] big by (simp_all only: p not_le)
    then have "p < 32" "31 < p" by (auto dest!: power_less_imp_less_exp [rotated] simp del: power_numeral)
    then show False by simp
  qed
  moreover have "\<not> sz < 2" "sz \<noteq> 0" using big by (auto simp: word_less_nat_alt)
  ultimately show ?thesis
    using shift_count_mono_bounds(2) [of sz] big by (simp add: Kfifo_round_size_def Let_def)
qed

lemma Kfifo_readable: "mutex k = 0 \<Longrightarrow> Kfifo_getReadableLen mx k = Inr (kwrite k - kread k, k)"
  by (simp add: Kfifo_getReadableLen_def Kfifo_unlock_def kfifo_mutex_0)

lemma Kfifo_writeBuffer_blocks:
  "mutex k = 0 \<Longrightarrow> buffer k = Some bs \<Longrightarrow> sz \<noteq> 0 \<Longrightarrow> Kfifo_writeBuffer RelockBlocks k (Some src) sz = Inl Deadlock"
  by (simp add: Kfifo_writeBuffer_def Min_call_def Kfifo_getRemainLen_def)

lemma Kfifo_writeFd_eq:
  assumes "Kfifo_inv k" and "buffer k \<noteq> None"
  shows "Kfifo_writeFd mx write k fd =
    (if unat (kread k) mod unat (bufferSize k) + length (Kfifo_contents k) \<le> unat (bufferSize k)
     then case write fd (Kfifo_contents k) of
            Inl e \<Rightarrow> Inr (- 1, Some e, k)
          | Inr n \<Rightarrow> Inr (int n, None, k)
     else Inl OutOfBounds)"
proof -
  obtain bs where b: "buffer k = Some bs" using assms(2) by blast
  note D = Kfifo_blockD [OF assms(1) b]
  let ?len = "unat (kwrite k - kread k)" and ?off = "unat (kread k) mod length bs"
  have "Kfifo_getReadableLen mx k = Inr (kwrite k - kread k, k)" using D(1) by (rule Kfifo_readable)
  moreover have "mem_read bs ?off ?len =
      (if ?off + ?len \<le> length bs then Inr (Kfifo_contents k) else Inl OutOfBounds)"
  proof (cases "?off + ?len \<le> length bs")
    case True
    have "?len \<le> length bs" by (rule D)
    then have "Kfifo_contents k = ring_get bs (unat (kread k)) ?len"
      using b by (simp add: Kfifo_contents_def ring_get_view)
    also have "\<dots> = take ?len (drop ?off bs)" using True by (simp add: ring_get_def Let_def)
    finally show ?thesis using True by (simp add: mem_read_def)
  qed (simp add: mem_read_def)
  ultimately show ?thesis
    using b D(7) [of "kread k"] by (simp add: Kfifo_writeFd_def length_Kfifo_contents flip: D(2))
qed

lemma Kfifo_readFd_eq:
  assumes "Kfifo_inv k" and "buffer k \<noteq> None"
  shows "case readv fd (Kfifo_iov k) of
      Inl e \<Rightarrow> Kfifo_readFd mx readv k fd = Inr (- 1, Some e, k)
    | Inr bytes \<Rightarrow> length bytes \<le> Kfifo_tail k \<longrightarrow> length bytes \<le> Kfifo_room k \<longrightarrow>
        (\<exists>k'. Kfifo_readFd mx readv k fd = Inr (int (length bytes), None, k') \<and>
          Kfifo_inv k' \<and> buffer k' \<noteq> None \<and> Kfifo_contents k' = Kfifo_contents k @ bytes)"
proof (cases "readv fd (Kfifo_iov k)")
  case (Inl e)
  then show ?thesis by (simp add: Kfifo_readFd_def Let_def)
next
  case (Inr bytes)
  obtain bs where b: "buffer k = Some bs" using assms(2) by blast
  show ?thesis
    unfolding Inr
    using Kfifo_readFd_small [OF assms(1) b, of readv fd bytes mx, OF Inr]
      Kfifo_inv_put [OF assms(1) b _ refl, of bytes]
    by auto
qed

section \<open>Properties\<close>

definition kfifo_sample :: kfifo where
  "kfifo_sample = \<lparr>buffer = Some [10, 11, 12, 13], bufferSize = 4, kwrite = 1, kread = 4294967295, mutex = 0\<rparr>"

lemma kfifo_sample_facts:
  "Kfifo_inv kfifo_sample" "Kfifo_ready kfifo_sample" "buffer kfifo_sample \<noteq> None"
  "Kfifo_contents kfifo_sample = [13, 10]" "Kfifo_room kfifo_sample = 2" "Kfifo_tail kfifo_sample = 3"
  by (simp_all add: kfifo_sample_def Kfifo_inv_def Kfifo_ready_def is_power_of_two_def
      Kfifo_contents_def Kfifo_room_def ring_view_def upt_rec)

text \<open>C23: On a well-formed \<^verbatim>\<open>Kfifo\<close> whose second lock does not block, \<^verbatim>\<open>writeBuffer\<close> returns the
  smaller of the size asked for and the free space, appends exactly that many bytes of the source
  to the contents, and keeps the invariant; this holds also when the write position wraps around
  the end of the block or the 32-bit counters wrap around zero.\<close>

theorem Kfifo_writeBuffer_spec:
  assumes "Kfifo_inv k" and "buffer k \<noteq> None" and "sz \<noteq> 0" and "unat sz \<le> length src"
  shows "\<exists>k'. Kfifo_writeBuffer RelockProceeds k (Some src) sz =
        Inr (of_nat (min (unat sz) (Kfifo_room k)), k') \<and>
      Kfifo_inv k' \<and> bufferSize k' = bufferSize k \<and> buffer k' \<noteq> None \<and> kread k' = kread k \<and>
      Kfifo_contents k' = Kfifo_contents k @ take (min (unat sz) (Kfifo_room k)) src"
  using assms by (rule Kfifo_writeBuffer_appends)

theorem Kfifo_writeBuffer_spec_witness:
  "\<exists>k'. Kfifo_writeBuffer RelockProceeds kfifo_sample (Some [1, 2, 3]) 3 = Inr (2, k') \<and>
     Kfifo_contents k' = [13, 10, 1, 2]"
  using Kfifo_writeBuffer_spec [of kfifo_sample 3 "[1, 2, 3]"] by (auto simp: kfifo_sample_facts)



text \<open>C32: With a mutex that blocks its owner, as \<^verbatim>\<open>std::mutex\<close> on POSIX threads does, every call
  of \<^verbatim>\<open>writeBuffer\<close> or \<^verbatim>\<open>readBuffer\<close> that gets past the argument check never returns: both hold
  the lock when they call \<^verbatim>\<open>getRemainLen\<close> or \<^verbatim>\<open>getReadableLen\<close>, which lock again.\<close>

theorem Kfifo_buffer_calls_block:
  assumes "mutex k = 0" and "buffer k = Some bs" and "sz \<noteq> 0"
  shows "Kfifo_writeBuffer RelockBlocks k (Some src) sz = Inl Deadlock \<and>
    Kfifo_readBuffer RelockBlocks k (Some dst) sz = Inl Deadlock"
  using assms
  by (simp add: Kfifo_writeBuffer_def Kfifo_readBuffer_def Min_call_def Kfifo_getRemainLen_def
      Kfifo_getReadableLen_def)

theorem Kfifo_buffer_calls_block_witness:
  "Kfifo_writeBuffer RelockBlocks kfifo_sample (Some [1]) 1 = Inl Deadlock \<and>
   Kfifo_readBuffer RelockBlocks kfifo_sample (Some [0]) 1 = Inl Deadlock"
  using Kfifo_buffer_calls_block [of kfifo_sample "[10, 11, 12, 13]" 1 "[1]" "[0]"]
  by (simp add: kfifo_sample_def)

lemma Kfifo_initBuffer_ok:
  assumes m: "mutex k = 0" and sz: "unat sz \<le> 2 ^ 31"
  shows "\<exists>k'. Kfifo_initBuffer mx True k sz = Inr (True, k') \<and> Kfifo_ready k' \<and> Kfifo_contents k' = [] \<and>
    unat sz \<le> unat (bufferSize k') \<and> (0 < unat sz \<longrightarrow> unat (bufferSize k') < 2 * unat sz)"
proof -
  obtain sz' where sz': "Kfifo_round_size sz = Inr sz'"
    using Kfifo_round_size_returns [OF sz] by blast
  note r = round_size_unat [OF sz']
  have "Kfifo_initBuffer mx True k sz =
      Inr (True, k\<lparr>buffer := Some (replicate (unat sz') 0), bufferSize := sz', kwrite := 0, kread := 0\<rparr>)"
    using m by (cases k) (simp add: Kfifo_initBuffer_def sz' Kfifo_unlock_def)
  then show ?thesis
    using sz r m by (auto simp: Kfifo_ready_def Kfifo_inv_def Kfifo_contents_def)
qed

text \<open>C36: \<^verbatim>\<open>initBuffer\<close> with a size up to \<open>2 ^ 31\<close> succeeds and gives an empty, well-formed buffer
  whose size is a power of two, at least the size asked for and (for a positive one) less than
  twice it; a larger size shifts \<^verbatim>\<open>1U\<close> by 32, which is undefined.\<close>

theorem Kfifo_initBuffer_size:
  assumes "mutex k = 0"
  shows "if unat sz \<le> 2 ^ 31
    then \<exists>k'. Kfifo_initBuffer mx True k sz = Inr (True, k') \<and> Kfifo_ready k' \<and>
      Kfifo_contents k' = [] \<and> unat sz \<le> unat (bufferSize k') \<and>
      (0 < unat sz \<longrightarrow> unat (bufferSize k') < 2 * unat sz)
    else Kfifo_initBuffer mx True k sz = Inl ShiftOverflow"
proof (cases "unat sz \<le> 2 ^ 31")
  case True
  then show ?thesis using Kfifo_initBuffer_ok [OF assms True] by simp
next
  case False
  then have "Kfifo_round_size sz = Inl ShiftOverflow" by (rule Kfifo_round_size_overflows)
  with False show ?thesis by (simp add: Kfifo_initBuffer_def)
qed

theorem Kfifo_initBuffer_size_witness:
  "(\<exists>k'. Kfifo_initBuffer RelockBlocks True Kfifo_new 4096 = Inr (True, k') \<and> Kfifo_ready k' \<and>
      4096 \<le> unat (bufferSize k') \<and> unat (bufferSize k') < 8192) \<and>
   Kfifo_initBuffer RelockBlocks True Kfifo_new 2147483649 = Inl ShiftOverflow"
  using Kfifo_initBuffer_size [of Kfifo_new 4096 RelockBlocks]
    Kfifo_initBuffer_size [of Kfifo_new 2147483649 RelockBlocks]
  by (auto simp: Kfifo_new_def)

text \<open>C33: When \<^verbatim>\<open>readv\<close> delivers no more bytes than the free space and than the part of the block
  after the write position, \<^verbatim>\<open>readFd\<close> returns their number, appends exactly them to the contents
  and keeps the invariant; a failing \<^verbatim>\<open>readv\<close> returns -1, saves \<^verbatim>\<open>errno\<close> and changes nothing.\<close>

theorem Kfifo_readFd_appends:
  assumes "Kfifo_inv k" and "buffer k \<noteq> None"
  shows "case readv fd (Kfifo_iov k) of
      Inl e \<Rightarrow> Kfifo_readFd mx readv k fd = Inr (- 1, Some e, k)
    | Inr bytes \<Rightarrow> length bytes \<le> Kfifo_tail k \<longrightarrow> length bytes \<le> Kfifo_room k \<longrightarrow>
        (\<exists>k'. Kfifo_readFd mx readv k fd = Inr (int (length bytes), None, k') \<and>
          Kfifo_inv k' \<and> buffer k' \<noteq> None \<and> Kfifo_contents k' = Kfifo_contents k @ bytes)"
  using assms by (rule Kfifo_readFd_eq)

theorem Kfifo_readFd_appends_witness:
  "(\<exists>k'. Kfifo_readFd RelockBlocks (\<lambda>_ _. Inr [1, 2]) kfifo_sample 7 = Inr (2, None, k') \<and>
      Kfifo_contents k' = [13, 10, 1, 2]) \<and>
   Kfifo_readFd RelockBlocks (\<lambda>_ _. Inl 11) kfifo_sample 7 = Inr (- 1, Some 11, kfifo_sample)"
  using Kfifo_readFd_appends
      [where k = kfifo_sample and readv = "\<lambda>_ _. Inr [1, 2]" and fd = 7 and mx = RelockBlocks]
    Kfifo_readFd_appends
      [where k = kfifo_sample and readv = "\<lambda>_ _. Inl 11" and fd = 7 and mx = RelockBlocks]
  by (auto simp: kfifo_sample_facts)

text \<open>C34: When \<^verbatim>\<open>readv\<close> delivers more bytes than fit after the write position, \<^verbatim>\<open>readFd\<close> blocks
  for ever with a blocking mutex; where the second lock does not block, and the block's tail was
  free, the bytes that the kernel put into the block are lost: only those from \<^verbatim>\<open>extrabuf\<close> are
  appended, because \<^verbatim>\<open>write\<close> is not advanced before \<^verbatim>\<open>writeBuffer\<close> runs.\<close>

theorem Kfifo_readFd_overflow:
  assumes "Kfifo_inv k" and "buffer k \<noteq> None"
    and "readv fd (Kfifo_iov k) = Inr bytes" and "Kfifo_tail k < length bytes"
    and "length bytes \<le> Kfifo_tail k + extrabuf_size" and "Kfifo_tail k \<le> Kfifo_room k"
  shows "Kfifo_readFd RelockBlocks readv k fd = Inl Deadlock \<and>
    (\<exists>k'. Kfifo_readFd RelockProceeds readv k fd = Inr (int (length bytes), None, k') \<and>
      Kfifo_contents k' = Kfifo_contents k @ take (Kfifo_room k) (drop (Kfifo_tail k) bytes))"
proof -
  obtain bs where b: "buffer k = Some bs" using assms(2) by blast
  define m where "m = length bytes - Kfifo_tail k"
  define k1 where "k1 = k\<lparr>buffer := Some (ring_put bs (unat (kwrite k)) (take (Kfifo_tail k) bytes))\<rparr>"
  define extra where "extra = drop (Kfifo_tail k) bytes @ replicate (extrabuf_size - m) 0"
  have L: "Kfifo_readFd mx readv k fd = rbind (Kfifo_writeBuffer mx k1 (Some extra) (of_nat m))
      (\<lambda>(_, k). Inr (int (length bytes), None, k))" for mx
    using Kfifo_readFd_large [OF assms(1) b, of readv fd bytes k1, OF assms(3,4) k1_def]
    by (simp add: m_def extra_def)
  have m: "0 < m" "m < 2 ^ 32" using assms(4,5) by (auto simp: m_def extrabuf_size_def)
  note u = unat_of_nat_u32 [OF m(2)] of_nat_u32_neq_0 [OF m]
  have k1: "Kfifo_inv k1" "Kfifo_contents k1 = Kfifo_contents k" "Kfifo_room k1 = Kfifo_room k"
    using Kfifo_readFd_overflow_state [OF assms(1) b assms(4,6) k1_def] by auto
  have "buffer k1 \<noteq> None" by (simp add: k1_def)
  moreover have "m \<le> length extra" by (simp add: extra_def m_def)
  ultimately obtain k' where "Kfifo_writeBuffer RelockProceeds k1 (Some extra) (of_nat m) =
      Inr (of_nat (min m (Kfifo_room k)), k')"
    "Kfifo_contents k' = Kfifo_contents k @ take (min m (Kfifo_room k)) extra"
    using Kfifo_writeBuffer_appends [of k1 "of_nat m" extra] k1 u by auto
  moreover have "take (min m (Kfifo_room k)) extra = take (Kfifo_room k) (drop (Kfifo_tail k) bytes)"
    by (simp add: extra_def m_def min_def)
  moreover have "Kfifo_readFd RelockBlocks readv k fd = Inl Deadlock"
    using Kfifo_blockD(1) [OF assms(1) b] u(2) unfolding L
    by (simp add: Kfifo_writeBuffer_def Min_call_def Kfifo_getRemainLen_def k1_def)
  ultimately show ?thesis using L by simp
qed

theorem Kfifo_readFd_overflow_witness:
  "Kfifo_readFd RelockBlocks (\<lambda>_ _. Inr [1, 2, 3]) (kfifo_sample\<lparr>kwrite := 2, kread := 2\<rparr>) 7 = Inl Deadlock \<and>
   (\<exists>k'. Kfifo_readFd RelockProceeds (\<lambda>_ _. Inr [1, 2, 3]) (kfifo_sample\<lparr>kwrite := 2, kread := 2\<rparr>) 7
      = Inr (3, None, k') \<and> Kfifo_contents k' = [3])"
  using Kfifo_readFd_overflow [of "kfifo_sample\<lparr>kwrite := 2, kread := 2\<rparr>" "\<lambda>_ _. Inr [1, 2, 3]" 7 "[1, 2, 3]"]
  by (simp add: kfifo_sample_def Kfifo_inv_def is_power_of_two_def Kfifo_contents_def Kfifo_room_def
      extrabuf_size_def)

text \<open>\<^verbatim>\<open>readFd\<close> does not look at the free space: when \<^verbatim>\<open>readv\<close> delivers more bytes than are
  free but no more than fit after the write position, the call succeeds and leaves a buffer in
  which more bytes count as readable than the block has room for.\<close>

lemma Kfifo_readFd_overrun:
  assumes "Kfifo_inv k" and "buffer k \<noteq> None" and "unat (bufferSize k) < 2 ^ 31"
    and "readv fd (Kfifo_iov k) = Inr bytes" and "length bytes \<le> Kfifo_tail k"
    and "Kfifo_room k < length bytes"
  shows "\<exists>k'. Kfifo_readFd mx readv k fd = Inr (int (length bytes), None, k') \<and>
    unat (bufferSize k') < unat (kwrite k' - kread k') \<and> \<not> Kfifo_inv k'"
proof -
  obtain bs where b: "buffer k = Some bs" using assms(2) by blast
  note D = Kfifo_blockD [OF assms(1) b]
  let ?len = "unat (kwrite k - kread k)"
  have "length bytes \<le> length bs" using assms(5) unfolding D(8) by simp
  then have "?len + length bytes < 2 ^ 32" using D(2,6) assms(3) by simp
  then have "unat (kwrite k + of_nat (length bytes) - kread k) = ?len + length bytes"
    by (rule unat_advance)
  moreover have "unat (bufferSize k) < ?len + length bytes"
    using assms(6) D(2) by (simp add: Kfifo_room_tail [OF assms(1) b])
  ultimately show ?thesis
    using Kfifo_readFd_small [OF assms(1) b, of readv fd bytes mx, OF assms(4,5)]
    by (auto simp: Kfifo_inv_def)
qed

text \<open>C35: \<^verbatim>\<open>writeFd\<close> hands the whole contents to \<^verbatim>\<open>write\<close> when they do not wrap around the end of the
  block, and reads past the block when they do; in no case does it remove the bytes written, so
  the buffer it leaves is the one it found.\<close>

theorem Kfifo_writeFd_sends:
  assumes "Kfifo_inv k" and "buffer k \<noteq> None"
  shows "Kfifo_writeFd mx write k fd =
    (if unat (kread k) mod unat (bufferSize k) + length (Kfifo_contents k) \<le> unat (bufferSize k)
     then case write fd (Kfifo_contents k) of
            Inl e \<Rightarrow> Inr (- 1, Some e, k)
          | Inr n \<Rightarrow> Inr (int n, None, k)
     else Inl OutOfBounds)"
  using assms by (rule Kfifo_writeFd_eq)

theorem Kfifo_writeFd_sends_witness:
  "Kfifo_writeFd RelockBlocks (\<lambda>_ ys. Inr (length ys)) kfifo_sample 7 = Inl OutOfBounds \<and>
   Kfifo_writeFd RelockBlocks (\<lambda>_ ys. Inr (length ys)) (kfifo_sample\<lparr>kwrite := 2, kread := 1\<rparr>) 7 =
     Inr (1, None, kfifo_sample\<lparr>kwrite := 2, kread := 1\<rparr>)"
  using Kfifo_writeFd_sends [of kfifo_sample RelockBlocks "\<lambda>_ ys. Inr (length ys)" 7]
    Kfifo_writeFd_sends [of "kfifo_sample\<lparr>kwrite := 2, kread := 1\<rparr>" RelockBlocks "\<lambda>_ ys. Inr (length ys)" 7]
  by (simp add: kfifo_sample_def Kfifo_inv_def is_power_of_two_def Kfifo_contents_def)

end
