(* ===== verification/Buffer.thy ===== *)
theory Buffer
  imports Byte_Fifo
begin

text \<open>
  The growing buffer \<^verbatim>\<open>Buffer\<close> of \<^verbatim>\<open>src/mymuduo/Buffer.h\<close> and \<^verbatim>\<open>Buffer.cpp\<close>: a vector of bytes with
  a reader and a writer index and eight bytes of head room. Indices and lengths are \<^verbatim>\<open>size_t\<close>:
  natural numbers whose sums and differences are taken modulo \<open>2 ^ 64\<close> by \<open>size_add\<close> and
  \<open>size_sub\<close>. A vector cannot grow beyond \<open>vec_max\<close> bytes (\<^verbatim>\<open>std::length_error\<close>).
\<close>

section \<open>State and operations\<close>

record buf =
  m_buffer :: "byte list"
  m_readerIndex :: nat
  m_writerIndex :: nat

definition kCheapPrepend :: nat where "kCheapPrepend = 8"
definition kInitialSize :: nat where "kInitialSize = 1024"
definition vec_max :: nat where "vec_max = 2 ^ 63 - 1"

definition vec_resize :: "byte list \<Rightarrow> nat \<Rightarrow> byte list res" where
  "vec_resize v n =
     (if n \<le> vec_max then Inr (take n v @ replicate (n - length v) 0) else Inl LengthError)"

definition Buffer_new :: "nat \<Rightarrow> buf res" where
  "Buffer_new initialSize =
     rbind (vec_resize [] (size_add kCheapPrepend initialSize)) (\<lambda>v.
     Inr \<lparr>m_buffer = v, m_readerIndex = kCheapPrepend, m_writerIndex = kCheapPrepend\<rparr>)"

definition Buffer_readableBytes :: "buf \<Rightarrow> nat" where
  "Buffer_readableBytes b = size_sub (m_writerIndex b) (m_readerIndex b)"

definition Buffer_writableBytes :: "buf \<Rightarrow> nat" where
  "Buffer_writableBytes b = size_sub (length (m_buffer b)) (m_writerIndex b)"

definition Buffer_prependableBytes :: "buf \<Rightarrow> nat" where
  "Buffer_prependableBytes b = m_readerIndex b"

definition Buffer_retrieveAll :: "buf \<Rightarrow> buf" where
  "Buffer_retrieveAll b = b\<lparr>m_readerIndex := kCheapPrepend, m_writerIndex := kCheapPrepend\<rparr>"

definition Buffer_retrieve :: "buf \<Rightarrow> nat \<Rightarrow> buf" where
  "Buffer_retrieve b len =
     (if len < Buffer_readableBytes b then b\<lparr>m_readerIndex := size_add (m_readerIndex b) len\<rparr>
      else Buffer_retrieveAll b)"

definition Buffer_retrieveAsString :: "buf \<Rightarrow> nat \<Rightarrow> (byte list \<times> buf) res" where
  "Buffer_retrieveAsString b len =
     rbind (mem_read (m_buffer b) (m_readerIndex b) len) (\<lambda>result.
     Inr (result, Buffer_retrieve b len))"

definition Buffer_retrieveAllAsString :: "buf \<Rightarrow> (byte list \<times> buf) res" where
  "Buffer_retrieveAllAsString b = Buffer_retrieveAsString b (Buffer_readableBytes b)"

definition Buffer_makeSpace :: "buf \<Rightarrow> nat \<Rightarrow> buf res" where
  "Buffer_makeSpace b len =
     (if size_add (Buffer_writableBytes b) (Buffer_prependableBytes b) < size_add len kCheapPrepend
      then rbind (vec_resize (m_buffer b) (size_add (m_writerIndex b) len)) (\<lambda>v.
           Inr (b\<lparr>m_buffer := v\<rparr>))
      else let readableByte = Buffer_readableBytes b in
           rbind (mem_read (m_buffer b) (m_readerIndex b) readableByte) (\<lambda>seg.
           rbind (mem_write (m_buffer b) kCheapPrepend seg) (\<lambda>v.
           Inr (b\<lparr>m_buffer := v, m_readerIndex := kCheapPrepend,
                  m_writerIndex := size_add kCheapPrepend readableByte\<rparr>))))"

definition Buffer_ensureWriteableBytes :: "buf \<Rightarrow> nat \<Rightarrow> buf res" where
  "Buffer_ensureWriteableBytes b len =
     (if Buffer_writableBytes b < len then Buffer_makeSpace b len else Inr b)"

definition Buffer_append :: "buf \<Rightarrow> byte list \<Rightarrow> nat \<Rightarrow> buf res" where
  "Buffer_append b data len =
     rbind (Buffer_ensureWriteableBytes b len) (\<lambda>b.
     rbind (mem_read data 0 len) (\<lambda>seg.
     rbind (mem_write (m_buffer b) (m_writerIndex b) seg) (\<lambda>v.
     Inr (b\<lparr>m_buffer := v, m_writerIndex := size_add (m_writerIndex b) len\<rparr>))))"

definition Buffer_extrabuf :: nat where "Buffer_extrabuf = 65536"

definition Buffer_iov :: "buf \<Rightarrow> nat list" where
  "Buffer_iov b =
     (if Buffer_writableBytes b < Buffer_extrabuf then [Buffer_writableBytes b, Buffer_extrabuf]
      else [Buffer_writableBytes b])"

definition Buffer_readFd ::
    "(int \<Rightarrow> nat list \<Rightarrow> int + byte list) \<Rightarrow> buf \<Rightarrow> int \<Rightarrow> (int \<times> int option \<times> buf) res" where
  "Buffer_readFd readv b fd =
     (let writableByte = Buffer_writableBytes b in
      case readv fd (Buffer_iov b) of
        Inl errno \<Rightarrow> Inr (- 1, Some errno, b)
      | Inr bytes \<Rightarrow>
          let n = length bytes in
          rbind (mem_write (m_buffer b) (m_writerIndex b) (take writableByte bytes)) (\<lambda>v.
          let b = b\<lparr>m_buffer := v\<rparr> in
          if n \<le> writableByte
          then Inr (int n, None, b\<lparr>m_writerIndex := size_add (m_writerIndex b) n\<rparr>)
          else
            let extrabuf = drop writableByte bytes @ replicate (Buffer_extrabuf - (n - writableByte)) 0 in
            rbind (Buffer_append (b\<lparr>m_writerIndex := length (m_buffer b)\<rparr>) extrabuf (n - writableByte)) (\<lambda>b.
            Inr (int n, None, b))))"

definition Buffer_writeFd ::
    "(int \<Rightarrow> byte list \<Rightarrow> int + nat) \<Rightarrow> buf \<Rightarrow> int \<Rightarrow> (int \<times> int option \<times> buf) res" where
  "Buffer_writeFd write b fd =
     rbind (mem_read (m_buffer b) (m_readerIndex b) (Buffer_readableBytes b)) (\<lambda>bytes.
     case write fd bytes of
       Inl errno \<Rightarrow> Inr (- 1, Some errno, b)
     | Inr n \<Rightarrow> Inr (int n, None, b))"

section \<open>Invariant and contents\<close>

definition Buffer_inv :: "buf \<Rightarrow> bool" where
  "Buffer_inv b \<longleftrightarrow> kCheapPrepend \<le> m_readerIndex b \<and> m_readerIndex b \<le> m_writerIndex b \<and>
     m_writerIndex b \<le> length (m_buffer b) \<and> length (m_buffer b) \<le> vec_max"

definition Buffer_contents :: "buf \<Rightarrow> byte list" where
  "Buffer_contents b = take (m_writerIndex b - m_readerIndex b) (drop (m_readerIndex b) (m_buffer b))"

lemma vec_max_size [simp]: "n \<le> vec_max \<Longrightarrow> n < size_max"
  by (simp add: vec_max_def size_max_def)

lemma Buffer_readable [simp]: "Buffer_inv b \<Longrightarrow> Buffer_readableBytes b = m_writerIndex b - m_readerIndex b"
  by (simp add: Buffer_readableBytes_def Buffer_inv_def)

lemma Buffer_writable [simp]: "Buffer_inv b \<Longrightarrow> Buffer_writableBytes b = length (m_buffer b) - m_writerIndex b"
  by (simp add: Buffer_writableBytes_def Buffer_inv_def)

lemma length_Buffer_contents: "Buffer_inv b \<Longrightarrow> length (Buffer_contents b) = m_writerIndex b - m_readerIndex b"
  by (auto simp: Buffer_contents_def Buffer_inv_def)

lemma Buffer_mem_read_contents:
  "Buffer_inv b \<Longrightarrow> n \<le> m_writerIndex b - m_readerIndex b \<Longrightarrow>
     mem_read (m_buffer b) (m_readerIndex b) n = Inr (take n (Buffer_contents b))"
  by (auto simp: mem_read_def Buffer_inv_def Buffer_contents_def min_def)

lemma Buffer_new_ok:
  assumes "initialSize \<le> vec_max - kCheapPrepend"
  shows "\<exists>b. Buffer_new initialSize = Inr b \<and> Buffer_inv b \<and> Buffer_contents b = [] \<and>
    Buffer_writableBytes b = initialSize"
proof -
  have "kCheapPrepend + initialSize \<le> vec_max" using assms by (simp add: vec_max_def kCheapPrepend_def)
  then show ?thesis
    by (auto simp: Buffer_new_def vec_resize_def Buffer_inv_def Buffer_contents_def Buffer_writableBytes_def)
qed

text \<open>
  An \<^verbatim>\<open>append\<close> succeeds when the vector may grow far enough or the bytes can be moved to the front;
  both ways of making space keep the contents.
\<close>

definition Buffer_fits :: "buf \<Rightarrow> nat \<Rightarrow> bool" where
  "Buffer_fits b len \<longleftrightarrow> m_writerIndex b + len \<le> vec_max \<or>
     (m_writerIndex b - m_readerIndex b) + kCheapPrepend + len \<le> length (m_buffer b)"

lemma Buffer_makeSpace_ok:
  assumes inv: "Buffer_inv b" and small: "Buffer_writableBytes b < len"
    and len: "len \<le> vec_max" and fit: "Buffer_fits b len"
  shows "\<exists>b'. Buffer_makeSpace b len = Inr b' \<and> Buffer_inv b' \<and>
    Buffer_contents b' = Buffer_contents b \<and> len \<le> length (m_buffer b') - m_writerIndex b'"
proof -
  let ?r = "m_readerIndex b" and ?w = "m_writerIndex b" and ?v = "m_buffer b"
  have i: "8 \<le> ?r" "?r \<le> ?w" "?w \<le> length ?v" "length ?v \<le> vec_max" and sm: "length ?v - ?w < len"
    using inv small by (auto simp: Buffer_inv_def kCheapPrepend_def)
  have m: "length ?v - ?w + ?r < size_max" "len + 8 < size_max"
    using i len by (auto simp: vec_max_def size_max_def)
  show ?thesis
  proof (cases "length ?v - ?w + ?r < len + 8")
    case True
    then have fit: "?w + len \<le> vec_max" using fit i by (auto simp: Buffer_fits_def kCheapPrepend_def)
    have "length ?v \<le> ?w + len" using sm by simp
    then have "Buffer_makeSpace b len = Inr (b\<lparr>m_buffer := ?v @ replicate (?w + len - length ?v) 0\<rparr>)"
      using True m inv fit
      by (simp add: Buffer_makeSpace_def Buffer_prependableBytes_def kCheapPrepend_def vec_resize_def)
    then show ?thesis
      using i fit \<open>length ?v \<le> ?w + len\<close>
      by (simp add: Buffer_inv_def Buffer_contents_def kCheapPrepend_def)
  next
    case False
    let ?v' = "blit ?v 8 (Buffer_contents b)"
    have l: "length (Buffer_contents b) = ?w - ?r" using inv by (rule length_Buffer_contents)
    have "mem_write ?v 8 (Buffer_contents b) = Inr ?v'" using i l by (simp add: mem_simps)
    moreover have "8 + (?w - ?r) < size_max" using i by (intro vec_max_size) simp
    ultimately have "Buffer_makeSpace b len =
        Inr (b\<lparr>m_buffer := ?v', m_readerIndex := 8, m_writerIndex := 8 + (?w - ?r)\<rparr>)"
      using False m inv Buffer_mem_read_contents [OF inv order_refl] l
      by (simp add: Buffer_makeSpace_def Buffer_prependableBytes_def kCheapPrepend_def)
    moreover have "take (?w - ?r) (drop 8 ?v') = Buffer_contents b"
      using i l by (simp add: blit_def min_def)
    moreover have "length ?v' = length ?v" using i l by simp
    ultimately show ?thesis
      using i l False by (simp add: Buffer_inv_def Buffer_contents_def kCheapPrepend_def) arith
  qed
qed

lemma Buffer_makeSpace_fails:
  assumes inv: "Buffer_inv b" and len: "len \<le> vec_max" and "\<not> Buffer_fits b len"
  shows "Buffer_makeSpace b len = Inl LengthError"
proof -
  have i: "8 \<le> m_readerIndex b" "m_readerIndex b \<le> m_writerIndex b"
    "m_writerIndex b \<le> length (m_buffer b)" "length (m_buffer b) \<le> vec_max"
    and f: "vec_max < m_writerIndex b + len"
      "length (m_buffer b) - m_writerIndex b + m_readerIndex b < len + 8"
    using assms by (auto simp: Buffer_inv_def Buffer_fits_def kCheapPrepend_def)
  then have "m_writerIndex b + len < size_max" "len + 8 < size_max"
    "length (m_buffer b) - m_writerIndex b + m_readerIndex b < size_max"
    using len by (auto simp: vec_max_def size_max_def)
  then show ?thesis
    using inv f by (simp add: Buffer_makeSpace_def Buffer_prependableBytes_def kCheapPrepend_def vec_resize_def)
qed

lemma Buffer_store_ok:
  assumes inv: "Buffer_inv b" and fit: "length ys \<le> length (m_buffer b) - m_writerIndex b"
    and b': "b' = b\<lparr>m_buffer := blit (m_buffer b) (m_writerIndex b) ys,
                    m_writerIndex := m_writerIndex b + length ys\<rparr>"
  shows "Buffer_inv b' \<and> Buffer_contents b' = Buffer_contents b @ ys"
proof
  have w: "m_readerIndex b \<le> m_writerIndex b" "m_writerIndex b + length ys \<le> length (m_buffer b)"
    using inv fit by (auto simp: Buffer_inv_def)
  then show "Buffer_inv b'" using inv by (simp add: Buffer_inv_def b')
  have "take (m_writerIndex b + length ys) (blit (m_buffer b) (m_writerIndex b) ys) =
      take (m_writerIndex b) (m_buffer b) @ ys"
    using w by (simp add: blit_def)
  then show "Buffer_contents b' = Buffer_contents b @ ys"
    using w by (simp add: Buffer_contents_def b' flip: drop_take)
qed

lemma Buffer_append_ok:
  assumes inv: "Buffer_inv b" and fit: "Buffer_fits b len" and lm: "len \<le> vec_max"
    and len: "len \<le> length data"
  shows "\<exists>b'. Buffer_append b data len = Inr b' \<and> Buffer_inv b' \<and>
    Buffer_contents b' = Buffer_contents b @ take len data"
proof -
  obtain b1 where b1: "Buffer_ensureWriteableBytes b len = Inr b1" "Buffer_inv b1"
    "Buffer_contents b1 = Buffer_contents b" "len \<le> length (m_buffer b1) - m_writerIndex b1"
    using Buffer_makeSpace_ok [OF inv _ lm fit] inv
    by (cases "Buffer_writableBytes b < len") (auto simp: Buffer_ensureWriteableBytes_def)
  let ?b = "b1\<lparr>m_buffer := blit (m_buffer b1) (m_writerIndex b1) (take len data),
               m_writerIndex := m_writerIndex b1 + len\<rparr>"
  have w: "m_writerIndex b1 + len \<le> length (m_buffer b1)" "m_writerIndex b1 + len < size_max"
    using b1(2,4) by (auto simp: Buffer_inv_def intro!: vec_max_size)
  then have "Buffer_append b data len = Inr ?b"
    using b1(1) len by (simp add: Buffer_append_def mem_simps min_absorb2)
  then show ?thesis
    using Buffer_store_ok [OF b1(2), of "take len data" ?b] b1(3,4) len by (simp add: min_absorb2)
qed

lemma Buffer_append_fails:
  assumes "Buffer_inv b" and "\<not> Buffer_fits b len" and "len \<le> vec_max"
  shows "Buffer_append b data len = Inl LengthError"
proof -
  have "Buffer_writableBytes b < len" using assms by (auto simp: Buffer_fits_def Buffer_inv_def)
  then show ?thesis
    using Buffer_makeSpace_fails [OF assms(1,3,2)]
    by (simp add: Buffer_append_def Buffer_ensureWriteableBytes_def)
qed

lemma Buffer_retrieve_ok:
  assumes "Buffer_inv b"
  shows "Buffer_inv (Buffer_retrieve b n) \<and> Buffer_contents (Buffer_retrieve b n) = drop n (Buffer_contents b)"
proof (cases "n < m_writerIndex b - m_readerIndex b")
  case True
  then have "m_readerIndex b + n < size_max" using assms by (intro vec_max_size) (auto simp: Buffer_inv_def)
  with True assms show ?thesis
    by (auto simp: Buffer_retrieve_def Buffer_inv_def Buffer_contents_def drop_take add.commute)
next
  case False
  then show ?thesis
    using assms length_Buffer_contents [OF assms]
    by (simp add: Buffer_retrieve_def Buffer_retrieveAll_def)
      (auto simp: Buffer_inv_def Buffer_contents_def)
qed

lemma Buffer_retrieveAsString_ok:
  assumes "Buffer_inv b" and "n \<le> Buffer_readableBytes b"
  shows "Buffer_retrieveAsString b n = Inr (take n (Buffer_contents b), Buffer_retrieve b n)"
  using assms by (simp add: Buffer_retrieveAsString_def Buffer_mem_read_contents)

section \<open>Reading descriptors\<close>

lemma Buffer_readFd_small:
  assumes inv: "Buffer_inv b" and r: "readv fd (Buffer_iov b) = Inr bytes"
    and n: "length bytes \<le> Buffer_writableBytes b"
  shows "\<exists>b'. Buffer_readFd readv b fd = Inr (int (length bytes), None, b') \<and> Buffer_inv b' \<and>
    Buffer_contents b' = Buffer_contents b @ bytes"
proof -
  have fit: "length bytes \<le> length (m_buffer b) - m_writerIndex b" using n inv by simp
  then have w: "m_writerIndex b + length bytes \<le> length (m_buffer b)" "m_writerIndex b + length bytes < size_max"
    using inv by (auto simp: Buffer_inv_def intro!: vec_max_size)
  then have "Buffer_readFd readv b fd = Inr (int (length bytes), None,
      b\<lparr>m_buffer := blit (m_buffer b) (m_writerIndex b) bytes, m_writerIndex := m_writerIndex b + length bytes\<rparr>)"
    using r n fit by (simp add: Buffer_readFd_def Let_def mem_simps)
  then show ?thesis using Buffer_store_ok [OF inv fit refl] by simp
qed

lemma Buffer_readFd_large:
  assumes inv: "Buffer_inv b" and r: "readv fd (Buffer_iov b) = Inr bytes"
    and n: "\<not> length bytes \<le> Buffer_writableBytes b" and doc: "length bytes \<le> sum_list (Buffer_iov b)"
    and grow: "length (m_buffer b) + Buffer_extrabuf \<le> vec_max"
  shows "\<exists>b'. Buffer_readFd readv b fd = Inr (int (length bytes), None, b') \<and> Buffer_inv b' \<and>
    Buffer_contents b' = Buffer_contents b @ bytes"
proof -
  define wr where "wr = Buffer_writableBytes b"
  define m where "m = length bytes - wr"
  define b1 where "b1 = b\<lparr>m_buffer := blit (m_buffer b) (m_writerIndex b) (take wr bytes),
    m_writerIndex := length (m_buffer b)\<rparr>"
  define extra where "extra = drop wr bytes @ replicate (Buffer_extrabuf - m) 0"
  have wr: "wr = length (m_buffer b) - m_writerIndex b" "m_writerIndex b \<le> length (m_buffer b)"
    using inv by (simp_all add: wr_def Buffer_inv_def)
  have l: "length (take wr bytes) = wr" using n by (simp add: wr_def)
  have "Buffer_iov b = [wr, Buffer_extrabuf]" using n doc by (auto simp: Buffer_iov_def wr_def split: if_splits)
  then have m: "m \<le> Buffer_extrabuf" "m \<le> length extra" using doc by (simp_all add: m_def extra_def)
  have b1: "Buffer_inv b1 \<and> Buffer_contents b1 = Buffer_contents b @ take wr bytes"
    using Buffer_store_ok [OF inv, of "take wr bytes" b1] l wr by (simp add: b1_def)
  have lb: "length (m_buffer b1) = length (m_buffer b)" using l wr by (simp add: b1_def)
  have mv: "m \<le> vec_max" "Buffer_fits b1 m"
    using m grow by (simp_all add: Buffer_fits_def b1_def)
  then obtain b' where b': "Buffer_append b1 extra m = Inr b'" "Buffer_inv b'"
    "Buffer_contents b' = Buffer_contents b1 @ take m extra"
    using Buffer_append_ok [of b1 m extra] b1 m(2) by blast
  have "take m extra = drop wr bytes" by (simp add: extra_def m_def)
  moreover have "mem_write (m_buffer b) (m_writerIndex b) (take wr bytes) =
      Inr (blit (m_buffer b) (m_writerIndex b) (take wr bytes))"
    using wr l by (simp add: mem_simps)
  moreover have "length (blit (m_buffer b) (m_writerIndex b) (take wr bytes)) = length (m_buffer b)"
    using lb by (simp add: b1_def)
  ultimately show ?thesis
    using b' b1 r n
    by (simp add: Buffer_readFd_def Let_def flip: wr_def m_def) (simp flip: extra_def b1_def)
qed

section \<open>The queue contract\<close>

text \<open>
  A push is an \<^verbatim>\<open>append\<close> of all bytes; a pop is \<^verbatim>\<open>retrieveAsString\<close> of at most the readable bytes.
\<close>

definition Buffer_push :: "buf \<Rightarrow> byte list \<Rightarrow> (nat \<times> buf) res" where
  "Buffer_push b ys = rbind (Buffer_append b ys (length ys)) (\<lambda>b. Inr (length ys, b))"

definition Buffer_pop :: "buf \<Rightarrow> nat \<Rightarrow> (byte list \<times> buf) res" where
  "Buffer_pop b n = Buffer_retrieveAsString b (min n (Buffer_readableBytes b))"

interpretation bf: byte_fifo Buffer_inv Buffer_contents "\<lambda>_. vec_max" vec_max "{LengthError}" Buffer_push Buffer_pop
proof unfold_locales
  fix b ys n b'
  assume inv: "Buffer_inv b" and len: "0 < length ys" "length ys \<le> vec_max"
    and ret: "Buffer_push b ys = Inr (n, b')"
  have "Buffer_fits b (length ys)"
  proof (rule ccontr)
    assume "\<not> Buffer_fits b (length ys)"
    then have "Buffer_push b ys = Inl LengthError" using inv len by (simp add: Buffer_push_def Buffer_append_fails)
    with ret show False by simp
  qed
  then show "n = min (length ys) vec_max \<and> Buffer_inv b' \<and> Buffer_contents b' = Buffer_contents b @ take n ys"
    using Buffer_append_ok [OF inv, of "length ys" ys] ret len
    by (auto simp: Buffer_push_def rbind_eq_Inr)
next
  fix b n out b'
  assume inv: "Buffer_inv b" and ret: "Buffer_pop b n = Inr (out, b')"
  let ?m = "min n (Buffer_readableBytes b)"
  have "take ?m (Buffer_contents b) = take n (Buffer_contents b)"
    "drop ?m (Buffer_contents b) = drop n (Buffer_contents b)"
    using length_Buffer_contents [OF inv] inv by (simp_all add: min_def)
  then show "out = take n (Buffer_contents b) \<and> Buffer_inv b' \<and> Buffer_contents b' = drop n (Buffer_contents b)"
    using ret Buffer_retrieveAsString_ok [OF inv, of ?m] Buffer_retrieve_ok [OF inv, of ?m]
    by (auto simp: Buffer_pop_def)
next
  fix b ys e
  assume "Buffer_inv b" "0 < length ys" "length ys \<le> vec_max" "Buffer_push b ys = Inl e"
  then show "e \<in> {LengthError}"
    using Buffer_append_ok [of b "length ys" ys] Buffer_append_fails [of b "length ys" ys]
    by (cases "Buffer_fits b (length ys)") (auto simp: Buffer_push_def)
next
  fix b n e
  assume "Buffer_inv b" "Buffer_pop b n = Inl e"
  then show "e \<in> {LengthError}"
    using Buffer_retrieveAsString_ok [of b "min n (Buffer_readableBytes b)"] by (simp add: Buffer_pop_def)
qed

section \<open>Properties\<close>

definition buffer_sample :: buf where
  "buffer_sample = \<lparr>m_buffer = replicate 8 0 @ [1, 2, 3, 4], m_readerIndex = 9, m_writerIndex = 11\<rparr>"

lemma buffer_sample_facts:
  "Buffer_inv buffer_sample" "Buffer_contents buffer_sample = [2, 3]" "Buffer_writableBytes buffer_sample = 1"
  "m_writerIndex buffer_sample = 11" "Buffer_iov buffer_sample = [1, 65536]"
  by (simp_all add: buffer_sample_def Buffer_inv_def Buffer_contents_def kCheapPrepend_def vec_max_def
      Buffer_writableBytes_def size_sub_def size_max_def Buffer_iov_def Buffer_extrabuf_def)

text \<open>On a well-formed \<^verbatim>\<open>Buffer\<close>, \<^verbatim>\<open>append\<close> of \<open>len\<close> bytes either appends exactly them to the
  readable bytes and keeps the invariant (growing the vector or moving the bytes to the front as
  needed), or, when neither is possible within the vector's maximal size, throws
  \<^verbatim>\<open>std::length_error\<close>.\<close>

lemma Buffer_append_spec:
  assumes "Buffer_inv b" and "len \<le> length data" and "len \<le> vec_max"
  shows "if Buffer_fits b len
    then \<exists>b'. Buffer_append b data len = Inr b' \<and> Buffer_inv b' \<and>
      Buffer_contents b' = Buffer_contents b @ take len data
    else Buffer_append b data len = Inl LengthError"
  using assms Buffer_append_ok Buffer_append_fails by auto



text \<open>C37: \<^verbatim>\<open>readFd\<close> appends to the readable bytes exactly what \<^verbatim>\<open>readv\<close> delivered, whether it fits
  into the writable part or spills into \<^verbatim>\<open>extrabuf\<close>, and returns its length; a failing \<^verbatim>\<open>readv\<close>
  returns -1, saves \<^verbatim>\<open>errno\<close> and changes nothing. (\<^verbatim>\<open>readv\<close> delivers at most the sum of the segment
  lengths; the vector must be allowed to grow by \<^verbatim>\<open>extrabuf\<close>.)\<close>

theorem Buffer_readFd_appends:
  assumes inv: "Buffer_inv b" and grow: "length (m_buffer b) + Buffer_extrabuf \<le> vec_max"
    and doc: "\<And>bytes. readv fd (Buffer_iov b) = Inr bytes \<Longrightarrow> length bytes \<le> sum_list (Buffer_iov b)"
  shows "case readv fd (Buffer_iov b) of
      Inl e \<Rightarrow> Buffer_readFd readv b fd = Inr (- 1, Some e, b)
    | Inr bytes \<Rightarrow> \<exists>b'. Buffer_readFd readv b fd = Inr (int (length bytes), None, b') \<and>
        Buffer_inv b' \<and> Buffer_contents b' = Buffer_contents b @ bytes"
proof (cases "readv fd (Buffer_iov b)")
  case (Inl e)
  then show ?thesis by (simp add: Buffer_readFd_def Let_def)
next
  case (Inr bytes)
  show ?thesis
    using Buffer_readFd_small [OF inv, of readv fd bytes, OF Inr]
      Buffer_readFd_large [OF inv, of readv fd bytes, OF Inr _ doc [OF Inr] grow]
    by (cases "length bytes \<le> Buffer_writableBytes b") (simp_all add: Inr)
qed

theorem Buffer_readFd_appends_witness:
  "\<exists>b'. Buffer_readFd (\<lambda>_ _. Inr [7, 8, 9]) buffer_sample 5 = Inr (3, None, b') \<and>
     Buffer_contents b' = [2, 3, 7, 8, 9]"
  using Buffer_readFd_appends [of buffer_sample "\<lambda>_ _. Inr [7, 8, 9]" 5]
  by (auto simp: buffer_sample_facts) (auto simp: buffer_sample_def Buffer_extrabuf_def vec_max_def)

text \<open>\<^verbatim>\<open>append\<close> followed by \<^verbatim>\<open>retrieveAllAsString\<close> gives back the bytes held before and the bytes
  appended and leaves the buffer empty, with both indices at \<^verbatim>\<open>kCheapPrepend\<close>.\<close>

lemma Buffer_append_retrieve_all:
  assumes "Buffer_inv b" and "Buffer_fits b (length ys)" and "length ys \<le> vec_max"
  shows "\<exists>b'. rbind (Buffer_append b ys (length ys)) Buffer_retrieveAllAsString =
      Inr (Buffer_contents b @ ys, b') \<and>
    Buffer_contents b' = [] \<and> m_readerIndex b' = kCheapPrepend \<and> m_writerIndex b' = kCheapPrepend"
proof -
  obtain b1 where b1: "Buffer_append b ys (length ys) = Inr b1" "Buffer_inv b1"
    "Buffer_contents b1 = Buffer_contents b @ ys"
    using Buffer_append_ok [OF assms order_refl] by auto
  have "Buffer_retrieveAllAsString b1 = Inr (Buffer_contents b1, Buffer_retrieve b1 (Buffer_readableBytes b1))"
    using Buffer_retrieveAsString_ok [OF b1(2) order_refl] length_Buffer_contents [OF b1(2)] b1(2)
    by (simp add: Buffer_retrieveAllAsString_def)
  then show ?thesis
    using b1 by (simp add: Buffer_retrieve_def Buffer_retrieveAll_def Buffer_contents_def)
qed

end
