(* ===== verification/Decimal.thy ===== *)
theory Decimal
  imports Prelude
begin

text \<open>
  Decimal numbers as \<^verbatim>\<open>snprintf\<close> and \<^verbatim>\<open>std::to_string\<close> print them, and the bounded \<^verbatim>\<open>snprintf\<close>
  itself. Reading the digits back shows that printing loses nothing; the readers are used in
  proofs only.
\<close>

definition digit :: "nat \<Rightarrow> char" where
  "digit d = char_of (48 + d)"

fun dec_nat :: "nat \<Rightarrow> string" where
  "dec_nat n = (if n < 10 then [digit n] else dec_nat (n div 10) @ [digit (n mod 10)])"

declare dec_nat.simps [simp del]

definition dec_int :: "int \<Rightarrow> string" where
  "dec_int i = (if i < 0 then CHR ''-'' # dec_nat (nat (- i)) else dec_nat (nat i))"

text \<open>\<^verbatim>\<open>snprintf(buf, size, ...)\<close> stores at most \<open>size - 1\<close> characters and a terminator.\<close>

definition snprintf :: "nat \<Rightarrow> string \<Rightarrow> string" where
  "snprintf sz s = take (sz - 1) s"

definition undigit :: "char \<Rightarrow> nat" where
  "undigit c = of_char c - 48"

definition parse_dec :: "string \<Rightarrow> nat" where
  "parse_dec s = foldl (\<lambda>a c. 10 * a + undigit c) 0 s"

lemma undigit_digit [simp]: "d < 10 \<Longrightarrow> undigit (digit d) = d"
  by (simp add: undigit_def digit_def)

lemma of_char_digit: "d < 10 \<Longrightarrow> of_char (digit d) = 48 + d"
  by (simp add: digit_def)

lemma parse_dec_nat [simp]: "parse_dec (dec_nat n) = n"
proof (induction n rule: dec_nat.induct)
  case (1 n)
  then show ?case
    by (subst dec_nat.simps) (simp add: parse_dec_def)
qed

lemma dec_nat_inject [simp]: "dec_nat m = dec_nat n \<longleftrightarrow> m = n"
  by (metis parse_dec_nat)

lemma set_dec_nat: "c \<in> set (dec_nat n) \<Longrightarrow> of_char c \<in> {48 ..< 58 :: nat}"
proof (induction n rule: dec_nat.induct)
  case (1 n)
  show ?case
  proof (cases "n < 10")
    case True
    then have "dec_nat n = [digit n]" by (subst dec_nat.simps) simp
    with "1.prems" True show ?thesis by (simp add: of_char_digit)
  next
    case False
    then have "dec_nat n = dec_nat (n div 10) @ [digit (n mod 10)]" by (subst dec_nat.simps) simp
    with "1.prems" consider "c \<in> set (dec_nat (n div 10))" | "c = digit (n mod 10)" by auto
    then show ?thesis using "1.IH" [OF False] by cases (simp_all add: of_char_digit)
  qed
qed

lemma dec_nat_nonempty [simp]: "dec_nat n \<noteq> []"
  by (subst dec_nat.simps) simp

lemma not_digit_notin: "\<not> (48 \<le> (of_char c :: nat) \<and> (of_char c :: nat) < 58) \<Longrightarrow> c \<notin> set (dec_nat n)"
  using set_dec_nat by fastforce

lemma dec_int_inject [simp]: "dec_int i = dec_int j \<longleftrightarrow> i = j"
proof -
  have "CHR ''-'' \<notin> set (dec_nat n)" for n by (rule not_digit_notin) simp
  then have "CHR ''-'' # s \<noteq> dec_nat n" "dec_nat n \<noteq> CHR ''-'' # s" for s n
    by (metis list.set_intros(1))+
  then show ?thesis by (auto simp: dec_int_def eq_nat_nat_iff)
qed

lemma length_dec_nat: "n < 10 ^ k \<Longrightarrow> 0 < k \<Longrightarrow> length (dec_nat n) \<le> k"
proof (induction n arbitrary: k rule: dec_nat.induct)
  case (1 n)
  show ?case
  proof (cases "n < 10")
    case True
    then have "dec_nat n = [digit n]" by (subst dec_nat.simps) simp
    with "1.prems" show ?thesis by simp
  next
    case False
    with "1.prems" obtain j where k: "k = Suc j" "0 < j" by (cases k; cases "k - 1") auto
    then have "n div 10 < 10 ^ j" using "1.prems" by (simp add: less_mult_imp_div_less mult.commute)
    then have "length (dec_nat (n div 10)) \<le> j" using "1.IH" [OF False] k by simp
    moreover have "dec_nat n = dec_nat (n div 10) @ [digit (n mod 10)]" using False by (subst dec_nat.simps) simp
    ultimately show ?thesis using k by simp
  qed
qed

text \<open>Two numbers separated by a character that is no digit can be told apart.\<close>

lemma sep_inject:
  assumes "c \<notin> set xs" and "c \<notin> set us"
  shows "xs @ c # ys = us @ c # vs \<longleftrightarrow> xs = us \<and> ys = vs"
proof
  assume e: "xs @ c # ys = us @ c # vs"
  have "takeWhile (\<lambda>x. x \<noteq> c) (zs @ c # ws) = zs" if "c \<notin> set zs" for zs ws
    using that by (induction zs) auto
  from this [OF assms(1), of ys] this [OF assms(2), of vs] e show "xs = us \<and> ys = vs" by auto
qed simp

end
