(* ===== verification/Timestamp.thy ===== *)
theory Timestamp
  imports Decimal
begin

text \<open>
  \<^verbatim>\<open>Timestamp\<close> of \<^verbatim>\<open>src/mymuduo/Timestamp.h\<close> and \<^verbatim>\<open>Timestamp.cpp\<close>: microseconds since the epoch in a
  signed 64-bit integer (\<^typ>\<open>int\<close>, with overflow as an error). Intervals are \<^verbatim>\<open>double\<close>s: a finite
  one is \<open>m * 2 ^ e\<close> with a mantissa of at most 53 bits, and the one operation the code does with
  them, multiplication by \<^verbatim>\<open>kMicroSecondsPerSecond\<close> and conversion to \<^verbatim>\<open>int64_t\<close>, rounds to nearest,
  ties to even, and then truncates. (Results too small for a normal double truncate to zero and
  results too large for a double are out of range of the conversion, so the exponent needs no
  bounds.)
\<close>

section \<open>Doubles\<close>

datatype double = Finite int int | Infinite bool | NaN

definition double_ok :: "double \<Rightarrow> bool" where
  "double_ok d = (case d of Finite m e \<Rightarrow> \<bar>m\<bar> < 2 ^ 53 | _ \<Rightarrow> True)"

definition double_pos :: "double \<Rightarrow> bool" where
  "double_pos d = (case d of Finite m e \<Rightarrow> 0 < m | Infinite neg \<Rightarrow> \<not> neg | NaN \<Rightarrow> False)"

fun nbits :: "nat \<Rightarrow> nat" where
  "nbits n = (if n = 0 then 0 else Suc (nbits (n div 2)))"

declare nbits.simps [simp del]

definition round_even :: "nat \<Rightarrow> nat \<Rightarrow> nat" where
  "round_even n k =
     (let q = n div 2 ^ k; r = n mod 2 ^ k
      in if 2 ^ k < 2 * r \<or> (2 ^ k = 2 * r \<and> odd q) then q + 1 else q)"

definition double_round :: "int \<Rightarrow> int \<Rightarrow> double" where
  "double_round m e =
     (let k = nbits (nat \<bar>m\<bar>) - 53
      in if k = 0 then Finite m e else Finite (sgn m * int (round_even (nat \<bar>m\<bar>) k)) (e + int k))"

definition double_mult_int :: "double \<Rightarrow> int \<Rightarrow> double" where
  "double_mult_int d n =
     (case d of Finite m e \<Rightarrow> double_round (m * n) e
      | Infinite neg \<Rightarrow> if n = 0 then NaN else Infinite (neg \<noteq> (n < 0))
      | NaN \<Rightarrow> NaN)"

definition double_trunc :: "int \<Rightarrow> int \<Rightarrow> int" where
  "double_trunc m e = (if 0 \<le> e then m * 2 ^ nat e else cdiv m (2 ^ nat (- e)))"

definition double_to_int64 :: "double \<Rightarrow> int res" where
  "double_to_int64 d =
     (case d of Finite m e \<Rightarrow> if int64_ok (double_trunc m e) then Inr (double_trunc m e) else Inl FloatCast
      | _ \<Rightarrow> Inl FloatCast)"

section \<open>Timestamps\<close>

type_synonym timestamp = int

definition kMicroSecondsPerSecond :: int where
  "kMicroSecondsPerSecond = 1000 * 1000"

definition Timestamp_new :: timestamp where
  [simp]: "Timestamp_new = 0"

definition Timestamp_of :: "int \<Rightarrow> timestamp" where
  "Timestamp_of microSecondsSinceEpochArg = microSecondsSinceEpochArg"

definition Timestamp_microSecondsSinceEpoch :: "timestamp \<Rightarrow> int" where
  "Timestamp_microSecondsSinceEpoch t = t"

definition Timestamp_swap :: "timestamp \<times> timestamp \<Rightarrow> timestamp \<times> timestamp" where
  "Timestamp_swap = (\<lambda>(this, that). (that, this))"

definition Timestamp_less :: "timestamp \<Rightarrow> timestamp \<Rightarrow> bool" where
  "Timestamp_less lhs rhs \<longleftrightarrow> Timestamp_microSecondsSinceEpoch lhs < Timestamp_microSecondsSinceEpoch rhs"

definition Timestamp_eq :: "timestamp \<Rightarrow> timestamp \<Rightarrow> bool" where
  "Timestamp_eq lhs rhs \<longleftrightarrow> Timestamp_microSecondsSinceEpoch lhs = Timestamp_microSecondsSinceEpoch rhs"

definition Timestamp_invalid :: timestamp where
  "Timestamp_invalid = Timestamp_new"

definition Timestamp_valid :: "timestamp \<Rightarrow> bool" where
  "Timestamp_valid t \<longleftrightarrow> 0 < t"

definition Timestamp_secondsSinceEpoch :: "timestamp \<Rightarrow> int" where
  "Timestamp_secondsSinceEpoch t = cdiv t kMicroSecondsPerSecond"

text \<open>\<open>tv\<close> is what \<^verbatim>\<open>gettimeofday\<close> stored: seconds and microseconds.\<close>

definition Timestamp_now :: "int \<times> int \<Rightarrow> timestamp res" where
  "Timestamp_now tv =
     rbind (to_int64 (fst tv * kMicroSecondsPerSecond)) (\<lambda>us. to_int64 (us + snd tv))"

definition Timestamp_toString :: "timestamp \<Rightarrow> string" where
  "Timestamp_toString t =
     snprintf 32 (dec_int (cdiv t kMicroSecondsPerSecond) @ ''.'' @ dec_int (cmod t kMicroSecondsPerSecond))"

definition addTime :: "timestamp \<Rightarrow> double \<Rightarrow> timestamp res" where
  "addTime t seconds =
     rbind (double_to_int64 (double_mult_int seconds kMicroSecondsPerSecond)) (\<lambda>delta.
     to_int64 (t + delta))"

section \<open>Facts about intervals\<close>

lemma nbits_0 [simp]: "nbits 0 = 0"
  by (subst nbits.simps) simp

lemma nbits_bounds: "0 < n \<Longrightarrow> 2 ^ (nbits n - 1) \<le> n \<and> n < 2 ^ nbits n \<and> 0 < nbits n"
proof (induction n rule: nbits.induct)
  case (1 n)
  have c: "nbits n = Suc (nbits (n div 2))" using "1.prems" by (subst nbits.simps) simp
  show ?case
  proof (cases "n div 2 = 0")
    case True
    then have "n = 1" using "1.prems" by linarith
    then show ?thesis using c by simp
  next
    case False
    then obtain m where m: "nbits (n div 2) = Suc m" and b: "2 ^ m \<le> n div 2" "n div 2 < 2 ^ Suc m"
      using "1.IH" "1.prems" by (cases "nbits (n div 2)") auto
    have "2 * 2 ^ m \<le> n" "n < 2 * 2 ^ Suc m" using b by linarith+
    then show ?thesis using c m by simp
  qed
qed

lemma nbits_le: "n < 2 ^ k \<Longrightarrow> nbits n \<le> k"
proof (cases "n = 0")
  case False
  assume "n < 2 ^ k"
  with False nbits_bounds [of n] have "(2::nat) ^ (nbits n - 1) < 2 ^ k" by linarith
  then have "nbits n - 1 < k" by (rule power_less_imp_less_exp [rotated]) simp
  then show ?thesis by simp
qed simp

lemma double_round_exact: "\<bar>m\<bar> < 2 ^ 53 \<Longrightarrow> double_round m e = Finite m e"
  using nbits_le [of "nat \<bar>m\<bar>" 53] by (simp add: double_round_def nat_less_iff)

lemma double_trunc_nonneg: "0 \<le> m \<Longrightarrow> 0 \<le> double_trunc m e"
  by (simp add: double_trunc_def pos_imp_zdiv_nonneg_iff)

lemma double_round_nonneg: "0 \<le> m \<Longrightarrow> double_round m e = Finite m' e' \<Longrightarrow> 0 \<le> m'"
  by (auto simp: double_round_def Let_def sgn_if split: if_splits)

text \<open>A positive interval never moves a time backwards.\<close>

lemma addTime_mono:
  assumes "double_pos d" and "addTime t d = Inr t'"
  shows "t \<le> t'"
proof -
  obtain m e where d: "d = Finite m e" "0 < m"
    using assms by (cases d) (auto simp: double_pos_def addTime_def double_mult_int_def
        double_to_int64_def kMicroSecondsPerSecond_def)
  obtain m' e' where r: "double_round (m * kMicroSecondsPerSecond) e = Finite m' e'"
    by (cases "double_round (m * kMicroSecondsPerSecond) e") (auto simp: double_round_def Let_def split: if_splits)
  have "0 \<le> m'" using d r by (auto intro!: double_round_nonneg [OF _ r] simp: kMicroSecondsPerSecond_def)
  then have "0 \<le> double_trunc m' e'" by (rule double_trunc_nonneg)
  then show ?thesis
    using assms(2) d r
    by (auto simp: addTime_def double_mult_int_def double_to_int64_def rbind_eq_Inr to_int64_def
        split: if_splits)
qed

section \<open>Properties\<close>

text \<open>C38: Adding an interval of \<open>m * 2 ^ e\<close> seconds whose mantissa has at most 33 bits is exact up to
  truncation to whole microseconds, and fails only when the result or the interval leaves the
  64-bit range.\<close>

theorem addTime_exact:
  assumes "\<bar>m\<bar> < 2 ^ 33"
  shows "addTime t (Finite m e) =
    (let delta = double_trunc (m * 1000000) e in
     if \<not> int64_ok delta then Inl FloatCast
     else if int64_ok (t + delta) then Inr (t + delta) else Inl SignedOverflow)"
proof -
  have "\<bar>m * 1000000\<bar> < 2 ^ 53" using assms by (simp add: abs_mult)
  then show ?thesis
    by (simp add: addTime_def double_mult_int_def kMicroSecondsPerSecond_def double_round_exact
        double_to_int64_def to_int64_def Let_def)
qed

theorem addTime_exact_witness: "addTime 7 (Finite 3 (- 1)) = Inr 1500007"
  using addTime_exact [of 3 7 "- 1"] by (simp add: double_trunc_def int64_ok_def Let_def)

text \<open>\<^verbatim>\<open>Timestamp::toString\<close> never truncates a non-negative 64-bit timestamp in its 32-byte buffer,
  and distinct timestamps print differently.\<close>

lemma Timestamp_toString_inject:
  assumes "0 \<le> s" and "int64_ok s" and "0 \<le> t" and "int64_ok t"
  shows "(Timestamp_toString s = Timestamp_toString t \<longleftrightarrow> s = t) \<and>
    Timestamp_toString t = dec_int (t div 1000000) @ ''.'' @ dec_int (t mod 1000000)"
proof -
  have S: "Timestamp_toString x = dec_int (x div 1000000) @ ''.'' @ dec_int (x mod 1000000)"
    if x: "0 \<le> x" "int64_ok x" for x
  proof -
    have "x div 1000000 < 10 ^ 13" "x mod 1000000 < 10 ^ 6" using x by (auto simp: int64_ok_def)
    then have "length (dec_nat (nat (x div 1000000))) \<le> 13" "length (dec_nat (nat (x mod 1000000))) \<le> 6"
      using x by (auto intro!: length_dec_nat simp: nat_less_iff pos_imp_zdiv_nonneg_iff)
    moreover have "\<not> x div 1000000 < 0" "\<not> x mod 1000000 < 0" using x by (auto simp: not_less)
    ultimately show ?thesis
      using x by (simp add: Timestamp_toString_def snprintf_def kMicroSecondsPerSecond_def dec_int_def) arith
  qed
  have "CHR ''.'' \<notin> set (dec_int x)" if "0 \<le> x" for x
    using that not_digit_notin [of "CHR ''.''"] by (simp add: dec_int_def)
  then have "Timestamp_toString s = Timestamp_toString t \<longleftrightarrow>
      s div 1000000 = t div 1000000 \<and> s mod 1000000 = t mod 1000000"
    using assms by (simp add: S sep_inject pos_imp_zdiv_nonneg_iff)
  then show ?thesis using S assms by (metis div_mult_mod_eq)
qed

end
