(* ===== verification/Timer_Queue.thy ===== *)
theory Timer_Queue
  imports Timestamp "HOL-Library.Product_Lexorder" "HOL-Library.Multiset"
begin

text \<open>
  Timers: \<^verbatim>\<open>Timer\<close>, \<^verbatim>\<open>TimerId\<close> and \<^verbatim>\<open>TimerQueue\<close> of \<^verbatim>\<open>src/mymuduo\<close>. \<^verbatim>\<open>Timer\<close> objects live in a heap
  from addresses to records, so that a dangling pointer is visible (\<open>UseAfterFree\<close>). The two
  \<^verbatim>\<open>std::set\<close>s are strictly sorted lists, ordered as \<^verbatim>\<open>std::pair\<close>'s \<^verbatim>\<open><\<close> orders them. Asserts are
  enabled (the Makefile does not define \<^verbatim>\<open>NDEBUG\<close>).
  Arguments of the operations: \<open>alloc\<close> is the allocator (\<open>None\<close>: \<^verbatim>\<open>std::bad_alloc\<close>); \<open>clk i\<close> is the
  \<open>i\<close>-th reading of the clock; \<open>cbs c\<close> is what callback \<open>c\<close> does to the queue, a list of actions
  each of which may depend on the state it finds. \<open>armed\<close> records the last \<^verbatim>\<open>timerfd_settime\<close>
  (clock reading, relative time), \<open>runlog\<close> the callbacks in the order they ran.
\<close>

section \<open>State\<close>

definition UINTPTR_MAX :: addr where
  "UINTPTR_MAX = 2 ^ 64 - 1"

record timer =
  t_callback :: nat
  expiration :: timestamp
  interval :: double
  repeat :: bool
  sequence :: int

datatype timer_functor = AddTimerInLoop addr | CancelInLoop addr int

record timerqueue =
  heap :: "addr \<Rightarrow> timer option"
  numCreated :: u32
  timers :: "(timestamp \<times> addr) list"
  activeTimers :: "(addr \<times> int) list"
  callingExpiredTimers :: bool
  cancelingTimers :: "(addr \<times> int) list"
  inLoopThread :: bool
  loopQueue :: "timer_functor list"
  clockReads :: nat
  armed :: "(timestamp \<times> int \<times> int) option"
  runlog :: "nat list"

datatype timer_action = ActAdd nat timestamp double | ActCancel addr int

type_synonym allocator = "(addr \<Rightarrow> timer option) \<Rightarrow> addr option"
type_synonym callbacks = "nat \<Rightarrow> (timerqueue \<Rightarrow> timer_action) list"

definition TimerQueue_new :: timerqueue where
  "TimerQueue_new = \<lparr>heap = (\<lambda>_. None), numCreated = 0, timers = [], activeTimers = [],
     callingExpiredTimers = False, cancelingTimers = [], inLoopThread = True, loopQueue = [],
     clockReads = 0, armed = None, runlog = []\<rparr>"

section \<open>Timers\<close>

definition Timer_new :: "allocator \<Rightarrow> nat \<Rightarrow> timestamp \<Rightarrow> double \<Rightarrow> timerqueue \<Rightarrow> (addr \<times> timerqueue) res" where
  "Timer_new alloc cb when ivl q =
     (case alloc (heap q) of
        None \<Rightarrow> Inl BadAlloc
      | Some a \<Rightarrow>
          Inr (a, q\<lparr>heap := (heap q)(a \<mapsto> \<lparr>t_callback = cb, expiration = when, interval = ivl,
                                         repeat = double_pos ivl, sequence = sint (numCreated q)\<rparr>),
                    numCreated := numCreated q + 1\<rparr>))"

definition Timer_at :: "timerqueue \<Rightarrow> addr \<Rightarrow> timer res" where
  "Timer_at q a = (case heap q a of None \<Rightarrow> Inl UseAfterFree | Some t \<Rightarrow> Inr t)"

definition Timer_delete :: "addr \<Rightarrow> timerqueue \<Rightarrow> timerqueue res" where
  "Timer_delete a q =
     (case heap q a of None \<Rightarrow> Inl UseAfterFree | Some _ \<Rightarrow> Inr (q\<lparr>heap := (heap q)(a := None)\<rparr>))"

definition Timer_restart :: "timer \<Rightarrow> timestamp \<Rightarrow> timer res" where
  "Timer_restart t now =
     (if repeat t then rbind (addTime now (interval t)) (\<lambda>w. Inr (t\<lparr>expiration := w\<rparr>))
      else Inr (t\<lparr>expiration := Timestamp_invalid\<rparr>))"

section \<open>The timer descriptor\<close>

definition clock_now :: "(nat \<Rightarrow> timestamp) \<Rightarrow> timerqueue \<Rightarrow> timestamp \<times> timerqueue" where
  "clock_now clk q = (clk (clockReads q), q\<lparr>clockReads := Suc (clockReads q)\<rparr>)"

definition howMuchTimeFromNow :: "timestamp \<Rightarrow> timestamp \<Rightarrow> (int \<times> int) res" where
  "howMuchTimeFromNow when now =
     rbind (to_int64 (when - now)) (\<lambda>microseconds.
     let microseconds = (if microseconds < 100 then 100 else microseconds) in
     Inr (cdiv microseconds kMicroSecondsPerSecond, cmod microseconds kMicroSecondsPerSecond * 1000))"

definition resetTimerfd :: "(nat \<Rightarrow> timestamp) \<Rightarrow> timestamp \<Rightarrow> timerqueue \<Rightarrow> timerqueue res" where
  "resetTimerfd clk when q =
     (let (now, q) = clock_now clk q in
      rbind (howMuchTimeFromNow when now) (\<lambda>ts. Inr (q\<lparr>armed := Some (now, ts)\<rparr>)))"

text \<open>Reading the expirations of the one-shot descriptor leaves it disarmed.\<close>

definition readTimerfd :: "timerqueue \<Rightarrow> timerqueue" where
  "readTimerfd q = q\<lparr>armed := None\<rparr>"

section \<open>The queue\<close>

definition sizes_agree :: "timerqueue \<Rightarrow> bool" where
  "sizes_agree q \<longleftrightarrow> length (timers q) = length (activeTimers q)"

definition TimerQueue_insert :: "addr \<Rightarrow> timerqueue \<Rightarrow> (bool \<times> timerqueue) res" where
  "TimerQueue_insert a q =
     rbind (check LogFatal (inLoopThread q)) (\<lambda>_.
     rbind (check AssertFail (sizes_agree q)) (\<lambda>_.
     rbind (Timer_at q a) (\<lambda>t.
     let when = expiration t;
         earliestChanged = (case timers q of [] \<Rightarrow> True | (w, _) # _ \<Rightarrow> when < w) in
     rbind (check AssertFail ((when, a) \<notin> set (timers q))) (\<lambda>_.
     rbind (check AssertFail ((a, sequence t) \<notin> set (activeTimers q))) (\<lambda>_.
     let q = q\<lparr>timers := insort (when, a) (timers q),
               activeTimers := insort (a, sequence t) (activeTimers q)\<rparr> in
     rbind (check AssertFail (sizes_agree q)) (\<lambda>_.
     Inr (earliestChanged, q)))))))"

definition TimerQueue_addTimerInLoop :: "(nat \<Rightarrow> timestamp) \<Rightarrow> addr \<Rightarrow> timerqueue \<Rightarrow> timerqueue res" where
  "TimerQueue_addTimerInLoop clk a q =
     rbind (check LogFatal (inLoopThread q)) (\<lambda>_.
     rbind (TimerQueue_insert a q) (\<lambda>(earliestChanged, q).
     if earliestChanged then rbind (Timer_at q a) (\<lambda>t. resetTimerfd clk (expiration t) q)
     else Inr q))"

definition TimerQueue_cancelInLoop :: "addr \<Rightarrow> int \<Rightarrow> timerqueue \<Rightarrow> timerqueue res" where
  "TimerQueue_cancelInLoop a sq q =
     rbind (check LogFatal (inLoopThread q)) (\<lambda>_.
     rbind (check AssertFail (sizes_agree q)) (\<lambda>_.
     rbind (if (a, sq) \<in> set (activeTimers q)
            then rbind (Timer_at q a) (\<lambda>t.
                 rbind (check AssertFail ((expiration t, a) \<in> set (timers q))) (\<lambda>_.
                 rbind (Timer_delete a (q\<lparr>timers := remove1 (expiration t, a) (timers q)\<rparr>)) (\<lambda>q.
                 Inr (q\<lparr>activeTimers := remove1 (a, sq) (activeTimers q)\<rparr>))))
            else if callingExpiredTimers q
            then Inr (q\<lparr>cancelingTimers :=
                   (if (a, sq) \<in> set (cancelingTimers q) then cancelingTimers q
                    else insort (a, sq) (cancelingTimers q))\<rparr>)
            else Inr q) (\<lambda>q.
     rbind (check AssertFail (sizes_agree q)) (\<lambda>_.
     Inr q))))"

definition TimerQueue_addTimer ::
    "allocator \<Rightarrow> (nat \<Rightarrow> timestamp) \<Rightarrow> nat \<Rightarrow> timestamp \<Rightarrow> double \<Rightarrow> timerqueue \<Rightarrow>
      ((addr \<times> int) \<times> timerqueue) res" where
  "TimerQueue_addTimer alloc clk cb when ivl q =
     rbind (Timer_new alloc cb when ivl q) (\<lambda>(a, q).
     rbind (if inLoopThread q then TimerQueue_addTimerInLoop clk a q
            else Inr (q\<lparr>loopQueue := loopQueue q @ [AddTimerInLoop a]\<rparr>)) (\<lambda>q.
     rbind (Timer_at q a) (\<lambda>t.
     Inr ((a, sequence t), q))))"

definition TimerQueue_cancel :: "addr \<Rightarrow> int \<Rightarrow> timerqueue \<Rightarrow> timerqueue res" where
  "TimerQueue_cancel a sq q =
     (if inLoopThread q then TimerQueue_cancelInLoop a sq q
      else Inr (q\<lparr>loopQueue := loopQueue q @ [CancelInLoop a sq]\<rparr>))"

text \<open>The functors another thread posted, run by the loop in the order posted.\<close>

fun TimerQueue_runPosted :: "(nat \<Rightarrow> timestamp) \<Rightarrow> timerqueue \<Rightarrow> timer_functor \<Rightarrow> timerqueue res" where
  "TimerQueue_runPosted clk q (AddTimerInLoop a) = TimerQueue_addTimerInLoop clk a q"
| "TimerQueue_runPosted clk q (CancelInLoop a sq) = TimerQueue_cancelInLoop a sq q"

section \<open>Expiry\<close>

fun erase_active :: "(timestamp \<times> addr) list \<Rightarrow> timerqueue \<Rightarrow> timerqueue res" where
  "erase_active [] q = Inr q"
| "erase_active ((w, a) # es) q =
     rbind (Timer_at q a) (\<lambda>t.
     rbind (check AssertFail ((a, sequence t) \<in> set (activeTimers q))) (\<lambda>_.
     erase_active es (q\<lparr>activeTimers := remove1 (a, sequence t) (activeTimers q)\<rparr>)))"

definition TimerQueue_getExpired :: "timestamp \<Rightarrow> timerqueue \<Rightarrow> ((timestamp \<times> addr) list \<times> timerqueue) res" where
  "TimerQueue_getExpired now q =
     rbind (check AssertFail (sizes_agree q)) (\<lambda>_.
     let sentry = (now, UINTPTR_MAX);
         expired = takeWhile (\<lambda>e. e < sentry) (timers q);
         rest = dropWhile (\<lambda>e. e < sentry) (timers q) in
     rbind (check AssertFail (rest = [] \<or> now < fst (hd rest))) (\<lambda>_.
     rbind (erase_active expired (q\<lparr>timers := rest\<rparr>)) (\<lambda>q.
     rbind (check AssertFail (sizes_agree q)) (\<lambda>_.
     Inr (expired, q)))))"

fun run_action :: "allocator \<Rightarrow> (nat \<Rightarrow> timestamp) \<Rightarrow> timer_action \<Rightarrow> timerqueue \<Rightarrow> timerqueue res" where
  "run_action alloc clk (ActAdd cb when ivl) q =
     rbind (TimerQueue_addTimer alloc clk cb when ivl q) (\<lambda>(_, q). Inr q)"
| "run_action alloc clk (ActCancel a sq) q = TimerQueue_cancel a sq q"

fun run_actions ::
    "allocator \<Rightarrow> (nat \<Rightarrow> timestamp) \<Rightarrow> (timerqueue \<Rightarrow> timer_action) list \<Rightarrow> timerqueue \<Rightarrow> timerqueue res" where
  "run_actions alloc clk [] q = Inr q"
| "run_actions alloc clk (f # fs) q =
     rbind (run_action alloc clk (f q) q) (run_actions alloc clk fs)"

definition Timer_run :: "allocator \<Rightarrow> (nat \<Rightarrow> timestamp) \<Rightarrow> callbacks \<Rightarrow> addr \<Rightarrow> timerqueue \<Rightarrow> timerqueue res" where
  "Timer_run alloc clk cbs a q =
     rbind (Timer_at q a) (\<lambda>t.
     run_actions alloc clk (cbs (t_callback t)) (q\<lparr>runlog := runlog q @ [t_callback t]\<rparr>))"

fun run_expired ::
    "allocator \<Rightarrow> (nat \<Rightarrow> timestamp) \<Rightarrow> callbacks \<Rightarrow> (timestamp \<times> addr) list \<Rightarrow> timerqueue \<Rightarrow> timerqueue res" where
  "run_expired alloc clk cbs [] q = Inr q"
| "run_expired alloc clk cbs ((w, a) # es) q =
     rbind (Timer_run alloc clk cbs a q) (run_expired alloc clk cbs es)"

fun reset_each :: "timestamp \<Rightarrow> (timestamp \<times> addr) list \<Rightarrow> timerqueue \<Rightarrow> timerqueue res" where
  "reset_each now [] q = Inr q"
| "reset_each now ((w, a) # es) q =
     rbind (Timer_at q a) (\<lambda>t.
     rbind (if repeat t \<and> (a, sequence t) \<notin> set (cancelingTimers q)
            then rbind (Timer_restart t now) (\<lambda>t'.
                 rbind (TimerQueue_insert a (q\<lparr>heap := (heap q)(a \<mapsto> t')\<rparr>)) (\<lambda>(_, q). Inr q))
            else Timer_delete a q) (reset_each now es))"

definition TimerQueue_reset ::
    "(nat \<Rightarrow> timestamp) \<Rightarrow> (timestamp \<times> addr) list \<Rightarrow> timestamp \<Rightarrow> timerqueue \<Rightarrow> timerqueue res" where
  "TimerQueue_reset clk expired now q =
     rbind (reset_each now expired q) (\<lambda>q.
     rbind (case timers q of
              [] \<Rightarrow> Inr Timestamp_invalid
            | (_, a) # _ \<Rightarrow> rbind (Timer_at q a) (\<lambda>t. Inr (expiration t))) (\<lambda>nextExpire.
     if Timestamp_valid nextExpire then resetTimerfd clk nextExpire q else Inr q))"

definition TimerQueue_handleRead :: "allocator \<Rightarrow> (nat \<Rightarrow> timestamp) \<Rightarrow> callbacks \<Rightarrow> timerqueue \<Rightarrow> timerqueue res" where
  "TimerQueue_handleRead alloc clk cbs q =
     rbind (check LogFatal (inLoopThread q)) (\<lambda>_.
     let (now, q) = clock_now clk q;
         q = readTimerfd q in
     rbind (TimerQueue_getExpired now q) (\<lambda>(expired, q).
     rbind (run_expired alloc clk cbs expired (q\<lparr>callingExpiredTimers := True, cancelingTimers := []\<rparr>)) (\<lambda>q.
     TimerQueue_reset clk expired now (q\<lparr>callingExpiredTimers := False\<rparr>))))"

text \<open>The destructor frees the timers still queued.\<close>

fun delete_each :: "(timestamp \<times> addr) list \<Rightarrow> timerqueue \<Rightarrow> timerqueue res" where
  "delete_each [] q = Inr q"
| "delete_each ((w, a) # es) q = rbind (Timer_delete a q) (delete_each es)"

definition TimerQueue_dtor :: "timerqueue \<Rightarrow> timerqueue res" where
  "TimerQueue_dtor q = delete_each (timers q) q"

section \<open>Invariant\<close>

text \<open>
  \<open>tq_inv H q\<close>: the two sets are strictly sorted and hold the same timers; the timers queued, the
  timers in \<open>H\<close> (objects the running handler still owns: the expired ones, or one just created)
  and the timers other threads have posted are pairwise distinct and are exactly the live objects.
\<close>

definition posted :: "timerqueue \<Rightarrow> addr list" where
  "posted q = concat (map (\<lambda>f. case f of AddTimerInLoop a \<Rightarrow> [a] | CancelInLoop _ _ \<Rightarrow> []) (loopQueue q))"

definition owned :: "addr list \<Rightarrow> timerqueue \<Rightarrow> addr list" where
  "owned H q = map snd (timers q) @ H @ posted q"

definition entry_id :: "(addr \<Rightarrow> timer option) \<Rightarrow> timestamp \<times> addr \<Rightarrow> addr \<times> int" where
  "entry_id h e = (snd e, sequence (the (h (snd e))))"

definition tq_inv :: "addr list \<Rightarrow> timerqueue \<Rightarrow> bool" where
  "tq_inv H q \<longleftrightarrow>
     sorted (timers q) \<and> sorted (activeTimers q) \<and> distinct (activeTimers q) \<and>
     (\<forall>e \<in> set (timers q). \<forall>t. heap q (snd e) = Some t \<longrightarrow> expiration t = fst e) \<and>
     set (activeTimers q) = entry_id (heap q) ` set (timers q) \<and>
     distinct (owned H q) \<and> set (owned H q) = dom (heap q) \<and>
     (\<forall>a \<in> dom (heap q). a < UINTPTR_MAX) \<and>
     (\<forall>t \<in> ran (heap q). repeat t \<longrightarrow> double_pos (interval t))"

text \<open>
  An entry is covered when the descriptor is armed to fire no later than the entry's expiration (or
  100 microseconds after arming, the shortest delay the code asks for). \<open>covered B q\<close> says so of the
  entries that expire up to \<open>B\<close>.
\<close>

definition covers :: "(timestamp \<times> int \<times> int) option \<Rightarrow> timestamp \<Rightarrow> bool" where
  "covers d w = (case d of None \<Rightarrow> False
     | Some (now, s, ns) \<Rightarrow> now + s * 1000000 + ns div 1000 \<le> max w (now + 100))"

definition covered :: "timestamp \<Rightarrow> timerqueue \<Rightarrow> bool" where
  "covered B q \<longleftrightarrow> (\<forall>e \<in> set (timers q). fst e \<le> B \<longrightarrow> covers (armed q) (fst e))"

definition keeps :: "addr list \<Rightarrow> timerqueue \<Rightarrow> timerqueue \<Rightarrow> bool" where
  "keeps H q q' \<longleftrightarrow> (\<forall>a \<in> set H. heap q' a = heap q a) \<and> inLoopThread q' = inLoopThread q \<and>
     callingExpiredTimers q' = callingExpiredTimers q \<and> loopQueue q' = loopQueue q \<and>
     set (cancelingTimers q) \<subseteq> set (cancelingTimers q') \<and> (\<forall>B. covered B q \<longrightarrow> covered B q')"

definition alloc_ok :: "allocator \<Rightarrow> bool" where
  "alloc_ok alloc \<longleftrightarrow> (\<forall>h a. alloc h = Some a \<longrightarrow> h a = None \<and> a < UINTPTR_MAX)"

lemma keeps_refl [simp]: "keeps H q q"
  by (simp add: keeps_def)

lemma keeps_trans: "keeps H q q' \<Longrightarrow> keeps H q' q'' \<Longrightarrow> keeps H q q''"
  by (auto simp: keeps_def)

lemma tq_inv_alive: "tq_inv H q \<Longrightarrow> e \<in> set (timers q) \<Longrightarrow> \<exists>t. heap q (snd e) = Some t \<and> expiration t = fst e"
proof -
  assume inv: "tq_inv H q" and e: "e \<in> set (timers q)"
  then have "snd e \<in> dom (heap q)" by (auto simp: tq_inv_def owned_def)
  then show ?thesis using inv e by (auto simp: tq_inv_def)
qed

lemma tq_inv_held: "tq_inv H q \<Longrightarrow> a \<in> set H \<Longrightarrow> \<exists>t. heap q a = Some t"
  by (auto simp: tq_inv_def owned_def)

lemma tq_inv_sizes: "tq_inv H q \<Longrightarrow> sizes_agree q"
proof -
  assume inv: "tq_inv H q"
  then have d: "distinct (map snd (timers q))" by (simp add: tq_inv_def owned_def)
  then have "inj_on (entry_id (heap q)) (set (timers q))"
    by (auto simp: distinct_map inj_on_def entry_id_def)
  then have "card (set (activeTimers q)) = card (set (timers q))"
    using inv by (simp add: tq_inv_def card_image)
  moreover have "distinct (timers q)" using d by (simp add: distinct_map)
  moreover have "distinct (activeTimers q)" using inv by (simp add: tq_inv_def)
  ultimately show ?thesis
    using distinct_card [of "timers q"] distinct_card [of "activeTimers q"] by (simp add: sizes_agree_def)
qed

lemma distinct_map_insort: "distinct (map f (insort x xs) @ ys) \<longleftrightarrow> distinct (f x # map f xs @ ys)"
  by (rule mset_eq_imp_distinct_iff) simp

lemma distinct_map_remove1:
  assumes "x \<in> set xs"
  shows "distinct (map f xs @ ys) \<longleftrightarrow> distinct (f x # map f (remove1 x xs) @ ys)"
proof (rule mset_eq_imp_distinct_iff)
  have "mset xs = add_mset x (mset (remove1 x xs))" using assms by simp
  then show "mset (map f xs @ ys) = mset (f x # map f (remove1 x xs) @ ys)"
    by (metis (no_types, lifting) append_Cons image_mset_add_mset mset.simps(2) mset_append mset_map
        union_mset_add_mset_left)
qed

lemma tq_inv_frame [simp]:
  "tq_inv H (q\<lparr>clockReads := n\<rparr>) = tq_inv H q" "tq_inv H (q\<lparr>armed := d\<rparr>) = tq_inv H q"
  "tq_inv H (q\<lparr>runlog := l\<rparr>) = tq_inv H q" "tq_inv H (q\<lparr>callingExpiredTimers := b\<rparr>) = tq_inv H q"
  "tq_inv H (q\<lparr>cancelingTimers := c\<rparr>) = tq_inv H q" "tq_inv H (q\<lparr>numCreated := k\<rparr>) = tq_inv H q"
  unfolding tq_inv_def owned_def posted_def by simp_all

lemma tq_inv_new [simp]: "tq_inv [] TimerQueue_new"
  by (simp add: tq_inv_def TimerQueue_new_def owned_def posted_def)

text \<open>Allocation adds an owned timer, an update of an owned timer changes nothing in the sets, and
  freeing one removes it.\<close>

lemma tq_inv_alloc:
  assumes inv: "tq_inv H q" and a: "heap q a = None" "a < UINTPTR_MAX"
    and r: "repeat t \<longrightarrow> double_pos (interval t)"
  shows "tq_inv (a # H) (q\<lparr>heap := (heap q)(a \<mapsto> t)\<rparr>)"
proof -
  have "set (owned H q) = dom (heap q)" using inv by (simp add: tq_inv_def)
  then have n: "a \<notin> set (owned H q)" using a by auto
  then have E: "entry_id ((heap q)(a \<mapsto> t)) ` set (timers q) = entry_id (heap q) ` set (timers q)"
    by (intro image_cong refl) (auto simp: entry_id_def owned_def)
  have "\<forall>e \<in> set (timers q). snd e \<noteq> a" using n by (auto simp: owned_def)
  then show ?thesis
    using inv a n r unfolding tq_inv_def E timerqueue.simps
    by (auto simp: owned_def posted_def E)
qed

lemma tq_inv_update:
  assumes inv: "tq_inv (a # H) q" and r: "repeat t \<longrightarrow> double_pos (interval t)"
  shows "tq_inv (a # H) (q\<lparr>heap := (heap q)(a \<mapsto> t)\<rparr>)"
proof -
  have n: "\<forall>e \<in> set (timers q). snd e \<noteq> a" using inv by (auto simp: tq_inv_def owned_def)
  then have E: "entry_id ((heap q)(a \<mapsto> t)) ` set (timers q) = entry_id (heap q) ` set (timers q)"
    by (intro image_cong refl) (auto simp: entry_id_def)
  have "a \<in> dom (heap q)" using inv by (auto simp: tq_inv_def owned_def)
  then show ?thesis using inv n r by (auto simp: tq_inv_def owned_def posted_def E ran_def split: if_splits)
qed

lemma tq_inv_free:
  assumes inv: "tq_inv (a # H) q"
  shows "tq_inv H (q\<lparr>heap := (heap q)(a := None)\<rparr>)"
proof -
  have n: "\<forall>e \<in> set (timers q). snd e \<noteq> a" using inv by (auto simp: tq_inv_def owned_def)
  then have E: "entry_id ((heap q)(a := None)) ` set (timers q) = entry_id (heap q) ` set (timers q)"
    by (intro image_cong refl) (auto simp: entry_id_def)
  have "set (owned H q) = dom (heap q) - {a}" using inv by (auto simp: tq_inv_def owned_def)
  then show ?thesis using inv n by (auto simp: tq_inv_def owned_def posted_def E ran_def split: if_splits)
qed

text \<open>Moving an owned timer into the sets, and back.\<close>

definition inserted :: "addr \<Rightarrow> timer \<Rightarrow> timerqueue \<Rightarrow> timerqueue" where
  "inserted a t q = q\<lparr>timers := insort (expiration t, a) (timers q),
     activeTimers := insort (a, sequence t) (activeTimers q)\<rparr>"

lemma tq_inv_inserted:
  assumes inv: "tq_inv (a # H) q" and t: "heap q a = Some t"
  shows "tq_inv H (inserted a t q)"
proof -
  have n: "\<forall>e \<in> set (timers q). snd e \<noteq> a" using inv by (auto simp: tq_inv_def owned_def)
  then have "(a, sequence t) \<notin> set (activeTimers q)" using inv by (auto simp: tq_inv_def entry_id_def)
  moreover have "distinct (owned H (inserted a t q)) \<longleftrightarrow> distinct (owned (a # H) q)"
    using distinct_map_insort [of snd "(expiration t, a)" "timers q" "H @ posted q"]
    by (auto simp: owned_def inserted_def posted_def)
  moreover have "set (owned H (inserted a t q)) = set (owned (a # H) q)"
    by (auto simp: owned_def inserted_def posted_def set_insort_key)
  moreover have "heap (inserted a t q) = heap q" by (simp add: inserted_def)
  ultimately show ?thesis
    using inv t unfolding tq_inv_def
    by (simp add: inserted_def sorted_insort set_insort_key distinct_insort entry_id_def)
qed

lemma insert_ok:
  assumes inv: "tq_inv (a # H) q" and t: "heap q a = Some t" and l: "inLoopThread q"
  shows "TimerQueue_insert a q = Inr (timers q = [] \<or> expiration t < fst (hd (timers q)), inserted a t q)"
proof -
  have n: "\<forall>e \<in> set (timers q). snd e \<noteq> a" using inv by (auto simp: tq_inv_def owned_def)
  then have "(a, sequence t) \<notin> set (activeTimers q)" using inv by (auto simp: tq_inv_def entry_id_def)
  moreover have "sizes_agree (inserted a t q)" using tq_inv_inserted [OF inv t] by (rule tq_inv_sizes)
  moreover have "(case timers q of [] \<Rightarrow> True | (w, _) # _ \<Rightarrow> expiration t < w) =
      (timers q = [] \<or> expiration t < fst (hd (timers q)))" by (auto split: list.split)
  ultimately show ?thesis
    using tq_inv_sizes [OF inv] t l n
    by (auto simp: TimerQueue_insert_def Timer_at_def inserted_def Let_def check_def)
qed

section \<open>Operations keep the invariant\<close>

definition may_fail :: "err set" where
  "may_fail = {BadAlloc, SignedOverflow, FloatCast}"

lemma ends_resetTimerfd:
  "ends may_fail (\<lambda>q'. \<exists>d. q' = q\<lparr>clockReads := Suc (clockReads q), armed := Some (clk (clockReads q), d)\<rparr> \<and>
       howMuchTimeFromNow w (clk (clockReads q)) = Inr d) (resetTimerfd clk w q)"
  unfolding resetTimerfd_def clock_now_def Let_def prod.case
  by (rule ends_bind [where P = "\<lambda>d. howMuchTimeFromNow w (clk (clockReads q)) = Inr d"])
     (auto simp: howMuchTimeFromNow_def to_int64_def may_fail_def Let_def)

lemma keeps_frame [simp]:
  "keeps H q (q'\<lparr>clockReads := n\<rparr>) = keeps H q q'" "keeps H q (q'\<lparr>numCreated := k\<rparr>) = keeps H q q'"
  by (simp_all add: keeps_def covered_def)

lemma howMuch_covers:
  assumes "howMuchTimeFromNow w now = Inr (s, ns)"
  shows "now + s * 1000000 + ns div 1000 = max w (now + 100) \<and> 0 \<le> s \<and> 0 \<le> ns \<and> ns < 1000000000 \<and>
    (0 < s \<or> 0 < ns)"
proof -
  define d where "d = max 100 (w - now)"
  have "s = d div 1000000" "ns = d mod 1000000 * 1000" "100 \<le> d"
    using assms by (auto simp: d_def howMuchTimeFromNow_def to_int64_def rbind_eq_Inr kMicroSecondsPerSecond_def
        Let_def split: if_splits)
  moreover have "d mod 1000000 * 1000 div 1000 = d mod 1000000" by simp
  moreover have "d div 1000000 * 1000000 + d mod 1000000 = d" by simp
  ultimately show ?thesis unfolding d_def by (smt (verit) pos_mod_bound pos_mod_sign pos_imp_zdiv_nonneg_iff)
qed

lemma covers_mono: "covers d w \<Longrightarrow> w \<le> w' \<Longrightarrow> covers d w'"
  by (auto simp: covers_def split: option.splits)

lemma howMuch_covered:
  assumes "howMuchTimeFromNow w now = Inr d" and "\<forall>e \<in> set (timers q). w \<le> fst e" and "armed q = Some (now, d)"
  shows "covered B q"
  using howMuch_covers [of w now "fst d" "snd d"] assms by (auto simp: covered_def covers_def)

lemma covered_inserted:
  assumes "covered B q" and "timers q \<noteq> []" and "fst (hd (timers q)) \<le> expiration t"
  shows "covered B (inserted a t q)"
proof -
  have "covers (armed q) (expiration t)" if "expiration t \<le> B"
    using assms that by (auto simp: covered_def intro: covers_mono [of _ "fst (hd (timers q))"])
  then show ?thesis using assms(1) by (auto simp: covered_def inserted_def set_insort_key)
qed

lemma sorted_hd_fst: "sorted (xs :: (int \<times> nat) list) \<Longrightarrow> e \<in> set xs \<Longrightarrow> fst (hd xs) \<le> fst e"
  by (cases xs) (auto simp: less_eq_prod_def)

lemma ends_addTimerInLoop:
  assumes inv: "tq_inv (a # H) q" and t: "heap q a = Some t" and l: "inLoopThread q"
  shows "ends may_fail (\<lambda>q'. tq_inv H q' \<and> keeps H q q' \<and> runlog q' = runlog q \<and> heap q' = heap q \<and>
      timers q' = insort (expiration t, a) (timers q)) (TimerQueue_addTimerInLoop clk a q)"
proof -
  let ?P = "\<lambda>q'. tq_inv H q' \<and> keeps H q q' \<and> runlog q' = runlog q \<and> heap q' = heap q \<and>
      timers q' = insort (expiration t, a) (timers q)"
  have i: "tq_inv H (inserted a t q)" using inv t by (rule tq_inv_inserted)
  have s: "sorted (timers q)" using inv by (simp add: tq_inv_def)
  show ?thesis
  proof (cases "timers q = [] \<or> expiration t < fst (hd (timers q))")
    case True
    then have "\<forall>e \<in> set (timers (inserted a t q)). expiration t \<le> fst e"
      using sorted_hd_fst [OF s] by (fastforce simp: inserted_def set_insort_key)
    then have "ends may_fail ?P (resetTimerfd clk (expiration t) (inserted a t q))"
      using i by (intro ends_mono [OF ends_resetTimerfd])
        (auto simp: keeps_def inserted_def intro!: howMuch_covered)
    then show ?thesis using True t l
      by (auto simp: TimerQueue_addTimerInLoop_def insert_ok [OF inv t l] Timer_at_def inserted_def)
  next
    case False
    then have "keeps H q (inserted a t q)"
      using covered_inserted [of _ q t a] by (auto simp: keeps_def inserted_def)
    then show ?thesis using False i l
      by (auto simp: TimerQueue_addTimerInLoop_def insert_ok [OF inv t l] inserted_def)
  qed
qed

lemma Timer_new_ok:
  assumes inv: "tq_inv H q" and al: "alloc_ok alloc"
  shows "ends may_fail (\<lambda>(a, q'). \<exists>t. heap q a = None \<and> tq_inv (a # H) q' \<and> heap q' = (heap q)(a \<mapsto> t) \<and>
      repeat t = double_pos d \<and>
      q' = q\<lparr>heap := heap q', numCreated := numCreated q + 1\<rparr> \<and> expiration t = w \<and> t_callback t = c \<and> interval t = d)
    (Timer_new alloc c w d q)"
proof (cases "alloc (heap q)")
  case None
  then show ?thesis by (simp add: Timer_new_def may_fail_def)
next
  case (Some a)
  then have "heap q a = None" "a < UINTPTR_MAX" using al by (auto simp: alloc_ok_def)
  then show ?thesis using Some tq_inv_alloc [OF inv] by (auto simp: Timer_new_def)
qed

lemma ends_addTimer:
  assumes inv: "tq_inv H q" and al: "alloc_ok alloc" and l: "inLoopThread q"
  shows "ends may_fail (\<lambda>((a, sq), q'). tq_inv H q' \<and> keeps H q q' \<and> runlog q' = runlog q \<and>
      heap q a = None \<and> (w, a) \<in> set (timers q')) (TimerQueue_addTimer alloc clk c w d q)"
  unfolding TimerQueue_addTimer_def
proof (rule ends_bind [OF Timer_new_ok [OF inv al]], clarify)
  fix a q1 t
  assume a: "heap q a = None" and i: "tq_inv (a # H) q1" and h: "heap q1 = (heap q)(a \<mapsto> t)"
    and q1: "q1 = q\<lparr>heap := heap q1, numCreated := numCreated q + 1\<rparr>" and w: "w = expiration t"
  have l1: "inLoopThread q1" and lg: "runlog q1 = runlog q" and t: "heap q1 a = Some t"
    using l by (subst q1, simp, subst q1, simp) (simp add: h)
  have "\<forall>x \<in> set H. heap q x \<noteq> None" using tq_inv_held [OF inv] by auto
  then have k: "keeps H q q1" using a by (subst q1) (auto simp: keeps_def h covered_def)
  show "ends may_fail (\<lambda>((a, sq), q'). tq_inv H q' \<and> keeps H q q' \<and> runlog q' = runlog q \<and>
      heap q a = None \<and> (expiration t, a) \<in> set (timers q'))
    (rbind (if inLoopThread q1 then TimerQueue_addTimerInLoop clk a q1
            else Inr (q1\<lparr>loopQueue := loopQueue q1 @ [AddTimerInLoop a]\<rparr>)) (\<lambda>q.
     rbind (Timer_at q a) (\<lambda>t. Inr ((a, sequence t), q))))"
    using l1
    by (simp, intro ends_bind [OF ends_addTimerInLoop [OF i t l1]])
       (use a k lg t in \<open>auto simp: Timer_at_def set_insort_key intro: keeps_trans\<close>)
qed

text \<open>Cancelling removes and frees the timer when its identity is queued; otherwise the identity is
  noted while callbacks run, and nothing else changes.\<close>

lemma cancelInLoop_queued:
  assumes inv: "tq_inv H q" and l: "inLoopThread q" and m: "(a, sq) \<in> set (activeTimers q)"
  shows "\<exists>t. heap q a = Some t \<and> sequence t = sq \<and>
    TimerQueue_cancelInLoop a sq q = Inr (q\<lparr>timers := remove1 (expiration t, a) (timers q),
      heap := (heap q)(a := None), activeTimers := remove1 (a, sq) (activeTimers q)\<rparr>) \<and>
    tq_inv H (q\<lparr>timers := remove1 (expiration t, a) (timers q),
      heap := (heap q)(a := None), activeTimers := remove1 (a, sq) (activeTimers q)\<rparr>)"
proof -
  obtain e where e: "e \<in> set (timers q)" "(a, sq) = entry_id (heap q) e"
    using inv m by (auto simp: tq_inv_def)
  obtain t where t: "heap q (snd e) = Some t" "expiration t = fst e" using tq_inv_alive [OF inv e(1)] by blast
  have ee: "e = (expiration t, a)" "sequence t = sq" "heap q a = Some t"
    using e t by (auto simp: entry_id_def prod_eq_iff)
  define q1 where "q1 = q\<lparr>timers := remove1 (expiration t, a) (timers q),
      activeTimers := remove1 (a, sq) (activeTimers q)\<rparr>"
  have dp: "distinct (map snd (timers q))" using inv by (simp add: tq_inv_def owned_def)
  then have dt: "distinct (timers q)" by (simp add: distinct_map)
  have s1: "set (timers q1) = set (timers q) - {e}" "set (activeTimers q1) = set (activeTimers q) - {(a, sq)}"
    using dt inv ee by (auto simp: q1_def tq_inv_def)
  have "inj_on (entry_id (heap q)) (set (timers q))"
    using dp by (auto simp: distinct_map inj_on_def entry_id_def)
  then have "entry_id (heap q) ` (set (timers q) - {e}) = entry_id (heap q) ` set (timers q) - {(a, sq)}"
    using e by (subst inj_on_image_set_diff) auto
  moreover have "distinct (owned H q) \<longleftrightarrow> distinct (owned (a # H) q1)"
    using distinct_map_remove1 [OF e(1), of snd "H @ posted q"] ee by (auto simp: owned_def q1_def posted_def)
  moreover have "set (owned (a # H) q1) = set (owned H q)"
    using e(1) ee s1(1) by (force simp: owned_def q1_def posted_def)
  moreover have "heap q1 = heap q" by (simp add: q1_def)
  moreover have "sorted (timers q1)" "sorted (activeTimers q1)" "distinct (activeTimers q1)"
    using inv by (simp_all add: tq_inv_def q1_def sorted_remove1)
  ultimately have "tq_inv (a # H) q1"
    using inv s1 by (simp add: tq_inv_def)
  moreover have "q\<lparr>timers := remove1 (expiration t, a) (timers q), heap := (heap q)(a := None),
      activeTimers := remove1 (a, sq) (activeTimers q)\<rparr> = q1\<lparr>heap := (heap q1)(a := None)\<rparr>"
    by (simp add: q1_def)
  ultimately have i: "tq_inv H (q\<lparr>timers := remove1 (expiration t, a) (timers q),
      heap := (heap q)(a := None), activeTimers := remove1 (a, sq) (activeTimers q)\<rparr>)"
    by (simp only: tq_inv_free)
  then show ?thesis
    using tq_inv_sizes [OF inv] tq_inv_sizes [OF i] l m e(1) ee
    by (auto simp: TimerQueue_cancelInLoop_def Timer_at_def Timer_delete_def)
qed

lemma cancelInLoop_unqueued:
  assumes "tq_inv H q" and "inLoopThread q" and "(a, sq) \<notin> set (activeTimers q)"
  shows "\<exists>c. TimerQueue_cancelInLoop a sq q = Inr (q\<lparr>cancelingTimers := c\<rparr>) \<and>
    set c = (if callingExpiredTimers q then insert (a, sq) (set (cancelingTimers q)) else set (cancelingTimers q))"
proof (cases "callingExpiredTimers q \<and> (a, sq) \<notin> set (cancelingTimers q)")
  case True
  then show ?thesis using assms tq_inv_sizes [OF assms(1)]
    by (intro exI [of _ "insort (a, sq) (cancelingTimers q)"])
       (auto simp: TimerQueue_cancelInLoop_def sizes_agree_def set_insort_key)
next
  case False
  then show ?thesis using assms tq_inv_sizes [OF assms(1)]
    by (intro exI [of _ "cancelingTimers q"]) (auto simp: TimerQueue_cancelInLoop_def sizes_agree_def)
qed

lemma ends_cancelInLoop:
  assumes inv: "tq_inv H q" and l: "inLoopThread q"
  shows "ends {} (\<lambda>q'. tq_inv H q' \<and> keeps H q q' \<and> runlog q' = runlog q \<and>
      (callingExpiredTimers q \<and> a \<in> set H \<longrightarrow> (a, sq) \<in> set (cancelingTimers q')))
    (TimerQueue_cancelInLoop a sq q)"
proof (cases "(a, sq) \<in> set (activeTimers q)")
  case True
  then have "a \<in> snd ` set (timers q)" using inv by (auto simp: tq_inv_def entry_id_def)
  moreover have "distinct (map snd (timers q) @ H @ posted q)" using inv by (simp add: tq_inv_def owned_def)
  ultimately have "a \<notin> set H" by auto
  then show ?thesis using cancelInLoop_queued [OF inv l True] by (auto simp: keeps_def covered_def dest!: subsetD [OF set_remove1_subset])
next
  case False
  then show ?thesis using cancelInLoop_unqueued [OF inv l False] inv by (auto simp: keeps_def covered_def)
qed

lemma ends_run_action:
  assumes inv: "tq_inv H q" and l: "inLoopThread q" and al: "alloc_ok alloc"
  shows "ends may_fail (\<lambda>q'. tq_inv H q' \<and> keeps H q q' \<and> runlog q' = runlog q \<and>
      (\<forall>a sq. act = ActCancel a sq \<and> callingExpiredTimers q \<and> a \<in> set H \<longrightarrow> (a, sq) \<in> set (cancelingTimers q')))
    (run_action alloc clk act q)"
proof (cases act)
  case (ActAdd c w d)
  show ?thesis unfolding ActAdd run_action.simps
    by (rule ends_bind [OF ends_addTimer [OF inv al l]]) auto
next
  case (ActCancel a sq)
  show ?thesis
    unfolding ActCancel run_action.simps TimerQueue_cancel_def
    using ends_cancelInLoop [OF inv l, of a sq] l by (auto elim!: ends_cases simp: keeps_def)
qed

lemma ends_run_actions:
  assumes "tq_inv H q" and "inLoopThread q" and al: "alloc_ok alloc"
  shows "ends may_fail (\<lambda>q'. tq_inv H q' \<and> keeps H q q' \<and> runlog q' = runlog q \<and>
      (\<forall>a sq. (\<lambda>_. ActCancel a sq) \<in> set fs \<and> callingExpiredTimers q \<and> a \<in> set H \<longrightarrow>
        (a, sq) \<in> set (cancelingTimers q'))) (run_actions alloc clk fs q)"
  using assms(1,2)
proof (induction fs arbitrary: q)
  case (Cons f fs)
  show ?case unfolding run_actions.simps
  proof (rule ends_bind [OF ends_run_action [OF Cons.prems al, where act = "f q"]])
    fix q1 assume q1: "tq_inv H q1 \<and> keeps H q q1 \<and> runlog q1 = runlog q \<and>
      (\<forall>a sq. f q = ActCancel a sq \<and> callingExpiredTimers q \<and> a \<in> set H \<longrightarrow> (a, sq) \<in> set (cancelingTimers q1))"
    then have "tq_inv H q1" "inLoopThread q1" using Cons.prems by (simp_all add: keeps_def)
    from Cons.IH [OF this]
    show "ends may_fail (\<lambda>q'. tq_inv H q' \<and> keeps H q q' \<and> runlog q' = runlog q \<and>
      (\<forall>a sq. (\<lambda>_. ActCancel a sq) \<in> set (f # fs) \<and> callingExpiredTimers q \<and> a \<in> set H \<longrightarrow>
        (a, sq) \<in> set (cancelingTimers q'))) (run_actions alloc clk fs q1)"
      by (rule ends_mono) (use q1 in \<open>auto simp: keeps_def\<close>)
  qed
qed simp

definition cancels :: "callbacks \<Rightarrow> nat \<Rightarrow> addr \<Rightarrow> int \<Rightarrow> bool" where
  "cancels cbs c a sq \<longleftrightarrow> (\<lambda>_. ActCancel a sq) \<in> set (cbs c)"

lemma ends_Timer_run:
  assumes inv: "tq_inv H q" and l: "inLoopThread q" and al: "alloc_ok alloc" and t: "heap q b = Some t"
  shows "ends may_fail (\<lambda>q'. tq_inv H q' \<and> keeps H q q' \<and> runlog q' = runlog q @ [t_callback t] \<and>
      (\<forall>a sq. cancels cbs (t_callback t) a sq \<and> callingExpiredTimers q \<and> a \<in> set H \<longrightarrow>
        (a, sq) \<in> set (cancelingTimers q'))) (Timer_run alloc clk cbs b q)"
proof -
  let ?q = "q\<lparr>runlog := runlog q @ [t_callback t]\<rparr>"
  have "tq_inv H ?q" "inLoopThread ?q" using inv l by simp_all
  from ends_run_actions [OF this al, of "cbs (t_callback t)" clk]
  show ?thesis using t by (simp add: Timer_run_def Timer_at_def cancels_def keeps_def covered_def)
qed

definition calls :: "timerqueue \<Rightarrow> (timestamp \<times> addr) list \<Rightarrow> nat list" where
  "calls q es = map (\<lambda>e. t_callback (the (heap q (snd e)))) es"

lemma ends_run_expired:
  assumes "tq_inv H q" and "inLoopThread q" and al: "alloc_ok alloc" and "snd ` set es \<subseteq> set H"
  shows "ends may_fail (\<lambda>q'. tq_inv H q' \<and> keeps H q q' \<and> runlog q' = runlog q @ calls q es \<and>
      (\<forall>c a sq. c \<in> set (calls q es) \<and> cancels cbs c a sq \<and> callingExpiredTimers q \<and> a \<in> set H \<longrightarrow>
        (a, sq) \<in> set (cancelingTimers q'))) (run_expired alloc clk cbs es q)"
  using assms(1,2,4)
proof (induction es arbitrary: q)
  case (Cons e es)
  obtain w b where e: "e = (w, b)" by (cases e)
  have bH: "b \<in> set H" using Cons.prems e by auto
  then obtain t where t: "heap q b = Some t" using tq_inv_held [OF Cons.prems(1)] by blast
  show ?case unfolding e run_expired.simps
  proof (rule ends_bind [OF ends_Timer_run [OF Cons.prems(1,2) al t, of cbs]])
    fix q1 assume q1: "tq_inv H q1 \<and> keeps H q q1 \<and> runlog q1 = runlog q @ [t_callback t] \<and>
      (\<forall>a sq. cancels cbs (t_callback t) a sq \<and> callingExpiredTimers q \<and> a \<in> set H \<longrightarrow>
        (a, sq) \<in> set (cancelingTimers q1))"
    then have i1: "tq_inv H q1" "inLoopThread q1" using Cons.prems by (simp_all add: keeps_def)
    have C: "calls q1 es = calls q es" "calls q ((w, b) # es) = t_callback t # calls q es"
      using q1 t Cons.prems(3) by (auto simp: calls_def keeps_def)
    have "snd ` set es \<subseteq> set H" using Cons.prems by auto
    from Cons.IH [OF i1 this]
    show "ends may_fail (\<lambda>q'. tq_inv H q' \<and> keeps H q q' \<and> runlog q' = runlog q @ calls q ((w, b) # es) \<and>
      (\<forall>c a sq. c \<in> set (calls q ((w, b) # es)) \<and> cancels cbs c a sq \<and> callingExpiredTimers q \<and> a \<in> set H \<longrightarrow>
        (a, sq) \<in> set (cancelingTimers q'))) (run_expired alloc clk cbs es q1)"
      by (rule ends_mono) (use q1 C in \<open>auto simp: keeps_def\<close>)
  qed
qed (simp add: calls_def)

section \<open>Expired timers\<close>

lemma sorted_split:
  assumes "sorted xs" and "\<And>x y. x \<in> set xs \<Longrightarrow> y \<in> set xs \<Longrightarrow> x \<le> y \<Longrightarrow> P y \<Longrightarrow> P x"
  shows "takeWhile P xs = filter P xs \<and> dropWhile P xs = filter (\<lambda>x. \<not> P x) xs"
  using assms
proof (induction xs)
  case (Cons x xs)
  show ?case
  proof (cases "P x")
    case True
    moreover have "takeWhile P xs = filter P xs \<and> dropWhile P xs = filter (\<lambda>x. \<not> P x) xs"
      using Cons.prems by (intro Cons.IH) auto
    ultimately show ?thesis by simp
  next
    case False
    then have "\<forall>y \<in> set xs. \<not> P y" using Cons.prems by (metis list.set_intros sorted_simps(2))
    then show ?thesis using False by (simp add: filter_id_conv)
  qed
qed simp

lemma erase_active_ok:
  assumes "distinct (activeTimers q)" and "distinct (map snd es)"
    and "\<forall>e \<in> set es. heap q (snd e) \<noteq> None" and "entry_id (heap q) ` set es \<subseteq> set (activeTimers q)"
  shows "erase_active es q =
    Inr (q\<lparr>activeTimers := filter (\<lambda>x. x \<notin> entry_id (heap q) ` set es) (activeTimers q)\<rparr>)"
  using assms
proof (induction es arbitrary: q)
  case (Cons e es)
  obtain w b where e: "e = (w, b)" by (cases e)
  obtain t where t: "heap q b = Some t" using Cons.prems e by auto
  have i: "entry_id (heap q) e = (b, sequence t)" using e t by (simp add: entry_id_def)
  let ?q = "q\<lparr>activeTimers := remove1 (b, sequence t) (activeTimers q)\<rparr>"
  have r: "remove1 (b, sequence t) (activeTimers q) = filter (\<lambda>x. x \<noteq> (b, sequence t)) (activeTimers q)"
    using Cons.prems(1) by (auto simp: distinct_remove1_removeAll removeAll_filter_not_eq intro!: filter_cong)
  have "(b, sequence t) \<notin> entry_id (heap q) ` set es"
    using Cons.prems(2) e by (auto simp: entry_id_def)
  then have "entry_id (heap ?q) ` set es \<subseteq> set (activeTimers ?q)" using Cons.prems(4) r by auto
  then have "erase_active es ?q =
      Inr (?q\<lparr>activeTimers := filter (\<lambda>x. x \<notin> entry_id (heap ?q) ` set es) (activeTimers ?q)\<rparr>)"
    using Cons.prems by (intro Cons.IH) auto
  moreover have "(b, sequence t) \<in> set (activeTimers q)" using Cons.prems(4) i by auto
  ultimately show ?case using i t r by (simp add: e Timer_at_def conj_commute)
qed simp

definition expired :: "timestamp \<Rightarrow> timerqueue \<Rightarrow> (timestamp \<times> addr) list" where
  "expired now q = filter (\<lambda>e. fst e \<le> now) (timers q)"

lemma getExpired_split:
  assumes inv: "tq_inv H q"
  shows "takeWhile (\<lambda>e. e < (now, UINTPTR_MAX)) (timers q) = expired now q \<and>
    dropWhile (\<lambda>e. e < (now, UINTPTR_MAX)) (timers q) = filter (\<lambda>e. now < fst e) (timers q)"
proof -
  have lt: "e < (now, UINTPTR_MAX) \<longleftrightarrow> fst e \<le> now" if "e \<in> set (timers q)" for e
  proof -
    have "snd e \<in> dom (heap q)" using that inv by (auto simp: tq_inv_def owned_def)
    then have "snd e < UINTPTR_MAX" using inv by (auto simp: tq_inv_def)
    then show ?thesis by (cases e) auto
  qed
  have "filter (\<lambda>e. e < (now, UINTPTR_MAX)) (timers q) = expired now q"
    "filter (\<lambda>e. \<not> e < (now, UINTPTR_MAX)) (timers q) = filter (\<lambda>e. now < fst e) (timers q)"
    unfolding expired_def using lt by (simp_all cong: filter_cong add: not_le)
  moreover have "sorted (timers q)" using inv by (simp add: tq_inv_def)
  ultimately show ?thesis
    using sorted_split [of "timers q" "\<lambda>e. e < (now, UINTPTR_MAX)"] by (metis order_le_less_trans)
qed

lemma tq_inv_expire:
  assumes inv: "tq_inv [] q"
    and q': "q' = q\<lparr>timers := filter (\<lambda>e. now < fst e) (timers q),
      activeTimers := filter (\<lambda>x. x \<notin> entry_id (heap q) ` set (expired now q)) (activeTimers q)\<rparr>"
  shows "tq_inv (map snd (expired now q)) q'"
proof -
  let ?x = "expired now q"
  have f: "timers q' = filter (\<lambda>e. now < fst e) (timers q)" "heap q' = heap q" "posted q' = posted q"
    "activeTimers q' = filter (\<lambda>x. x \<notin> entry_id (heap q) ` set ?x) (activeTimers q)"
    by (simp_all add: q' posted_def)
  have d: "distinct (map snd (timers q))" using inv by (simp add: tq_inv_def owned_def)
  then have inj: "inj_on (entry_id (heap q)) (set (timers q))"
    by (auto simp: distinct_map inj_on_def entry_id_def)
  have "set (activeTimers q') = set (activeTimers q) - entry_id (heap q) ` set ?x" using f by auto
  also have "\<dots> = entry_id (heap q) ` (set (timers q) - set ?x)"
    using inv by (subst inj_on_image_set_diff [OF inj]) (auto simp: tq_inv_def expired_def)
  also have "set (timers q) - set ?x = set (timers q')" using f by (auto simp: expired_def)
  finally have a: "set (activeTimers q') = entry_id (heap q) ` set (timers q')" .
  have "mset (timers q) = mset ?x + mset (timers q')"
    using multiset_partition [of "mset (timers q)" "\<lambda>e. fst e \<le> now"] f by (simp add: expired_def not_le)
  then have m: "mset (owned (map snd ?x) q') = mset (owned [] q)" using f(3) by (simp add: owned_def)
  have "sorted (timers q')" "sorted (activeTimers q')" "distinct (activeTimers q')"
    using inv f by (simp_all add: tq_inv_def sorted_wrt_filter)
  then show ?thesis
    using inv a f mset_eq_imp_distinct_iff [OF m] mset_eq_setD [OF m] by (simp add: tq_inv_def)
qed

lemma getExpired_ok:
  assumes inv: "tq_inv [] q"
  shows "\<exists>A. TimerQueue_getExpired now q =
      Inr (expired now q, q\<lparr>timers := filter (\<lambda>e. now < fst e) (timers q), activeTimers := A\<rparr>) \<and>
    tq_inv (map snd (expired now q)) (q\<lparr>timers := filter (\<lambda>e. now < fst e) (timers q), activeTimers := A\<rparr>)"
proof -
  let ?r = "filter (\<lambda>e. now < fst e) (timers q)" and ?x = "expired now q"
  let ?A = "filter (\<lambda>x. x \<notin> entry_id (heap q) ` set ?x) (activeTimers q)"
  have d: "distinct (map snd (timers q))" using inv by (simp add: tq_inv_def owned_def)
  have al: "\<forall>e \<in> set (timers q). heap q (snd e) \<noteq> None" using tq_inv_alive [OF inv] by fastforce
  have er: "erase_active ?x (q\<lparr>timers := ?r\<rparr>) = Inr (q\<lparr>timers := ?r, activeTimers := ?A\<rparr>)"
    using inv d al by (subst erase_active_ok) (auto simp: tq_inv_def expired_def distinct_map_filter)
  have i: "tq_inv (map snd ?x) (q\<lparr>timers := ?r, activeTimers := ?A\<rparr>)"
    using tq_inv_expire [OF inv refl] .
  have "?r = [] \<or> now < fst (hd ?r)" using hd_in_set [of ?r] by (auto simp del: hd_in_set)
  then have "check AssertFail (?r = [] \<or> now < fst (hd ?r)) = Inr ()" by (simp only: check_True)
  then have "TimerQueue_getExpired now q = Inr (?x, q\<lparr>timers := ?r, activeTimers := ?A\<rparr>)"
    by (simp only: TimerQueue_getExpired_def Let_def er getExpired_split [OF inv] tq_inv_sizes [OF inv]
        tq_inv_sizes [OF i] check_True rbind_Inr)
  with i show ?thesis by blast
qed

text \<open>What becomes of an expired timer: it is re-armed when it repeats and was not cancelled while the
  callbacks ran, and freed otherwise.\<close>

definition after_expiry :: "timestamp \<Rightarrow> (addr \<times> int) list \<Rightarrow> addr \<Rightarrow> timer \<Rightarrow> timer option" where
  "after_expiry now cancelled a t =
     (if repeat t \<and> (a, sequence t) \<notin> set cancelled
      then (case addTime now (interval t) of Inl _ \<Rightarrow> None | Inr w \<Rightarrow> Some (t\<lparr>expiration := w\<rparr>))
      else None)"

definition reset_post :: "timestamp \<Rightarrow> addr list \<Rightarrow> addr list \<Rightarrow> timerqueue \<Rightarrow> timerqueue \<Rightarrow> bool" where
  "reset_post now H K q q' \<longleftrightarrow> tq_inv K q' \<and> inLoopThread q' = inLoopThread q \<and>
     cancelingTimers q' = cancelingTimers q \<and> loopQueue q' = loopQueue q \<and> clockReads q' = clockReads q \<and>
     runlog q' = runlog q \<and> callingExpiredTimers q' = callingExpiredTimers q \<and> armed q' = armed q \<and>
     (\<forall>e \<in> set (timers q'). e \<in> set (timers q) \<or> now \<le> fst e) \<and>
     (\<forall>a. heap q' a = (if a \<in> set H then after_expiry now (cancelingTimers q) a (the (heap q a)) else heap q a))"

lemma ends_reset_one:
  assumes inv: "tq_inv (a # K) q" and t: "heap q a = Some t" and l: "inLoopThread q"
  shows "ends may_fail (reset_post now [a] K q)
    (if repeat t \<and> (a, sequence t) \<notin> set (cancelingTimers q)
     then rbind (Timer_restart t now) (\<lambda>t'.
          rbind (TimerQueue_insert a (q\<lparr>heap := (heap q)(a \<mapsto> t')\<rparr>)) (\<lambda>(_, q). Inr q))
     else Timer_delete a q)"
proof (cases "repeat t \<and> (a, sequence t) \<notin> set (cancelingTimers q)")
  case True
  show ?thesis
  proof (cases "addTime now (interval t)")
    case (Inl e)
    then have "e \<in> may_fail"
      by (auto simp: may_fail_def addTime_def rbind_eq_Inl to_int64_def double_to_int64_def
          split: if_splits double.splits)
    then show ?thesis using True Inl by (simp add: Timer_restart_def)
  next
    case (Inr w)
    let ?t = "t\<lparr>expiration := w\<rparr>" and ?q = "q\<lparr>heap := (heap q)(a \<mapsto> t\<lparr>expiration := w\<rparr>)\<rparr>"
    have p: "double_pos (interval t)" using inv t True by (auto simp: tq_inv_def ran_def)
    have i: "tq_inv (a # K) ?q" using inv p by (intro tq_inv_update) simp_all
    have "reset_post now [a] K q (inserted a ?t ?q)"
      using True Inr t tq_inv_inserted [OF i, of ?t] addTime_mono [OF p Inr]
      by (auto simp: reset_post_def inserted_def after_expiry_def set_insort_key)
    then show ?thesis using True Inr insert_ok [OF i, of ?t] l by (simp add: Timer_restart_def)
  qed
next
  case False
  then show ?thesis
    using t tq_inv_free [OF inv] by (auto simp: Timer_delete_def reset_post_def after_expiry_def)
qed

lemma ends_reset_each:
  assumes "tq_inv (map snd es @ K) q" and "inLoopThread q"
  shows "ends may_fail (reset_post now (map snd es) K q) (reset_each now es q)"
  using assms
proof (induction es arbitrary: q)
  case (Cons e es)
  obtain w a where e: "e = (w, a)" by (cases e)
  have inv: "tq_inv (a # (map snd es @ K)) q" using Cons.prems e by simp
  then obtain t where t: "heap q a = Some t" using tq_inv_held by fastforce
  have n: "a \<notin> set (map snd es)" using inv by (auto simp: tq_inv_def owned_def)
  show ?case unfolding e reset_each.simps Timer_at_def t option.case rbind_Inr
  proof (rule ends_bind [OF ends_reset_one [OF inv t Cons.prems(2)]])
    fix q1 assume q1: "reset_post now [a] (map snd es @ K) q q1"
    then have "tq_inv (map snd es @ K) q1" "inLoopThread q1" using Cons.prems by (simp_all add: reset_post_def)
    from Cons.IH [OF this]
    show "ends may_fail (reset_post now (map snd ((w, a) # es)) K q) (reset_each now es q1)"
      by (rule ends_mono) (use q1 n t in \<open>auto simp: reset_post_def\<close>)
  qed
qed (simp add: reset_post_def)

section \<open>The expiry handler\<close>

definition handled :: "(nat \<Rightarrow> timestamp) \<Rightarrow> callbacks \<Rightarrow> timerqueue \<Rightarrow> timerqueue \<Rightarrow> bool" where
  "handled clk cbs q q' \<longleftrightarrow>
     (let now = clk (clockReads q); x = expired now q in
      tq_inv [] q' \<and> runlog q' = runlog q @ calls q x \<and> \<not> callingExpiredTimers q' \<and>
      loopQueue q' = loopQueue q \<and> inLoopThread q' \<and> (\<forall>B. covered B q') \<and>
      (\<forall>e \<in> set x. heap q' (snd e) =
         after_expiry now (cancelingTimers q') (snd e) (the (heap q (snd e)))) \<and>
      (\<forall>c a sq. c \<in> set (calls q x) \<and> cancels cbs c a sq \<and> a \<in> snd ` set x \<longrightarrow>
         (a, sq) \<in> set (cancelingTimers q')))"

lemma ends_reset:
  assumes inv: "tq_inv (map snd es) q" and l: "inLoopThread q" and c: "covered 0 q" and now: "0 < now"
  shows "ends may_fail (\<lambda>q'. \<exists>q1. reset_post now (map snd es) [] q q1 \<and> tq_inv [] q' \<and> (\<forall>B. covered B q') \<and>
      q' = q1\<lparr>clockReads := clockReads q', armed := armed q'\<rparr>) (TimerQueue_reset clk es now q)"
  unfolding TimerQueue_reset_def
proof (rule ends_bind [OF ends_reset_each [where K = "[]"]])
  fix q1 assume q1: "reset_post now (map snd es) [] q q1"
  then have i: "tq_inv [] q1" by (simp add: reset_post_def)
  then have s: "sorted (timers q1)" by (simp add: tq_inv_def)
  let ?Q = "\<lambda>q'. \<exists>q1. reset_post now (map snd es) [] q q1 \<and> tq_inv [] q' \<and> (\<forall>B. covered B q') \<and>
      q' = q1\<lparr>clockReads := clockReads q', armed := armed q'\<rparr>"
  show "ends may_fail ?Q (rbind (case timers q1 of [] \<Rightarrow> Inr Timestamp_invalid
            | (_, a) # _ \<Rightarrow> rbind (Timer_at q1 a) (\<lambda>t. Inr (expiration t))) (\<lambda>nextExpire.
     if Timestamp_valid nextExpire then resetTimerfd clk nextExpire q1 else Inr q1))"
  proof (cases "timers q1")
    case Nil
    then have "\<forall>B. covered B q1" by (simp add: covered_def)
    then show ?thesis using Nil q1 i by (auto simp: Timestamp_valid_def Timestamp_invalid_def Timestamp_new_def)
  next
    case (Cons e r)
    obtain w a where e: "e = (w, a)" by (cases e)
    obtain t where t: "heap q1 a = Some t" "expiration t = w"
      using tq_inv_alive [OF i, of e] Cons e by auto
    have least: "\<forall>e \<in> set (timers q1). w \<le> fst e" using sorted_hd_fst [OF s] Cons e by auto
    have "ends may_fail ?Q (resetTimerfd clk w q1)"
      using q1 i least by (intro ends_mono [OF ends_resetTimerfd]) (auto intro!: howMuch_covered exI [of _ q1])
    moreover have "\<forall>B. covered B q1" if "\<not> 0 < w"
    proof -
      have "e \<in> set (timers q)" using that q1 now Cons e by (auto simp: reset_post_def)
      then have "covers (armed q1) w" using c e that q1 by (auto simp: covered_def reset_post_def)
      then show ?thesis using least by (auto simp: covered_def intro: covers_mono)
    qed
    ultimately show ?thesis using Cons e t q1 i by (auto simp: Timer_at_def Timestamp_valid_def)
  qed
qed (use assms in simp_all)

lemma ends_handleRead:
  assumes inv: "tq_inv [] q" and l: "inLoopThread q" and al: "alloc_ok alloc" and now: "0 < clk (clockReads q)"
  shows "ends may_fail (handled clk cbs q) (TimerQueue_handleRead alloc clk cbs q)"
proof -
  let ?now = "clk (clockReads q)" and ?q0 = "readTimerfd (q\<lparr>clockReads := Suc (clockReads q)\<rparr>)"
  let ?x = "expired ?now q"
  have x0: "expired ?now ?q0 = ?x" by (simp add: expired_def readTimerfd_def)
  have "tq_inv [] ?q0" using inv by (simp add: readTimerfd_def)
  then obtain A where g: "TimerQueue_getExpired ?now ?q0 =
      Inr (?x, ?q0\<lparr>timers := filter (\<lambda>e. ?now < fst e) (timers q), activeTimers := A\<rparr>)"
    and i: "tq_inv (map snd ?x) (?q0\<lparr>timers := filter (\<lambda>e. ?now < fst e) (timers q), activeTimers := A\<rparr>)"
    using getExpired_ok [of ?q0 ?now] x0 by (auto simp: readTimerfd_def)
  define q1 where "q1 = ?q0\<lparr>timers := filter (\<lambda>e. ?now < fst e) (timers q), activeTimers := A,
      callingExpiredTimers := True, cancelingTimers := []\<rparr>"
  have i1: "tq_inv (map snd ?x) q1" "inLoopThread q1" "snd ` set ?x \<subseteq> set (map snd ?x)"
    using i l by (simp_all add: q1_def readTimerfd_def)
  have f1: "covered 0 q1" "heap q1 = heap q" "runlog q1 = runlog q" "loopQueue q1 = loopQueue q"
    "callingExpiredTimers q1" "calls q1 ?x = calls q ?x"
    using now by (auto simp: q1_def covered_def readTimerfd_def calls_def)
  have "ends may_fail (handled clk cbs q) (rbind (run_expired alloc clk cbs ?x q1) (\<lambda>q.
      TimerQueue_reset clk ?x ?now (q\<lparr>callingExpiredTimers := False\<rparr>)))"
  proof (rule ends_bind [OF ends_run_expired [OF i1(1,2) al i1(3), of cbs clk]])
    fix q2 assume q2: "tq_inv (map snd ?x) q2 \<and> keeps (map snd ?x) q1 q2 \<and> runlog q2 = runlog q1 @ calls q1 ?x \<and>
      (\<forall>c a sq. c \<in> set (calls q1 ?x) \<and> cancels cbs c a sq \<and> callingExpiredTimers q1 \<and> a \<in> set (map snd ?x) \<longrightarrow>
        (a, sq) \<in> set (cancelingTimers q2))"
    let ?q2 = "q2\<lparr>callingExpiredTimers := False\<rparr>"
    have "tq_inv (map snd ?x) ?q2" "inLoopThread ?q2" "covered 0 ?q2"
      using q2 i1 f1 by (simp_all add: keeps_def covered_def)
    note r = ends_reset [OF this now, where clk = clk]
    have h: "heap q2 (snd e) = heap q (snd e)" if "e \<in> set ?x" for e
      using q2 f1 that by (auto simp: keeps_def)
    have "handled clk cbs q q'" if q': "reset_post ?now (map snd ?x) [] ?q2 q3" "tq_inv [] q'"
      "q' = q3\<lparr>clockReads := clockReads q', armed := armed q'\<rparr>" "\<forall>B. covered B q'" for q' q3
    proof -
      have s: "heap q' = heap q3" "cancelingTimers q' = cancelingTimers q3" "runlog q' = runlog q3"
        "loopQueue q' = loopQueue q3" "inLoopThread q' = inLoopThread q3"
        "callingExpiredTimers q' = callingExpiredTimers q3"
        by (subst q'(3), simp)+
      have "(a, sq) \<in> set (cancelingTimers q3)"
        if "c \<in> set (calls q ?x)" "cancels cbs c a sq" "a \<in> snd ` set ?x" for c a sq
        using that q2 f1 q'(1) by (simp add: reset_post_def)
      moreover have "heap q3 (snd e) = after_expiry ?now (cancelingTimers q3) (snd e) (the (heap q (snd e)))"
        if "e \<in> set ?x" for e
        using that h q'(1) by (simp add: reset_post_def)
      moreover have "runlog q3 = runlog q @ calls q ?x" "\<not> callingExpiredTimers q3"
        "loopQueue q3 = loopQueue q" "inLoopThread q3"
        using q'(1) q2 f1 i1(2) by (simp_all add: reset_post_def keeps_def)
      ultimately show ?thesis unfolding handled_def Let_def s using q'(2,4) by blast
    qed
    then show "ends may_fail (handled clk cbs q) (TimerQueue_reset clk ?x ?now ?q2)"
      by (intro ends_mono [OF r]) auto
  qed
  then show ?thesis
    using l g by (simp add: TimerQueue_handleRead_def clock_now_def q1_def)
qed

section \<open>Reachable queues\<close>

text \<open>
  The queue as its users drive it: threads add and cancel timers (\<open>b\<close>: the caller is the loop's
  thread), the loop runs posted functors and the expiry handler.
\<close>

inductive tq_reach :: "allocator \<Rightarrow> (nat \<Rightarrow> timestamp) \<Rightarrow> callbacks \<Rightarrow> timerqueue \<Rightarrow> bool"
  for alloc clk cbs where
  reach_new: "tq_reach alloc clk cbs TimerQueue_new"
| reach_add: "tq_reach alloc clk cbs q \<Longrightarrow>
    TimerQueue_addTimer alloc clk c w d (q\<lparr>inLoopThread := b\<rparr>) = Inr (tid, q') \<Longrightarrow> tq_reach alloc clk cbs q'"
| reach_cancel: "tq_reach alloc clk cbs q \<Longrightarrow>
    TimerQueue_cancel a sq (q\<lparr>inLoopThread := b\<rparr>) = Inr q' \<Longrightarrow> tq_reach alloc clk cbs q'"
| reach_posted: "tq_reach alloc clk cbs q \<Longrightarrow> loopQueue q = f # fs \<Longrightarrow>
    TimerQueue_runPosted clk (q\<lparr>loopQueue := fs, inLoopThread := True\<rparr>) f = Inr q' \<Longrightarrow> tq_reach alloc clk cbs q'"
| reach_fire: "tq_reach alloc clk cbs q \<Longrightarrow>
    TimerQueue_handleRead alloc clk cbs (q\<lparr>inLoopThread := True\<rparr>) = Inr q' \<Longrightarrow> tq_reach alloc clk cbs q'"

definition tq_ok :: "timerqueue \<Rightarrow> bool" where
  "tq_ok q \<longleftrightarrow> tq_inv [] q \<and> (\<forall>B. covered B q)"

lemma tq_ok_flag [simp]: "tq_ok (q\<lparr>inLoopThread := b\<rparr>) = tq_ok q"
  by (simp add: tq_ok_def tq_inv_def covered_def owned_def posted_def)

lemma tq_ok_step: "tq_inv [] q' \<Longrightarrow> keeps H q q' \<Longrightarrow> tq_ok q \<Longrightarrow> tq_ok q'"
  by (simp add: tq_ok_def keeps_def)

lemma tq_inv_post_add:
  "tq_inv (a # H) q \<Longrightarrow> tq_inv H (q\<lparr>loopQueue := loopQueue q @ [AddTimerInLoop a]\<rparr>)"
  by (auto simp: tq_inv_def owned_def posted_def)

lemma tq_inv_post_cancel:
  "tq_inv H (q\<lparr>loopQueue := loopQueue q @ [CancelInLoop a sq]\<rparr>) = tq_inv H q"
  by (simp add: tq_inv_def owned_def posted_def)

lemma ok_addTimer:
  assumes ok: "tq_ok q" and al: "alloc_ok alloc"
  shows "ends may_fail (\<lambda>(tid, q'). tq_ok q') (TimerQueue_addTimer alloc clk c w d q)"
proof (cases "inLoopThread q")
  case True
  have "tq_inv [] q" using ok by (simp add: tq_ok_def)
  from ends_addTimer [OF this al True]
  show ?thesis by (rule ends_mono) (use ok in \<open>auto intro: tq_ok_step\<close>)
next
  case False
  have i: "tq_inv [] q" using ok by (simp add: tq_ok_def)
  show ?thesis unfolding TimerQueue_addTimer_def
  proof (rule ends_bind [OF Timer_new_ok [OF i al]], clarify)
    fix a q1 t
    assume i1: "tq_inv [a] q1" and h: "heap q1 = (heap q)(a \<mapsto> t)"
      and q1: "q1 = q\<lparr>heap := heap q1, numCreated := numCreated q + 1\<rparr>"
    have "\<not> inLoopThread q1" "timers q1 = timers q" "armed q1 = armed q"
      using False by (subst q1, simp)+
    then show "ends may_fail (\<lambda>(tid, q'). tq_ok q')
      (rbind (if inLoopThread q1 then TimerQueue_addTimerInLoop clk a q1
              else Inr (q1\<lparr>loopQueue := loopQueue q1 @ [AddTimerInLoop a]\<rparr>)) (\<lambda>q.
       rbind (Timer_at q a) (\<lambda>t. Inr ((a, sequence t), q))))"
      using tq_inv_post_add [OF i1] ok h by (simp add: Timer_at_def tq_ok_def covered_def)
  qed
qed

lemma ok_cancel:
  assumes ok: "tq_ok q"
  shows "ends may_fail tq_ok (TimerQueue_cancel a sq q)"
proof (cases "inLoopThread q")
  case True
  have "tq_inv [] q" using ok by (simp add: tq_ok_def)
  from ends_cancelInLoop [OF this True, of a sq] True
  show ?thesis by (auto simp: TimerQueue_cancel_def elim!: ends_cases intro: tq_ok_step [OF _ _ ok])
next
  case False
  then show ?thesis using ok by (simp add: TimerQueue_cancel_def tq_ok_def tq_inv_post_cancel covered_def)
qed

lemma ok_runPosted:
  assumes ok: "tq_ok q" and f: "loopQueue q = f # fs"
  shows "ends may_fail tq_ok (TimerQueue_runPosted clk (q\<lparr>loopQueue := fs, inLoopThread := True\<rparr>) f)"
proof (cases f)
  case (AddTimerInLoop a)
  let ?q = "q\<lparr>loopQueue := fs, inLoopThread := True\<rparr>"
  have i: "tq_inv [a] ?q" using ok f AddTimerInLoop by (auto simp: tq_ok_def tq_inv_def owned_def posted_def)
  then obtain t where "heap ?q a = Some t" using tq_inv_held by fastforce
  from ends_addTimerInLoop [OF i this]
  have "ends may_fail tq_ok (TimerQueue_addTimerInLoop clk a ?q)"
    by (rule ends_mono) (use ok in \<open>auto simp: tq_ok_def keeps_def covered_def\<close>)
  then show ?thesis by (simp add: AddTimerInLoop)
next
  case (CancelInLoop a sq)
  have ok': "tq_ok (q\<lparr>loopQueue := fs, inLoopThread := True\<rparr>)"
    using ok f CancelInLoop by (simp add: tq_ok_def tq_inv_def owned_def posted_def covered_def)
  from ok_cancel [OF this, of a sq] show ?thesis by (simp add: CancelInLoop TimerQueue_cancel_def)
qed

lemma ok_handleRead:
  assumes "tq_ok q" and "alloc_ok alloc" and "0 < clk (clockReads q)"
  shows "ends may_fail tq_ok (TimerQueue_handleRead alloc clk cbs (q\<lparr>inLoopThread := True\<rparr>))"
proof -
  have "tq_inv [] (q\<lparr>inLoopThread := True\<rparr>)"
    using assms(1) by (simp add: tq_ok_def tq_inv_def owned_def posted_def)
  from ends_handleRead [OF this _ assms(2), of clk cbs] assms(3)
  show ?thesis by (auto elim!: ends_mono simp: handled_def tq_ok_def Let_def)
qed

lemma ends_InrD: "ends E P r \<Longrightarrow> r = Inr x \<Longrightarrow> P x"
  by simp

lemma reach_ok:
  assumes "tq_reach alloc clk cbs q" and "alloc_ok alloc" and "\<And>i. 0 < clk i"
  shows "tq_ok q"
  using assms(1)
proof induction
  case reach_new
  then show ?case by (simp add: tq_ok_def) (simp add: covered_def TimerQueue_new_def)
next
  case (reach_add q c w d b tid q')
  then have "ends may_fail (\<lambda>(tid, q'). tq_ok q') (TimerQueue_addTimer alloc clk c w d (q\<lparr>inLoopThread := b\<rparr>))"
    using assms(2) by (intro ok_addTimer) simp_all
  then show ?case using reach_add by simp
next
  case (reach_cancel q a sq b q')
  then have "ends may_fail tq_ok (TimerQueue_cancel a sq (q\<lparr>inLoopThread := b\<rparr>))" by (intro ok_cancel) simp
  then show ?case using reach_cancel by simp
next
  case (reach_posted q f fs q')
  then show ?case using ok_runPosted by (metis ends_InrD)
next
  case (reach_fire q q')
  then show ?case using ok_handleRead [of q alloc clk cbs] assms(2,3) by simp
qed

lemma delete_each_ok:
  assumes "distinct (map snd es)" and "\<forall>e \<in> set es. heap q (snd e) \<noteq> None"
  shows "delete_each es q = Inr (q\<lparr>heap := (\<lambda>a. if a \<in> snd ` set es then None else heap q a)\<rparr>)"
  using assms
proof (induction es arbitrary: q)
  case (Cons e es)
  obtain w a where e: "e = (w, a)" by (cases e)
  let ?q = "q\<lparr>heap := (heap q)(a := None)\<rparr>"
  have d: "delete_each es ?q = Inr (?q\<lparr>heap := (\<lambda>a. if a \<in> snd ` set es then None else heap ?q a)\<rparr>)"
    using Cons.prems e by (intro Cons.IH) (auto simp: image_iff)
  have "(\<lambda>x. if x \<in> snd ` set es then None else heap ?q x) =
      (\<lambda>x. if x \<in> snd ` set (e # es) then None else heap q x)" by (rule ext) (simp add: e)
  with d show ?case using Cons.prems e by (auto simp: Timer_delete_def simp del: fun_upd_apply)
qed simp

text \<open>A concrete run for the witnesses: one timer of interval 0.5 s whose callback cancels it.\<close>

definition ex_alloc :: allocator where
  "ex_alloc h = (if h 1 = None then Some 1 else None)"

definition ex_clk :: "nat \<Rightarrow> timestamp" where
  "ex_clk i = 1000 + int i"

definition ex_cbs :: callbacks where
  "ex_cbs c = [\<lambda>_. ActCancel 1 0]"

definition ex_queue :: timerqueue where
  "ex_queue = TimerQueue_new\<lparr>heap := [1 \<mapsto> \<lparr>t_callback = 7, expiration = 900, interval = Finite 1 (- 1),
     repeat = True, sequence = 0\<rparr>], numCreated := 1, timers := [(900, 1)], activeTimers := [(1, 0)],
     armed := Some (1000, 0, 100000), clockReads := 1\<rparr>"

lemma ex_alloc_ok: "alloc_ok ex_alloc"
  by (auto simp: alloc_ok_def ex_alloc_def UINTPTR_MAX_def split: if_splits)

lemma ex_clk_pos: "0 < ex_clk i"
  by (simp add: ex_clk_def)

lemmas ex_defs = ex_queue_def ex_clk_def ex_cbs_def ex_alloc_def TimerQueue_new_def

lemma ex_add: "TimerQueue_addTimer ex_alloc ex_clk 7 900 (Finite 1 (- 1)) (TimerQueue_new\<lparr>inLoopThread := True\<rparr>) =
    Inr ((1, 0), ex_queue)"
  by (simp add: ex_defs TimerQueue_addTimer_def Timer_new_def TimerQueue_addTimerInLoop_def TimerQueue_insert_def
      Timer_at_def sizes_agree_def resetTimerfd_def clock_now_def howMuchTimeFromNow_def to_int64_def int64_ok_def
      kMicroSecondsPerSecond_def double_pos_def Let_def)

lemma ex_reach: "tq_reach ex_alloc ex_clk ex_cbs ex_queue"
  using reach_add [OF reach_new ex_add] .

lemma ex_inv: "tq_inv [] ex_queue"
  using reach_ok [OF ex_reach ex_alloc_ok ex_clk_pos] by (simp add: tq_ok_def)

section \<open>Properties\<close>

text \<open>C9: Whatever sequence of additions, cancellations, posted functors and expiry events a queue goes
  through, with callbacks that themselves add and cancel timers, its two sets agree, no timer
  object is leaked or shared, and the timer descriptor is armed to fire no later than every queued
  timer's expiration (or the shortest delay after arming), so that no queued timer is forgotten.\<close>

theorem TimerQueue_reach_inv:
  assumes "alloc_ok alloc" and "\<And>i. 0 < clk i" and "tq_reach alloc clk cbs q"
  shows "tq_inv [] q \<and> (\<forall>(w, a) \<in> set (timers q). \<exists>t. heap q a = Some t \<and> expiration t = w) \<and>
    (\<forall>(w, a) \<in> set (timers q). \<exists>now s ns. armed q = Some (now, s, ns) \<and>
       now + s * 1000000 + ns div 1000 \<le> max w (now + 100))"
proof -
  have ok: "tq_ok q" using assms by (intro reach_ok)
  then have "covers (armed q) w" if "(w, a) \<in> set (timers q)" for w a
    using that by (force simp: tq_ok_def covered_def)
  then have "\<exists>now s ns. armed q = Some (now, s, ns) \<and> now + s * 1000000 + ns div 1000 \<le> max w (now + 100)"
    if "(w, a) \<in> set (timers q)" for w a
    using that by (fastforce simp: covers_def split: option.splits)
  moreover have "\<exists>t. heap q a = Some t \<and> expiration t = w" if "(w, a) \<in> set (timers q)" for w a
    using that ok tq_inv_alive [of "[]" q "(w, a)"] by (simp add: tq_ok_def)
  ultimately show ?thesis using ok unfolding tq_ok_def by blast
qed

theorem TimerQueue_reach_inv_witness:
  "\<exists>now s ns. armed ex_queue = Some (now, s, ns) \<and> now + s * 1000000 + ns div 1000 \<le> max 900 (now + 100)"
  using TimerQueue_reach_inv [OF ex_alloc_ok ex_clk_pos ex_reach] by (simp add: ex_queue_def)



text \<open>C17: The expiry handler runs exactly the callbacks of the timers that have expired, each once, in
  order of expiration; an expired timer that repeats and was not cancelled meanwhile is queued again
  one interval after the handler's clock reading, and every other expired timer is freed. The
  callbacks may add and cancel timers at will.\<close>

theorem TimerQueue_handleRead_expired:
  assumes "tq_inv [] q" and "inLoopThread q" and "alloc_ok alloc" and "0 < clk (clockReads q)"
  shows "ends {BadAlloc, SignedOverflow, FloatCast} (\<lambda>q'.
      runlog q' = runlog q @ calls q (expired (clk (clockReads q)) q) \<and> tq_inv [] q' \<and>
      (\<forall>e \<in> set (timers q). fst e \<le> clk (clockReads q) \<longrightarrow>
         heap q' (snd e) = after_expiry (clk (clockReads q)) (cancelingTimers q') (snd e) (the (heap q (snd e)))))
    (TimerQueue_handleRead alloc clk cbs q)"
  using ends_handleRead [of q alloc clk cbs, OF assms]
  by (rule ends_mono) (auto simp: handled_def Let_def expired_def may_fail_def)

theorem TimerQueue_handleRead_expired_witness:
  "ends {BadAlloc, SignedOverflow, FloatCast} (\<lambda>q'. runlog q' = [7]) (TimerQueue_handleRead ex_alloc ex_clk ex_cbs ex_queue)"
proof -
  have "inLoopThread ex_queue" "0 < ex_clk (clockReads ex_queue)" by (simp_all add: ex_defs)
  from TimerQueue_handleRead_expired [of ex_queue ex_alloc ex_clk ex_cbs, OF ex_inv this(1) ex_alloc_ok this(2)]
  show ?thesis by (rule ends_mono) (simp_all add: ex_defs expired_def calls_def)
qed



text \<open>Cancelling, outside the expiry handler, an identity that is queued removes and frees that one
  timer; an identity that is not queued (a fired, cancelled or recycled timer whose sequence number
  differs) changes nothing.\<close>

lemma TimerQueue_cancelInLoop_spec:
  assumes "tq_inv [] q" and "inLoopThread q" and "\<not> callingExpiredTimers q"
  shows "(case heap q a of
      Some t \<Rightarrow>
        if sequence t = sq \<and> (expiration t, a) \<in> set (timers q)
        then TimerQueue_cancelInLoop a sq q = Inr (q\<lparr>timers := remove1 (expiration t, a) (timers q),
               heap := (heap q)(a := None), activeTimers := remove1 (a, sq) (activeTimers q)\<rparr>)
        else TimerQueue_cancelInLoop a sq q = Inr q
    | None \<Rightarrow> TimerQueue_cancelInLoop a sq q = Inr q)"
proof (cases "(a, sq) \<in> set (activeTimers q)")
  case True
  then obtain e where "e \<in> set (timers q)" "entry_id (heap q) e = (a, sq)" using assms by (auto simp: tq_inv_def)
  then show ?thesis
    using tq_inv_alive [OF assms(1), of e] cancelInLoop_queued [OF assms(1,2) True] by (auto simp: entry_id_def)
next
  case False
  then have "TimerQueue_cancelInLoop a sq q = Inr q"
    using assms tq_inv_sizes [OF assms(1)] by (simp add: TimerQueue_cancelInLoop_def)
  moreover have "\<not> (sequence t = sq \<and> (expiration t, a) \<in> set (timers q))" if "heap q a = Some t" for t
  proof
    assume "sequence t = sq \<and> (expiration t, a) \<in> set (timers q)"
    then have "entry_id (heap q) (expiration t, a) \<in> set (activeTimers q)"
      using assms(1) unfolding tq_inv_def by blast
    moreover have "entry_id (heap q) (expiration t, a) = (a, sequence t)" using that by (simp add: entry_id_def)
    ultimately show False using False \<open>sequence t = sq \<and> (expiration t, a) \<in> set (timers q)\<close> by simp
  qed
  ultimately show ?thesis by (auto split: option.split)
qed

text \<open>The relative time given to \<^verbatim>\<open>timerfd_settime\<close> is a normalised \<^verbatim>\<open>timespec\<close>, is never zero (which
  would disarm the descriptor), and stands for the later of the expiration and 100 microseconds.\<close>

lemma howMuchTimeFromNow_bounds:
  assumes "int64_ok (w - now)"
  shows "\<exists>s ns. howMuchTimeFromNow w now = Inr (s, ns) \<and> 0 \<le> s \<and> 0 \<le> ns \<and> ns < 1000000000 \<and>
    (s, ns) \<noteq> (0, 0) \<and> s * 1000000 + ns div 1000 = max (w - now) 100"
proof -
  obtain s ns where r: "howMuchTimeFromNow w now = Inr (s, ns)"
    using assms by (auto simp: howMuchTimeFromNow_def to_int64_def Let_def)
  then show ?thesis using howMuch_covers [OF r] by auto
qed

text \<open>The destructor frees every queued timer exactly once; timers that other threads posted and the
  loop has not added yet stay allocated.\<close>

lemma TimerQueue_dtor_frees:
  assumes "tq_inv [] q"
  shows "\<exists>q'. TimerQueue_dtor q = Inr q' \<and> dom (heap q') = set (posted q)"
proof -
  have d: "distinct (owned [] q)" "dom (heap q) = set (owned [] q)" using assms by (simp_all add: tq_inv_def)
  have "distinct (map snd (timers q))" using d by (simp add: owned_def)
  moreover have "\<forall>e \<in> set (timers q). heap q (snd e) \<noteq> None" using tq_inv_alive [OF assms] by fastforce
  ultimately have r: "TimerQueue_dtor q = Inr (q\<lparr>heap := (\<lambda>a. if a \<in> snd ` set (timers q) then None else heap q a)\<rparr>)"
    unfolding TimerQueue_dtor_def by (rule delete_each_ok)
  have "dom (\<lambda>a. if a \<in> snd ` set (timers q) then None else heap q a) = dom (heap q) - snd ` set (timers q)"
    by (auto simp: dom_def)
  also have "\<dots> = set (posted q)" using d by (auto simp: owned_def)
  finally show ?thesis using r by simp
qed

end
