(* ===== verification/Poller.thy ===== *)
theory Poller
  imports Timestamp
begin

text \<open>
  \<^verbatim>\<open>Channel\<close>, \<^verbatim>\<open>Poller\<close>, \<^verbatim>\<open>EpollPoller\<close> and \<^verbatim>\<open>DefaultPoller.cpp\<close> of \<^verbatim>\<open>src/mymuduo\<close>. \<^verbatim>\<open>Channel\<close> objects live in a
  heap from addresses to records. The kernel is a parameter: \<open>ctl log call\<close> tells whether
  \<^verbatim>\<open>epoll_ctl\<close> accepts \<open>call\<close> after the calls in \<open>log\<close> succeeded, and \<open>wait n\<close> is what \<^verbatim>\<open>epoll_wait\<close>
  with room for \<open>n\<close> events returns. The state records the successful \<^verbatim>\<open>epoll_ctl\<close> calls; replaying
  them (\<open>interest\<close>) gives the kernel's interest list as \<^verbatim>\<open>epoll_ctl(2)\<close> documents it. \<open>run f t\<close> is what
  callback \<open>f\<close> does, \<open>release o\<close> what dropping a reference to object \<open>o\<close> does.
\<close>

section \<open>Channels and the poller's state\<close>

definition EPOLLIN :: u32 where "EPOLLIN = 0x001"
definition EPOLLPRI :: u32 where "EPOLLPRI = 0x002"
definition EPOLLOUT :: u32 where "EPOLLOUT = 0x004"
definition EPOLLERR :: u32 where "EPOLLERR = 0x008"
definition EPOLLHUP :: u32 where "EPOLLHUP = 0x010"

definition kNoneEvent :: u32 where "kNoneEvent = 0"
definition kReadEvent :: u32 where "kReadEvent = EPOLLIN OR EPOLLPRI"
definition kWriteEvent :: u32 where "kWriteEvent = EPOLLOUT"

definition kNew :: int where "kNew = - 1"
definition kAdded :: int where "kAdded = 1"
definition kDeleted :: int where "kDeleted = 2"

definition KInitEventListSize :: nat where "KInitEventListSize = 16"

record channel =
  m_fd :: int
  m_events :: u32
  m_revents :: u32
  m_index :: int
  m_tie :: "nat option"
  m_tied :: bool
  m_readCallBack :: "nat option"
  m_writeCallBack :: "nat option"
  m_errorCallBack :: "nat option"
  m_closeCallBack :: "nat option"

datatype ctl_op = EPOLL_CTL_ADD | EPOLL_CTL_MOD | EPOLL_CTL_DEL

type_synonym ctl_call = "ctl_op \<times> int \<times> u32 \<times> addr"
type_synonym ctl = "ctl_call list \<Rightarrow> ctl_call \<Rightarrow> bool"

record poller =
  channels :: "addr \<Rightarrow> channel option"
  m_channel_map :: "int \<Rightarrow> addr option"
  m_reventList :: nat
  ctlLog :: "ctl_call list"
  refs :: "nat \<Rightarrow> nat"

definition Channel_at :: "'a poller_scheme \<Rightarrow> addr \<Rightarrow> channel res" where
  "Channel_at p a = (case channels p a of None \<Rightarrow> Inl UseAfterFree | Some ch \<Rightarrow> Inr ch)"

definition Channel_put :: "addr \<Rightarrow> channel \<Rightarrow> 'a poller_scheme \<Rightarrow> 'a poller_scheme" where
  "Channel_put a ch p = p\<lparr>channels := (channels p)(a \<mapsto> ch)\<rparr>"

definition Channel_new :: "int \<Rightarrow> channel" where
  "Channel_new fd = \<lparr>m_fd = fd, m_events = 0, m_revents = 0, m_index = - 1, m_tie = None, m_tied = False,
     m_readCallBack = None, m_writeCallBack = None, m_errorCallBack = None, m_closeCallBack = None\<rparr>"

definition Channel_setReadCallBack :: "nat \<Rightarrow> channel \<Rightarrow> channel" where
  [simp]: "Channel_setReadCallBack cb ch = ch\<lparr>m_readCallBack := Some cb\<rparr>"

definition Channel_setWriteCallBack :: "nat \<Rightarrow> channel \<Rightarrow> channel" where
  [simp]: "Channel_setWriteCallBack cb ch = ch\<lparr>m_writeCallBack := Some cb\<rparr>"

definition Channel_setErrorCallBack :: "nat \<Rightarrow> channel \<Rightarrow> channel" where
  [simp]: "Channel_setErrorCallBack cb ch = ch\<lparr>m_errorCallBack := Some cb\<rparr>"

definition Channel_setCloseCallBack :: "nat \<Rightarrow> channel \<Rightarrow> channel" where
  [simp]: "Channel_setCloseCallBack cb ch = ch\<lparr>m_closeCallBack := Some cb\<rparr>"

definition Channel_set_revents :: "u32 \<Rightarrow> channel \<Rightarrow> channel" where
  [simp]: "Channel_set_revents revents ch = ch\<lparr>m_revents := revents\<rparr>"

definition Channel_tie :: "addr \<Rightarrow> nat \<Rightarrow> 'a poller_scheme \<Rightarrow> 'a poller_scheme res" where
  "Channel_tie a obj p = rbind (Channel_at p a) (\<lambda>ch. Inr (Channel_put a (ch\<lparr>m_tie := Some obj, m_tied := True\<rparr>) p))"

definition Channel_isNoneEvent :: "channel \<Rightarrow> bool" where
  "Channel_isNoneEvent ch \<longleftrightarrow> m_events ch = kNoneEvent"

definition Channel_isReading :: "channel \<Rightarrow> bool" where
  "Channel_isReading ch \<longleftrightarrow> m_events ch AND kReadEvent \<noteq> 0"

definition Channel_isWriting :: "channel \<Rightarrow> bool" where
  "Channel_isWriting ch \<longleftrightarrow> m_events ch AND kWriteEvent \<noteq> 0"

section \<open>The epoll poller\<close>

definition EpollPoller_new :: "int \<Rightarrow> poller res" where
  "EpollPoller_new epollfd =
     rbind (check LogFatal (0 \<le> epollfd)) (\<lambda>_.
     Inr \<lparr>channels = (\<lambda>_. None), m_channel_map = (\<lambda>_. None), m_reventList = KInitEventListSize,
          ctlLog = [], refs = (\<lambda>_. 0)\<rparr>)"

text \<open>With \<^verbatim>\<open>MUDUO_USE_POLL\<close> in the environment there is no poller at all.\<close>

definition newDefaultPoller :: "string option \<Rightarrow> int \<Rightarrow> poller option res" where
  "newDefaultPoller use_poll epollfd =
     (if use_poll \<noteq> None then Inr None else rbind (EpollPoller_new epollfd) (\<lambda>p. Inr (Some p)))"

definition Poller_hasChannel :: "addr \<Rightarrow> 'a poller_scheme \<Rightarrow> bool res" where
  "Poller_hasChannel a p = rbind (Channel_at p a) (\<lambda>ch. Inr (m_channel_map p (m_fd ch) = Some a))"

definition EpollPoller_update :: "ctl \<Rightarrow> ctl_op \<Rightarrow> addr \<Rightarrow> 'a poller_scheme \<Rightarrow> 'a poller_scheme res" where
  "EpollPoller_update ctl op a p =
     rbind (Channel_at p a) (\<lambda>ch.
     let call = (op, m_fd ch, m_events ch, a) in
     if ctl (ctlLog p) call then Inr (p\<lparr>ctlLog := ctlLog p @ [call]\<rparr>)
     else if op = EPOLL_CTL_DEL then Inr p
     else Inl LogFatal)"

definition Channel_set_index :: "addr \<Rightarrow> int \<Rightarrow> 'a poller_scheme \<Rightarrow> 'a poller_scheme res" where
  "Channel_set_index a i p = rbind (Channel_at p a) (\<lambda>ch. Inr (Channel_put a (ch\<lparr>m_index := i\<rparr>) p))"

definition EpollPoller_updateChannel :: "ctl \<Rightarrow> addr \<Rightarrow> 'a poller_scheme \<Rightarrow> 'a poller_scheme res" where
  "EpollPoller_updateChannel ctl a p =
     rbind (Channel_at p a) (\<lambda>ch.
     let index = m_index ch; fd = m_fd ch in
     if index = kNew \<or> index = kDeleted then
       let p = (if index = kNew then p\<lparr>m_channel_map := (m_channel_map p)(fd \<mapsto> a)\<rparr> else p) in
       rbind (Channel_set_index a kAdded p) (EpollPoller_update ctl EPOLL_CTL_ADD a)
     else if Channel_isNoneEvent ch then
       rbind (EpollPoller_update ctl EPOLL_CTL_DEL a p) (Channel_set_index a kDeleted)
     else EpollPoller_update ctl EPOLL_CTL_MOD a p)"

definition EpollPoller_removeChannel :: "ctl \<Rightarrow> addr \<Rightarrow> 'a poller_scheme \<Rightarrow> 'a poller_scheme res" where
  "EpollPoller_removeChannel ctl a p =
     rbind (Channel_at p a) (\<lambda>ch.
     let p = p\<lparr>m_channel_map := (m_channel_map p)(m_fd ch := None)\<rparr> in
     rbind (if m_index ch = kAdded then EpollPoller_update ctl EPOLL_CTL_DEL a p else Inr p)
       (Channel_set_index a kNew))"

text \<open>The loop hands its channels on to the poller.\<close>

definition EventLoop_updateChannel :: "ctl \<Rightarrow> addr \<Rightarrow> 'a poller_scheme \<Rightarrow> 'a poller_scheme res" where
  [simp]: "EventLoop_updateChannel ctl = EpollPoller_updateChannel ctl"

definition EventLoop_removeChannel :: "ctl \<Rightarrow> addr \<Rightarrow> 'a poller_scheme \<Rightarrow> 'a poller_scheme res" where
  [simp]: "EventLoop_removeChannel ctl = EpollPoller_removeChannel ctl"

definition EventLoop_hasChannel :: "addr \<Rightarrow> 'a poller_scheme \<Rightarrow> bool res" where
  "EventLoop_hasChannel = Poller_hasChannel"

text \<open>The channel operations that reach the poller through the loop.\<close>

definition Channel_set_events :: "ctl \<Rightarrow> (u32 \<Rightarrow> u32) \<Rightarrow> addr \<Rightarrow> 'a poller_scheme \<Rightarrow> 'a poller_scheme res" where
  "Channel_set_events ctl f a p =
     rbind (Channel_at p a) (\<lambda>ch.
     EventLoop_updateChannel ctl a (Channel_put a (ch\<lparr>m_events := f (m_events ch)\<rparr>) p))"

definition Channel_enableReading :: "ctl \<Rightarrow> addr \<Rightarrow> 'a poller_scheme \<Rightarrow> 'a poller_scheme res" where
  "Channel_enableReading ctl = Channel_set_events ctl (\<lambda>e. e OR kReadEvent)"

definition Channel_disableReading :: "ctl \<Rightarrow> addr \<Rightarrow> 'a poller_scheme \<Rightarrow> 'a poller_scheme res" where
  "Channel_disableReading ctl = Channel_set_events ctl (\<lambda>e. e AND NOT kReadEvent)"

definition Channel_enableWriting :: "ctl \<Rightarrow> addr \<Rightarrow> 'a poller_scheme \<Rightarrow> 'a poller_scheme res" where
  "Channel_enableWriting ctl = Channel_set_events ctl (\<lambda>e. e OR kWriteEvent)"

definition Channel_disableWriting :: "ctl \<Rightarrow> addr \<Rightarrow> 'a poller_scheme \<Rightarrow> 'a poller_scheme res" where
  "Channel_disableWriting ctl = Channel_set_events ctl (\<lambda>e. e AND NOT kWriteEvent)"

definition Channel_disableAll :: "ctl \<Rightarrow> addr \<Rightarrow> 'a poller_scheme \<Rightarrow> 'a poller_scheme res" where
  "Channel_disableAll ctl = Channel_set_events ctl (\<lambda>_. kNoneEvent)"

definition Channel_remove :: "ctl \<Rightarrow> addr \<Rightarrow> 'a poller_scheme \<Rightarrow> 'a poller_scheme res" where
  "Channel_remove ctl = EventLoop_removeChannel ctl"

text \<open>Waiting for events.\<close>

fun fillActiveChannels :: "(u32 \<times> addr) list \<Rightarrow> 'a poller_scheme \<Rightarrow> (addr list \<times> 'a poller_scheme) res" where
  "fillActiveChannels [] p = Inr ([], p)"
| "fillActiveChannels ((ev, a) # es) p =
     rbind (Channel_at p a) (\<lambda>ch.
     rbind (fillActiveChannels es (Channel_put a (Channel_set_revents ev ch) p)) (\<lambda>(as, p).
     Inr (a # as, p)))"

text \<open>The most \<^verbatim>\<open>epoll_event\<close>s (12 bytes each) a vector holds.\<close>

definition revent_max :: nat where "revent_max = (2 ^ 63 - 1) div 12"

definition EpollPoller_poll ::
    "(int \<Rightarrow> int + (u32 \<times> addr) list) \<Rightarrow> timestamp \<Rightarrow> 'a poller_scheme \<Rightarrow> (timestamp \<times> addr list \<times> 'a poller_scheme) res" where
  "EpollPoller_poll wait now p =
     (case wait (sint (of_nat (m_reventList p) :: u32)) of
        Inl errno \<Rightarrow> Inr (now, [], p)
      | Inr [] \<Rightarrow> Inr (now, [], p)
      | Inr evs \<Rightarrow>
          rbind (fillActiveChannels evs p) (\<lambda>(as, p).
          if length evs = m_reventList p then
            if m_reventList p * 2 \<le> revent_max then Inr (now, as, p\<lparr>m_reventList := m_reventList p * 2\<rparr>)
            else Inl LengthError
          else Inr (now, as, p)))"

section \<open>Dispatching events\<close>

definition Channel_fire ::
    "(nat \<Rightarrow> timestamp \<Rightarrow> 'a poller_scheme \<Rightarrow> 'a poller_scheme res) \<Rightarrow> (channel \<Rightarrow> bool) \<Rightarrow> (channel \<Rightarrow> nat option) \<Rightarrow>
      timestamp \<Rightarrow> addr \<Rightarrow> 'a poller_scheme \<Rightarrow> 'a poller_scheme res" where
  "Channel_fire run cond cb t a p =
     rbind (Channel_at p a) (\<lambda>ch.
     if cond ch then (case cb ch of None \<Rightarrow> Inr p | Some f \<Rightarrow> run f t p) else Inr p)"

definition Channel_handleEventWithGuard ::
    "(nat \<Rightarrow> timestamp \<Rightarrow> 'a poller_scheme \<Rightarrow> 'a poller_scheme res) \<Rightarrow> timestamp \<Rightarrow> addr \<Rightarrow>
      'a poller_scheme \<Rightarrow> 'a poller_scheme res" where
  "Channel_handleEventWithGuard run t a p =
     rbind (Channel_fire run (\<lambda>ch. m_revents ch AND EPOLLHUP \<noteq> 0 \<and> m_revents ch AND EPOLLIN = 0)
              m_closeCallBack t a p) (\<lambda>p.
     rbind (Channel_fire run (\<lambda>ch. m_revents ch AND EPOLLERR \<noteq> 0) m_errorCallBack t a p) (\<lambda>p.
     rbind (Channel_fire run (\<lambda>ch. m_revents ch AND (EPOLLIN OR EPOLLPRI) \<noteq> 0) m_readCallBack t a p) (\<lambda>p.
     Channel_fire run (\<lambda>ch. m_revents ch AND EPOLLOUT \<noteq> 0) m_writeCallBack t a p)))"

definition Channel_handleEvent ::
    "(nat \<Rightarrow> timestamp \<Rightarrow> 'a poller_scheme \<Rightarrow> 'a poller_scheme res) \<Rightarrow> (nat \<Rightarrow> 'a poller_scheme \<Rightarrow> 'a poller_scheme res) \<Rightarrow>
      timestamp \<Rightarrow> addr \<Rightarrow> 'a poller_scheme \<Rightarrow> 'a poller_scheme res" where
  "Channel_handleEvent run release t a p =
     rbind (Channel_at p a) (\<lambda>ch.
     if m_tied ch then
       (case m_tie ch of
          None \<Rightarrow> Inr p
        | Some obj \<Rightarrow>
            if 0 < refs p obj then
              rbind (Channel_handleEventWithGuard run t a (p\<lparr>refs := (refs p)(obj := Suc (refs p obj))\<rparr>)) (release obj)
            else Inr p)
     else Channel_handleEventWithGuard run t a p)"

section \<open>The kernel's interest list\<close>

fun ctl_apply :: "(int \<Rightarrow> (u32 \<times> addr) option) \<Rightarrow> ctl_call \<Rightarrow> (int \<Rightarrow> (u32 \<times> addr) option)" where
  "ctl_apply k (EPOLL_CTL_ADD, fd, ev, a) = k(fd \<mapsto> (ev, a))"
| "ctl_apply k (EPOLL_CTL_MOD, fd, ev, a) = k(fd \<mapsto> (ev, a))"
| "ctl_apply k (EPOLL_CTL_DEL, fd, ev, a) = k(fd := None)"

definition interest :: "ctl_call list \<Rightarrow> int \<Rightarrow> (u32 \<times> addr) option" where
  "interest log = foldl ctl_apply (\<lambda>_. None) log"

text \<open>\<^verbatim>\<open>EEXIST\<close> and \<^verbatim>\<open>ENOENT\<close>: adding a registered descriptor and changing an unregistered one are refused.\<close>

definition conforming :: "ctl_call list \<Rightarrow> ctl_call \<Rightarrow> bool" where
  "conforming log c = (case c of (op, fd, _) \<Rightarrow>
     (if op = EPOLL_CTL_ADD then interest log fd = None else interest log fd \<noteq> None))"

definition kernel_accepts :: "ctl \<Rightarrow> bool" where
  "kernel_accepts ctl \<longleftrightarrow> (\<forall>log c. conforming log c \<longrightarrow> ctl log c)"

lemma interest_Nil [simp]: "interest [] = (\<lambda>_. None)"
  by (simp add: interest_def)

lemma interest_snoc [simp]: "interest (log @ [c]) = ctl_apply (interest log) c"
  by (simp add: interest_def)

lemma kernel_accepts_call: "kernel_accepts ctl \<Longrightarrow> conforming log c \<Longrightarrow> ctl log c"
  unfolding kernel_accepts_def by blast

lemma kinds_distinct [simp]: "kNew \<noteq> kAdded" "kNew \<noteq> kDeleted" "kAdded \<noteq> kDeleted"
  "kAdded \<noteq> kNew" "kDeleted \<noteq> kNew" "kDeleted \<noteq> kAdded"
  by (simp_all add: kNew_def kAdded_def kDeleted_def)

section \<open>Invariant\<close>

text \<open>
  Live channels have distinct descriptors. The map holds the channels that are not \<open>kNew\<close>, and the
  kernel's interest list is exactly the channels that are \<open>kAdded\<close>, each with the events it asks for
  at this moment.
\<close>

definition ep_inv :: "'a poller_scheme \<Rightarrow> bool" where
  "ep_inv p \<longleftrightarrow>
     (\<forall>a b ch dh. channels p a = Some ch \<and> channels p b = Some dh \<and> m_fd ch = m_fd dh \<longrightarrow> a = b) \<and>
     (\<forall>a ch. channels p a = Some ch \<longrightarrow> m_index ch = kNew \<or> m_index ch = kAdded \<or> m_index ch = kDeleted) \<and>
     (\<forall>fd a. m_channel_map p fd = Some a \<longleftrightarrow> (\<exists>ch. channels p a = Some ch \<and> m_fd ch = fd \<and> m_index ch \<noteq> kNew)) \<and>
     (\<forall>fd ev a. interest (ctlLog p) fd = Some (ev, a) \<longleftrightarrow>
        (\<exists>ch. channels p a = Some ch \<and> m_fd ch = fd \<and> m_index ch = kAdded \<and> m_events ch = ev))"

lemma ep_inv_fd: "ep_inv p \<Longrightarrow> channels p a = Some ch \<Longrightarrow> channels p b = Some dh \<Longrightarrow> m_fd ch = m_fd dh \<Longrightarrow> a = b"
  by (simp add: ep_inv_def)

lemma ep_inv_index: "ep_inv p \<Longrightarrow> channels p a = Some ch \<Longrightarrow> m_index ch \<noteq> kNew \<Longrightarrow> m_index ch \<noteq> kAdded \<Longrightarrow> m_index ch = kDeleted"
  by (auto simp: ep_inv_def)

lemma ep_inv_map_iff: "ep_inv p \<Longrightarrow> m_channel_map p fd = Some a \<longleftrightarrow>
    (\<exists>ch. channels p a = Some ch \<and> m_fd ch = fd \<and> m_index ch \<noteq> kNew)"
  by (simp add: ep_inv_def)

lemma ep_inv_interest_iff: "ep_inv p \<Longrightarrow> interest (ctlLog p) fd = Some (ev, a) \<longleftrightarrow>
    (\<exists>ch. channels p a = Some ch \<and> m_fd ch = fd \<and> m_index ch = kAdded \<and> m_events ch = ev)"
  by (simp add: ep_inv_def)

lemma ep_inv_map:
  assumes "ep_inv p" and "channels p a = Some ch"
  shows "m_channel_map p (m_fd ch) = (if m_index ch = kNew then None else Some a)"
proof (cases "m_channel_map p (m_fd ch)")
  case None
  then show ?thesis using ep_inv_map_iff [OF assms(1), of "m_fd ch" a] assms(2) by auto
next
  case (Some b)
  then obtain dh where d: "channels p b = Some dh" "m_fd dh = m_fd ch" "m_index dh \<noteq> kNew"
    using ep_inv_map_iff [OF assms(1)] by blast
  then have "b = a" using ep_inv_fd [OF assms(1) d(1) assms(2)] by simp
  then show ?thesis using Some d assms(2) by simp
qed

lemma ep_inv_interest:
  assumes "ep_inv p" and "channels p a = Some ch"
  shows "interest (ctlLog p) (m_fd ch) = (if m_index ch = kAdded then Some (m_events ch, a) else None)"
proof (cases "interest (ctlLog p) (m_fd ch)")
  case None
  then show ?thesis using ep_inv_interest_iff [OF assms(1), of "m_fd ch" "m_events ch" a] assms(2) by auto
next
  case (Some e)
  then obtain ev b where e: "e = (ev, b)" by (cases e)
  then obtain dh where d: "channels p b = Some dh" "m_fd dh = m_fd ch" "m_index dh = kAdded" "m_events dh = ev"
    using ep_inv_interest_iff [OF assms(1)] Some by blast
  then have "b = a" using ep_inv_fd [OF assms(1) d(1) assms(2)] by simp
  then show ?thesis using Some d e assms(2) by simp
qed

text \<open>What the invariant asks of a state that differs in one channel.\<close>

lemma ep_inv_change:
  assumes inv: "ep_inv p" and a: "channels p a = Some ch"
    and c: "channels q = (channels p)(a \<mapsto> dh)" and fd: "m_fd dh = m_fd ch"
    and ix: "m_index dh = kNew \<or> m_index dh = kAdded \<or> m_index dh = kDeleted"
    and m: "m_channel_map q = (m_channel_map p)(m_fd ch := (if m_index dh = kNew then None else Some a))"
    and k: "interest (ctlLog q) = (interest (ctlLog p))(m_fd ch := (if m_index dh = kAdded then Some (m_events dh, a) else None))"
  shows "ep_inv q"
proof -
  have o: "m_fd eh \<noteq> m_fd ch" if "channels p b = Some eh" "b \<noteq> a" for b eh
    using ep_inv_fd [OF inv a that(1)] that(2) by auto
  have "m_channel_map q fd = Some b \<longleftrightarrow> (\<exists>ch. channels q b = Some ch \<and> m_fd ch = fd \<and> m_index ch \<noteq> kNew)" for fd b
  proof (cases "fd = m_fd ch")
    case True
    then show ?thesis using m c fd o by (cases "b = a") auto
  next
    case False
    then show ?thesis using m c fd a inv by (cases "b = a") (auto simp: ep_inv_def)
  qed
  moreover have "interest (ctlLog q) fd = Some (ev, b) \<longleftrightarrow>
      (\<exists>ch. channels q b = Some ch \<and> m_fd ch = fd \<and> m_index ch = kAdded \<and> m_events ch = ev)" for fd ev b
  proof (cases "fd = m_fd ch")
    case True
    then show ?thesis using k c fd o by (cases "b = a") auto
  next
    case False
    then show ?thesis using k c fd a inv by (cases "b = a") (auto simp: ep_inv_def)
  qed
  moreover have "b = b'" if "channels q b = Some eh" "channels q b' = Some fh" "m_fd eh = m_fd fh" for b b' eh fh
    using that c fd o inv by (auto simp: ep_inv_def split: if_splits)
  moreover have "m_index eh = kNew \<or> m_index eh = kAdded \<or> m_index eh = kDeleted" if "channels q b = Some eh" for b eh
    using that c ix inv by (auto simp: ep_inv_def split: if_splits)
  ultimately show ?thesis unfolding ep_inv_def by blast
qed

section \<open>Operations keep the invariant\<close>

lemmas ch_defs = Channel_at_def Channel_put_def Channel_set_index_def EpollPoller_update_def conforming_def

definition next_index :: "channel \<Rightarrow> u32 \<Rightarrow> int" where
  "next_index ch ev = (if m_index ch = kAdded \<and> ev = 0 then kDeleted else kAdded)"

lemma set_events_ok:
  assumes inv: "ep_inv p" and a: "channels p a = Some ch" and k: "kernel_accepts ctl"
  shows "\<exists>p'. Channel_set_events ctl f a p = Inr p' \<and> ep_inv p' \<and>
    channels p' = (channels p)(a \<mapsto> ch\<lparr>m_events := f (m_events ch), m_index := next_index ch (f (m_events ch))\<rparr>) \<and>
    refs p' = refs p \<and> m_reventList p' = m_reventList p \<and> poller.more p' = poller.more p"
proof -
  note i = ep_inv_interest [OF inv a] and m = ep_inv_map [OF inv a]
  let ?ch = "ch\<lparr>m_events := f (m_events ch)\<rparr>"
  let ?q = "\<lambda>op. p\<lparr>channels := (channels p)(a \<mapsto> ?ch\<lparr>m_index := next_index ch (f (m_events ch))\<rparr>),
      m_channel_map := (m_channel_map p)(m_fd ch \<mapsto> a), ctlLog := ctlLog p @ [(op, m_fd ch, f (m_events ch), a)]\<rparr>"
  have ok: "ep_inv (?q op)" if "op = (if m_index ch \<noteq> kAdded then EPOLL_CTL_ADD
      else if f (m_events ch) = 0 then EPOLL_CTL_DEL else EPOLL_CTL_MOD)" for op
    by (rule ep_inv_change [OF inv a, where dh = "?ch\<lparr>m_index := next_index ch (f (m_events ch))\<rparr>"])
       (auto simp: that next_index_def)
  have acc: "ctl (ctlLog p) (op, m_fd ch, f (m_events ch), a)"
    if "(op = EPOLL_CTL_ADD) = (m_index ch \<noteq> kAdded)" for op
    using that i by (intro kernel_accepts_call [OF k]) (auto simp: conforming_def)
  consider "m_index ch = kNew" | "m_index ch = kDeleted" | "m_index ch = kAdded" "f (m_events ch) = 0"
    | "m_index ch = kAdded" "f (m_events ch) \<noteq> 0" using ep_inv_index [OF inv a] by blast
  then show ?thesis
  proof cases
    case 1
    then show ?thesis using a acc ok
      by (intro exI [of _ "?q EPOLL_CTL_ADD"])
         (simp add: Channel_set_events_def EpollPoller_updateChannel_def ch_defs next_index_def)
  next
    case 2
    then have "(m_channel_map p)(m_fd ch \<mapsto> a) = m_channel_map p" using m by (auto simp: fun_eq_iff)
    then show ?thesis using 2 a acc ok
      by (intro exI [of _ "?q EPOLL_CTL_ADD"])
         (simp add: Channel_set_events_def EpollPoller_updateChannel_def ch_defs next_index_def)
  next
    case 3
    then have "(m_channel_map p)(m_fd ch \<mapsto> a) = m_channel_map p" using m by (auto simp: fun_eq_iff)
    then show ?thesis using 3 a acc ok
      by (intro exI [of _ "?q EPOLL_CTL_DEL"])
         (simp add: Channel_set_events_def EpollPoller_updateChannel_def ch_defs next_index_def
           Channel_isNoneEvent_def kNoneEvent_def)
  next
    case 4
    then have "(m_channel_map p)(m_fd ch \<mapsto> a) = m_channel_map p" using m by (auto simp: fun_eq_iff)
    moreover have r: "ch\<lparr>m_events := x, m_index := kAdded\<rparr> = ch\<lparr>m_events := x\<rparr>" for x using 4 by (cases ch) simp
    ultimately show ?thesis using 4 a acc ok [of EPOLL_CTL_MOD]
      by (intro exI [of _ "?q EPOLL_CTL_MOD"])
         (simp add: r Channel_set_events_def EpollPoller_updateChannel_def ch_defs next_index_def
           Channel_isNoneEvent_def kNoneEvent_def)
  qed
qed

lemma remove_ok:
  assumes inv: "ep_inv p" and a: "channels p a = Some ch" and k: "kernel_accepts ctl"
  shows "\<exists>p'. Channel_remove ctl a p = Inr p' \<and> ep_inv p' \<and>
    channels p' = (channels p)(a \<mapsto> ch\<lparr>m_index := kNew\<rparr>) \<and>
    refs p' = refs p \<and> m_reventList p' = m_reventList p \<and> poller.more p' = poller.more p"
proof -
  note i = ep_inv_interest [OF inv a]
  let ?q = "p\<lparr>channels := (channels p)(a \<mapsto> ch\<lparr>m_index := kNew\<rparr>), m_channel_map := (m_channel_map p)(m_fd ch := None)\<rparr>"
  show ?thesis
  proof (cases "m_index ch = kAdded")
    case True
    let ?c = "(EPOLL_CTL_DEL, m_fd ch, m_events ch, a)"
    have "ctl (ctlLog p) ?c" using True i by (intro kernel_accepts_call [OF k]) (auto simp: conforming_def)
    moreover have "ep_inv (?q\<lparr>ctlLog := ctlLog p @ [?c]\<rparr>)"
      by (rule ep_inv_change [OF inv a, where dh = "ch\<lparr>m_index := kNew\<rparr>"]) auto
    ultimately show ?thesis using True a
      by (intro exI [of _ "?q\<lparr>ctlLog := ctlLog p @ [?c]\<rparr>"])
         (simp add: Channel_remove_def EpollPoller_removeChannel_def ch_defs)
  next
    case False
    then have "(interest (ctlLog p))(m_fd ch := None) = interest (ctlLog p)" using i by (auto simp: fun_eq_iff)
    then have "ep_inv ?q"
      by (intro ep_inv_change [OF inv a, where dh = "ch\<lparr>m_index := kNew\<rparr>"]) auto
    then show ?thesis using False a
      by (intro exI [of _ ?q]) (simp add: Channel_remove_def EpollPoller_removeChannel_def ch_defs)
  qed
qed

lemma new_ok:
  assumes inv: "ep_inv p" and a: "channels p a = None" and fd: "\<forall>b dh. channels p b = Some dh \<longrightarrow> m_fd dh \<noteq> fd"
  shows "ep_inv (Channel_put a (Channel_new fd) p)"
proof -
  have "m_index (Channel_new fd) = kNew" "m_fd (Channel_new fd) = fd" by (simp_all add: Channel_new_def kNew_def)
  then show ?thesis using inv a fd unfolding ep_inv_def Channel_put_def by simp (metis kinds_distinct(1))
qed

text \<open>Changes to a channel that the poller does not look at.\<close>

lemma ep_inv_put:
  assumes inv: "ep_inv p" and a: "channels p a = Some ch"
    and s: "m_fd dh = m_fd ch" "m_index dh = m_index ch" "m_events dh = m_events ch"
  shows "ep_inv (Channel_put a dh p)"
  by (rule ep_inv_change [OF inv a, where dh = dh])
     (use s ep_inv_index [OF inv a] in \<open>auto simp: Channel_put_def fun_eq_iff ep_inv_map [OF inv a] ep_inv_interest [OF inv a]\<close>)

definition Channel_delete :: "addr \<Rightarrow> 'a poller_scheme \<Rightarrow> 'a poller_scheme" where
  "Channel_delete a p = p\<lparr>channels := (channels p)(a := None)\<rparr>"

lemma delete_ok:
  assumes inv: "ep_inv p" and a: "channels p a = Some ch" and ix: "m_index ch = kNew"
  shows "ep_inv (Channel_delete a p)"
  using inv a ix unfolding ep_inv_def Channel_delete_def by simp

section \<open>Registration as a table of watched channels\<close>

text \<open>
  The contract of a poller with the code above it. A channel is \<open>Unregistered\<close>, \<open>Watched\<close> by the
  kernel, or \<open>Parked\<close> (still in the map, but out of the kernel's list because it asked for no events).
\<close>

datatype watch = Unregistered | Watched | Parked

type_synonym watch_tab = "addr \<Rightarrow> (int \<times> u32 \<times> watch) option"

datatype ch_cmd = CmdNew addr int | CmdSet addr "u32 \<Rightarrow> u32" | CmdRemove addr | CmdDelete addr

fun table_step :: "watch_tab \<Rightarrow> ch_cmd \<Rightarrow> watch_tab" where
  "table_step T (CmdNew a fd) = T(a \<mapsto> (fd, 0, Unregistered))"
| "table_step T (CmdSet a f) = (case T a of None \<Rightarrow> T
     | Some (fd, e, w) \<Rightarrow> T(a \<mapsto> (fd, f e, if w = Watched \<and> f e = 0 then Parked else Watched)))"
| "table_step T (CmdRemove a) = (case T a of None \<Rightarrow> T | Some (fd, e, w) \<Rightarrow> T(a \<mapsto> (fd, e, Unregistered)))"
| "table_step T (CmdDelete a) = T(a := None)"

text \<open>
  A new channel has a descriptor that no live channel uses, a channel in use is alive, and it is
  removed from the poller before it is destroyed.
\<close>

fun legal :: "watch_tab \<Rightarrow> ch_cmd \<Rightarrow> bool" where
  "legal T (CmdNew a fd) \<longleftrightarrow> T a = None \<and> (\<forall>b. T b = None \<or> fst (the (T b)) \<noteq> fd)"
| "legal T (CmdSet a f) \<longleftrightarrow> T a \<noteq> None"
| "legal T (CmdRemove a) \<longleftrightarrow> T a \<noteq> None"
| "legal T (CmdDelete a) \<longleftrightarrow> (case T a of None \<Rightarrow> False | Some (fd, e, w) \<Rightarrow> w = Unregistered)"

fun legal_run :: "watch_tab \<Rightarrow> ch_cmd list \<Rightarrow> bool" where
  "legal_run T [] \<longleftrightarrow> True"
| "legal_run T (c # cs) \<longleftrightarrow> legal T c \<and> legal_run (table_step T c) cs"

fun run_cmds :: "(ch_cmd \<Rightarrow> 'p \<Rightarrow> 'p res) \<Rightarrow> ch_cmd list \<Rightarrow> 'p \<Rightarrow> 'p res" where
  "run_cmds exec [] p = Inr p"
| "run_cmds exec (c # cs) p = rbind (exec c p) (run_cmds exec cs)"

locale watch_table =
  fixes invar :: "'p \<Rightarrow> bool"
    and tab :: "'p \<Rightarrow> watch_tab"
    and exec :: "ch_cmd \<Rightarrow> 'p \<Rightarrow> 'p res"
  assumes exec_ok: "invar p \<Longrightarrow> legal (tab p) c \<Longrightarrow>
    \<exists>p'. exec c p = Inr p' \<and> invar p' \<and> tab p' = table_step (tab p) c"
begin

lemma run_ok:
  "invar p \<Longrightarrow> legal_run (tab p) cs \<Longrightarrow>
    \<exists>p'. run_cmds exec cs p = Inr p' \<and> invar p' \<and> tab p' = foldl table_step (tab p) cs"
proof (induction cs arbitrary: p)
  case (Cons c cs)
  then obtain p1 where p1: "exec c p = Inr p1" "invar p1" "tab p1 = table_step (tab p) c"
    using exec_ok by fastforce
  then show ?case using Cons.IH [of p1] Cons.prems by auto
qed simp

end

definition ch_watch :: "channel \<Rightarrow> watch" where
  "ch_watch ch = (if m_index ch = kNew then Unregistered else if m_index ch = kAdded then Watched else Parked)"

definition ch_table :: "'a poller_scheme \<Rightarrow> watch_tab" where
  "ch_table p a = map_option (\<lambda>ch. (m_fd ch, m_events ch, ch_watch ch)) (channels p a)"

fun ch_exec :: "ctl \<Rightarrow> ch_cmd \<Rightarrow> 'a poller_scheme \<Rightarrow> 'a poller_scheme res" where
  "ch_exec ctl (CmdNew a fd) p = Inr (Channel_put a (Channel_new fd) p)"
| "ch_exec ctl (CmdSet a f) p = Channel_set_events ctl f a p"
| "ch_exec ctl (CmdRemove a) p = Channel_remove ctl a p"
| "ch_exec ctl (CmdDelete a) p = Inr (Channel_delete a p)"

lemma ch_table_put:
  "channels p' = (channels p)(a \<mapsto> ch) \<Longrightarrow> ch_table p' = (ch_table p)(a \<mapsto> (m_fd ch, m_events ch, ch_watch ch))"
  by (simp add: ch_table_def fun_eq_iff)

lemma ch_exec_ok:
  assumes inv: "ep_inv p" and k: "kernel_accepts ctl" and l: "legal (ch_table p) c"
  shows "\<exists>p'. ch_exec ctl c p = Inr p' \<and> ep_inv p' \<and> ch_table p' = table_step (ch_table p) c"
proof (cases c)
  case (CmdNew a fd)
  have "m_fd dh \<noteq> fd" if "channels p b = Some dh" for b dh
    using l CmdNew that by (auto simp: ch_table_def dest!: spec [of _ b])
  moreover have "channels p a = None" using l CmdNew by (simp add: ch_table_def)
  ultimately have "channels p a = None" "\<forall>b dh. channels p b = Some dh \<longrightarrow> m_fd dh \<noteq> fd" by blast+
  from new_ok [OF inv this] show ?thesis
    using CmdNew by (auto simp: ch_table_def fun_eq_iff Channel_put_def Channel_new_def ch_watch_def kNew_def)
next
  case (CmdSet a f)
  then obtain ch where a: "channels p a = Some ch" using l by (auto simp: ch_table_def)
  from set_events_ok [OF inv this k, of f] obtain p' where "Channel_set_events ctl f a p = Inr p'" "ep_inv p'"
    "channels p' = (channels p)(a \<mapsto> ch\<lparr>m_events := f (m_events ch), m_index := next_index ch (f (m_events ch))\<rparr>)"
    by blast
  moreover have "m_index ch = kAdded \<longleftrightarrow> ch_watch ch = Watched" by (auto simp: ch_watch_def)
  ultimately show ?thesis using CmdSet a ch_table_put [of p' p a]
    by (simp add: next_index_def ch_watch_def) (simp add: ch_table_def ch_watch_def)
next
  case (CmdRemove a)
  then obtain ch where a: "channels p a = Some ch" using l by (auto simp: ch_table_def)
  from remove_ok [OF inv this k] obtain p' where "Channel_remove ctl a p = Inr p'" "ep_inv p'"
    "channels p' = (channels p)(a \<mapsto> ch\<lparr>m_index := kNew\<rparr>)" by blast
  then show ?thesis using CmdRemove a ch_table_put [of p' p a] by (simp add: ch_watch_def) (simp add: ch_table_def)
next
  case (CmdDelete a)
  then obtain ch where a: "channels p a = Some ch" "ch_watch ch = Unregistered" using l by (auto simp: ch_table_def split: option.splits)
  then have "m_index ch = kNew" by (auto simp: ch_watch_def split: if_splits)
  from delete_ok [OF inv a(1) this] show ?thesis
    using CmdDelete by (auto simp: ch_table_def fun_eq_iff Channel_delete_def)
qed

interpretation ep: watch_table "\<lambda>p. ep_inv p \<and> kernel_accepts ctl" ch_table "ch_exec ctl" for ctl
  by unfold_locales (use ch_exec_ok in blast)

lemma interest_table:
  assumes "ep_inv p"
  shows "interest (ctlLog p) fd = Some (ev, a) \<longleftrightarrow> ch_table p a = Some (fd, ev, Watched)"
  using ep_inv_interest_iff [OF assms] by (auto simp: ch_table_def ch_watch_def split: if_splits)

section \<open>Polling and dispatching\<close>

lemma fill_ok:
  assumes "\<forall>(ev, a) \<in> set evs. channels p a \<noteq> None"
  shows "\<exists>p'. fillActiveChannels evs p = Inr (map snd evs, p') \<and> p' = p\<lparr>channels := channels p'\<rparr> \<and>
    (\<forall>a. channels p' a = (case channels p a of None \<Rightarrow> None
       | Some ch \<Rightarrow> Some (case map_of (rev (map prod.swap evs)) a of None \<Rightarrow> ch | Some ev \<Rightarrow> ch\<lparr>m_revents := ev\<rparr>)))"
  using assms
proof (induction evs arbitrary: p)
  case (Cons e evs)
  obtain ev a where e: "e = (ev, a)" by (cases e)
  obtain ch where a: "channels p a = Some ch" using Cons.prems e by auto
  let ?p = "Channel_put a (ch\<lparr>m_revents := ev\<rparr>) p"
  have "\<forall>(ev, a) \<in> set evs. channels ?p a \<noteq> None" using Cons.prems by (auto simp: Channel_put_def)
  from Cons.IH [OF this] obtain p' where p': "fillActiveChannels evs ?p = Inr (map snd evs, p')"
    "p' = ?p\<lparr>channels := channels p'\<rparr>"
    "\<forall>b. channels p' b = (case channels ?p b of None \<Rightarrow> None
       | Some ch \<Rightarrow> Some (case map_of (rev (map prod.swap evs)) b of None \<Rightarrow> ch | Some ev \<Rightarrow> ch\<lparr>m_revents := ev\<rparr>))"
    by blast
  have "p' = p\<lparr>channels := channels p'\<rparr>" by (subst p'(2)) (simp add: Channel_put_def)
  moreover have "\<forall>b. channels p' b = (case channels p b of None \<Rightarrow> None
       | Some ch \<Rightarrow> Some (case map_of (rev (map prod.swap (e # evs))) b of None \<Rightarrow> ch | Some ev \<Rightarrow> ch\<lparr>m_revents := ev\<rparr>))"
    using p'(3) a e by (auto simp: Channel_put_def map_add_def split: option.splits)
  ultimately show ?case using p'(1) a e by (auto simp: Channel_at_def)
qed (simp split: option.split)

text \<open>The callbacks an event mask calls for, in the order of the code.\<close>

definition dispatch :: "channel \<Rightarrow> nat list" where
  "dispatch ch = concat (map (\<lambda>(c, f). if c then (case f of None \<Rightarrow> [] | Some g \<Rightarrow> [g]) else [])
     [(m_revents ch AND EPOLLHUP \<noteq> 0 \<and> m_revents ch AND EPOLLIN = 0, m_closeCallBack ch),
      (m_revents ch AND EPOLLERR \<noteq> 0, m_errorCallBack ch),
      (m_revents ch AND (EPOLLIN OR EPOLLPRI) \<noteq> 0, m_readCallBack ch),
      (m_revents ch AND EPOLLOUT \<noteq> 0, m_writeCallBack ch)])"

fun run_all ::
    "(nat \<Rightarrow> timestamp \<Rightarrow> 'a poller_scheme \<Rightarrow> 'a poller_scheme res) \<Rightarrow> timestamp \<Rightarrow> nat list \<Rightarrow>
      'a poller_scheme \<Rightarrow> 'a poller_scheme res" where
  "run_all run t [] p = Inr p"
| "run_all run t (f # fs) p = rbind (run f t p) (run_all run t fs)"

lemma run_all_append: "run_all run t (fs @ gs) p = rbind (run_all run t fs p) (run_all run t gs)"
  by (induction fs arbitrary: p) (simp_all add: rbind_assoc cong: rbind_cong)

definition same_handlers :: "channel \<Rightarrow> channel \<Rightarrow> bool" where
  "same_handlers ch dh \<longleftrightarrow> m_revents dh = m_revents ch \<and> m_readCallBack dh = m_readCallBack ch \<and>
     m_writeCallBack dh = m_writeCallBack ch \<and> m_errorCallBack dh = m_errorCallBack ch \<and>
     m_closeCallBack dh = m_closeCallBack ch"

text \<open>Callbacks neither destroy the channel being handled nor change its handlers.\<close>

definition keeps_channel ::
    "(nat \<Rightarrow> timestamp \<Rightarrow> 'a poller_scheme \<Rightarrow> 'a poller_scheme res) \<Rightarrow> addr \<Rightarrow> bool" where
  "keeps_channel run a \<longleftrightarrow> (\<forall>f t p p' ch. run f t p = Inr p' \<and> channels p a = Some ch \<longrightarrow>
     (\<exists>dh. channels p' a = Some dh \<and> same_handlers ch dh))"

definition fire_list :: "(channel \<Rightarrow> bool) \<Rightarrow> (channel \<Rightarrow> nat option) \<Rightarrow> channel \<Rightarrow> nat list" where
  "fire_list cond cb ch = (if cond ch then (case cb ch of None \<Rightarrow> [] | Some g \<Rightarrow> [g]) else [])"

lemma fire_step:
  assumes k: "keeps_channel run a" and p: "channels p a = Some dh" "same_handlers ch dh"
    and c: "\<And>dh. same_handlers ch dh \<Longrightarrow> cond dh = cond ch \<and> cb dh = cb ch"
    and g: "\<And>p'. \<exists>dh. channels p' a = Some dh \<and> same_handlers ch dh \<Longrightarrow> g p' = run_all run t fs p'"
  shows "rbind (Channel_fire run cond cb t a p) g = run_all run t (fire_list cond cb ch @ fs) p"
proof (cases "cond ch \<and> cb ch \<noteq> None")
  case True
  then obtain f where f: "cb ch = Some f" by blast
  have "g p' = run_all run t fs p'" if r: "run f t p = Inr p'" for p'
  proof (rule g)
    obtain eh where "channels p' a = Some eh" "same_handlers dh eh"
      using k p(1) r unfolding keeps_channel_def by blast
    then show "\<exists>dh. channels p' a = Some dh \<and> same_handlers ch dh" using p(2) by (auto simp: same_handlers_def)
  qed
  then show ?thesis using True f p c [OF p(2)]
    by (auto simp: Channel_fire_def Channel_at_def fire_list_def intro: rbind_cong)
next
  case False
  then show ?thesis using p c [OF p(2)] g [of p]
    by (auto simp: Channel_fire_def Channel_at_def fire_list_def split: option.splits)
qed

lemma fire_last:
  assumes "keeps_channel run a" and "channels p a = Some dh" "same_handlers ch dh"
    and "\<And>dh. same_handlers ch dh \<Longrightarrow> cond dh = cond ch \<and> cb dh = cb ch"
  shows "Channel_fire run cond cb t a p = run_all run t (fire_list cond cb ch) p"
  using fire_step [of run a p dh ch cond cb Inr t "[]"] assms by simp

lemma handleEventWithGuard_dispatch:
  assumes k: "keeps_channel run a" and p: "channels p a = Some ch"
  shows "Channel_handleEventWithGuard run t a p = run_all run t (dispatch ch) p"
proof -
  let ?c1 = "\<lambda>ch. m_revents ch AND EPOLLHUP \<noteq> 0 \<and> m_revents ch AND EPOLLIN = 0"
  let ?c2 = "\<lambda>ch. m_revents ch AND EPOLLERR \<noteq> 0" and ?c4 = "\<lambda>ch. m_revents ch AND EPOLLOUT \<noteq> 0"
  let ?c3 = "\<lambda>ch. m_revents ch AND (EPOLLIN OR EPOLLPRI) \<noteq> 0"
  let ?ok = "\<lambda>q. \<exists>dh. channels q a = Some dh \<and> same_handlers ch dh"
  let ?l4 = "fire_list ?c4 m_writeCallBack ch" and ?l3 = "fire_list ?c3 m_readCallBack ch"
  let ?l2 = "fire_list ?c2 m_errorCallBack ch" and ?l1 = "fire_list ?c1 m_closeCallBack ch"
  have d: "dispatch ch = ?l1 @ ?l2 @ ?l3 @ ?l4" by (simp add: dispatch_def fire_list_def)
  have f4: "Channel_fire run ?c4 m_writeCallBack t a q = run_all run t ?l4 q" if "?ok q" for q
    using that by (elim exE conjE) (rule fire_last [OF k], assumption+, simp add: same_handlers_def)
  have f3: "rbind (Channel_fire run ?c3 m_readCallBack t a q) (Channel_fire run ?c4 m_writeCallBack t a) =
      run_all run t (?l3 @ ?l4) q" if "?ok q" for q
    using that by (elim exE conjE) (rule fire_step [OF k], assumption+, simp add: same_handlers_def, rule f4)
  have f2: "rbind (Channel_fire run ?c2 m_errorCallBack t a q) (\<lambda>p.
      rbind (Channel_fire run ?c3 m_readCallBack t a p) (Channel_fire run ?c4 m_writeCallBack t a)) =
      run_all run t (?l2 @ ?l3 @ ?l4) q" if "?ok q" for q
    using that by (elim exE conjE) (rule fire_step [OF k], assumption+, simp add: same_handlers_def, rule f3)
  have "same_handlers ch ch" by (simp add: same_handlers_def)
  then show ?thesis unfolding Channel_handleEventWithGuard_def d
    by (intro fire_step [OF k p]) (simp, simp add: same_handlers_def, rule f2)
qed

lemma ep_inv_revents:
  assumes inv: "ep_inv p" and c: "\<And>a. channels p' a = map_option (\<lambda>ch. ch\<lparr>m_revents := r a ch\<rparr>) (channels p a)"
    and m: "m_channel_map p' = m_channel_map p" and l: "ctlLog p' = ctlLog p"
  shows "ep_inv p'"
proof -
  have e: "(\<exists>ch. channels p' a = Some ch \<and> P (m_fd ch) (m_index ch) (m_events ch)) \<longleftrightarrow>
      (\<exists>ch. channels p a = Some ch \<and> P (m_fd ch) (m_index ch) (m_events ch))" for P a
    by (auto simp: c)
  have "m_channel_map p' fd = Some a \<longleftrightarrow> (\<exists>ch. channels p' a = Some ch \<and> m_fd ch = fd \<and> m_index ch \<noteq> kNew)" for fd a
    using ep_inv_map_iff [OF inv] e [of a "\<lambda>f i e. f = fd \<and> i \<noteq> kNew"] by (simp add: m)
  moreover have "interest (ctlLog p') fd = Some (ev, a) \<longleftrightarrow>
      (\<exists>ch. channels p' a = Some ch \<and> m_fd ch = fd \<and> m_index ch = kAdded \<and> m_events ch = ev)" for fd ev a
    using ep_inv_interest_iff [OF inv] e [of a "\<lambda>f i e. f = fd \<and> i = kAdded \<and> e = ev"] by (simp add: l)
  moreover have "a = b" if "channels p' a = Some ch" "channels p' b = Some dh" "m_fd ch = m_fd dh" for a b ch dh
    using that ep_inv_fd [OF inv] by (auto simp: c)
  moreover have "m_index ch = kNew \<or> m_index ch = kAdded \<or> m_index ch = kDeleted" if h: "channels p' a = Some ch" for a ch
  proof -
    obtain z where "channels p a = Some z" "m_index ch = m_index z" using h by (auto simp: c)
    then show ?thesis using ep_inv_index [OF inv] by auto
  qed
  ultimately show ?thesis unfolding ep_inv_def by blast
qed

lemma event_bits:
  "(e OR kReadEvent) AND kReadEvent \<noteq> 0" "(e OR kReadEvent) AND kWriteEvent = e AND kWriteEvent"
  "(e OR kWriteEvent) AND kWriteEvent \<noteq> 0" "(e OR kWriteEvent) AND kReadEvent = e AND kReadEvent"
  "(e AND NOT kReadEvent) AND kReadEvent = 0" "(e AND NOT kReadEvent) AND kWriteEvent = e AND kWriteEvent"
  "(e AND NOT kWriteEvent) AND kWriteEvent = 0" "(e AND NOT kWriteEvent) AND kReadEvent = e AND kReadEvent"
  "e OR kReadEvent \<noteq> 0" "e OR kWriteEvent \<noteq> 0"
proof -
  have v: "kReadEvent = 3" "kWriteEvent = 4"
    by (simp_all add: kReadEvent_def kWriteEvent_def EPOLLIN_def EPOLLPRI_def EPOLLOUT_def)
  have a: "(e OR x) AND x = x" "(e AND NOT x) AND x = 0" for x :: u32
    by (rule bit_eqI, auto simp: bit_simps)+
  have d: "(e OR x) AND y = (e AND y) OR (x AND y)" "(e AND NOT x) AND y = e AND (NOT x AND y)" for x y :: u32
    by (rule bit_eqI, auto simp: bit_simps)+
  show "(e OR kReadEvent) AND kReadEvent \<noteq> 0" "(e OR kWriteEvent) AND kWriteEvent \<noteq> 0"
    "(e AND NOT kReadEvent) AND kReadEvent = 0" "(e AND NOT kWriteEvent) AND kWriteEvent = 0"
    by (simp_all add: a) (simp_all add: v)
  then show "e OR kReadEvent \<noteq> 0" "e OR kWriteEvent \<noteq> 0" by (metis and_zero_eq and.commute)+
  show "(e OR kReadEvent) AND kWriteEvent = e AND kWriteEvent" "(e OR kWriteEvent) AND kReadEvent = e AND kReadEvent"
    "(e AND NOT kReadEvent) AND kWriteEvent = e AND kWriteEvent" "(e AND NOT kWriteEvent) AND kReadEvent = e AND kReadEvent"
    unfolding d by (simp_all add: v)
qed

text \<open>A kernel that accepts every conforming call, for the witnesses.\<close>

definition ex_ctl :: ctl where
  "ex_ctl = conforming"

lemma ex_ctl_accepts: "kernel_accepts ex_ctl"
  by (simp add: kernel_accepts_def ex_ctl_def)

definition ex_poller :: poller where
  "ex_poller = \<lparr>channels = [5 \<mapsto> (Channel_new 3)\<lparr>m_events := 3, m_index := kAdded, m_readCallBack := Some 7\<rparr>],
     m_channel_map = [3 \<mapsto> 5], m_reventList = 16, ctlLog = [(EPOLL_CTL_ADD, 3, 3, 5)], refs = (\<lambda>_. 0)\<rparr>"

lemma ex_poller_inv: "ep_inv ex_poller"
  by (auto simp: ep_inv_def ex_poller_def Channel_new_def interest_def)

section \<open>Properties\<close>

text \<open>C12: After any legal sequence of channel creations, event changes, removals and destructions no
  \<^verbatim>\<open>epoll_ctl\<close> call has failed, and the kernel's interest list is exactly the set of channels that the
  sequence leaves watched, each with the events it last asked for; it never holds a destroyed
  channel.\<close>

theorem Poller_interest_refines:
  assumes "kernel_accepts ctl" and "EpollPoller_new epollfd = Inr p" and "legal_run (\<lambda>_. None) cs"
  shows "\<exists>p'. run_cmds (ch_exec ctl) cs p = Inr p' \<and> ep_inv p' \<and>
    (\<forall>fd ev a. interest (ctlLog p') fd = Some (ev, a) \<longleftrightarrow>
       foldl table_step (\<lambda>_. None) cs a = Some (fd, ev, Watched))"
proof -
  have p: "ep_inv p" "ch_table p = (\<lambda>_. None)"
    using assms(2) by (auto simp: EpollPoller_new_def rbind_eq_Inr check_def ep_inv_def ch_table_def split: if_splits)
  then obtain p' where p': "run_cmds (ch_exec ctl) cs p = Inr p'" "ep_inv p'"
    "ch_table p' = foldl table_step (\<lambda>_. None) cs"
    using ep.run_ok [of p ctl cs] assms by auto
  show ?thesis using p' interest_table [OF p'(2)] by auto
qed

theorem Poller_interest_refines_witness:
  "\<exists>p p'. EpollPoller_new 4 = Inr p \<and>
     run_cmds (ch_exec ex_ctl) [CmdNew 5 3, CmdSet 5 (\<lambda>e. e OR kReadEvent), CmdNew 6 9, CmdSet 6 (\<lambda>e. e OR kWriteEvent),
       CmdSet 5 (\<lambda>_. 0), CmdRemove 5, CmdDelete 5] p = Inr p' \<and>
     interest (ctlLog p') 9 = Some (4, 6) \<and> (\<forall>ev a. interest (ctlLog p') 3 \<noteq> Some (ev, a))"
proof -
  let ?cs = "[CmdNew 5 3, CmdSet 5 (\<lambda>e. e OR kReadEvent), CmdNew 6 9, CmdSet 6 (\<lambda>e. e OR kWriteEvent),
       CmdSet 5 (\<lambda>_. 0), CmdRemove 5, CmdDelete 5]"
  obtain p where p: "EpollPoller_new 4 = Inr p" by (simp add: EpollPoller_new_def)
  have l: "legal_run (\<lambda>_. None) ?cs" by (simp add: kReadEvent_def kWriteEvent_def EPOLLIN_def EPOLLPRI_def EPOLLOUT_def)
  obtain p' where p': "run_cmds (ch_exec ex_ctl) ?cs p = Inr p'" "\<forall>fd ev a. interest (ctlLog p') fd = Some (ev, a) \<longleftrightarrow>
       foldl table_step (\<lambda>_. None) ?cs a = Some (fd, ev, Watched)"
    using Poller_interest_refines [OF ex_ctl_accepts p l] by blast
  have "interest (ctlLog p') 9 = Some (4, 6) \<and> (\<forall>ev a. interest (ctlLog p') 3 \<noteq> Some (ev, a))"
    unfolding p'(2) [rule_format]
    by (simp add: kReadEvent_def kWriteEvent_def EPOLLIN_def EPOLLPRI_def EPOLLOUT_def)
  with p p'(1) show ?thesis by blast
qed

text \<open>Disabling a channel and removing it, as every owner does before destroying it, leaves neither the
  map nor the kernel with a pointer to it, so destroying it afterwards is safe.\<close>

lemma Channel_remove_forgets:
  assumes "ep_inv p" and "channels p a = Some ch" and "kernel_accepts ctl"
  shows "\<exists>p'. rbind (Channel_disableAll ctl a p) (Channel_remove ctl a) = Inr p' \<and>
    (\<forall>fd ev. interest (ctlLog p') fd \<noteq> Some (ev, a)) \<and> (\<forall>fd. m_channel_map p' fd \<noteq> Some a) \<and>
    ep_inv p' \<and> ep_inv (Channel_delete a p')"
proof -
  obtain p1 where p1: "Channel_disableAll ctl a p = Inr p1" "ep_inv p1"
    "channels p1 a = Some (ch\<lparr>m_events := kNoneEvent, m_index := next_index ch kNoneEvent\<rparr>)"
    using set_events_ok [OF assms, of "\<lambda>_. kNoneEvent"] by (auto simp: Channel_disableAll_def)
  obtain p2 where p2: "Channel_remove ctl a p1 = Inr p2" "ep_inv p2" "\<exists>dh. channels p2 a = Some dh \<and> m_index dh = kNew"
    using remove_ok [OF p1(2,3) assms(3)] by auto
  have "interest (ctlLog p2) fd \<noteq> Some (ev, a)" "m_channel_map p2 fd \<noteq> Some a" for fd ev
    using p2(3) by (auto simp: ep_inv_interest_iff [OF p2(2)] ep_inv_map_iff [OF p2(2)])
  moreover have "ep_inv (Channel_delete a p2)" using p2(2,3) delete_ok by blast
  ultimately show ?thesis using p1(1) p2(1,2) by auto
qed

text \<open>C27: When the kernel reports only descriptors it was asked to watch, \<^verbatim>\<open>poll\<close> never dereferences a
  destroyed channel: it returns the reported channels in order, each with its reported events, and
  doubles its event list when it was full.\<close>

theorem EpollPoller_poll_spec:
  assumes inv: "ep_inv p" and w: "wait (sint (of_nat (m_reventList p) :: u32)) = Inr evs"
    and r: "\<forall>(ev, a) \<in> set evs. \<exists>fd e. interest (ctlLog p) fd = Some (e, a)" and d: "distinct (map snd evs)"
    and n: "m_reventList p * 2 \<le> revent_max"
  shows "\<exists>p'. EpollPoller_poll wait now p = Inr (now, map snd evs, p') \<and> ep_inv p' \<and>
    (\<forall>(ev, a) \<in> set evs. \<exists>ch. channels p' a = Some ch \<and> m_revents ch = ev) \<and>
    m_reventList p' = (if evs \<noteq> [] \<and> length evs = m_reventList p then m_reventList p * 2 else m_reventList p)"
proof (cases evs)
  case Nil
  then show ?thesis using w inv by (simp add: EpollPoller_poll_def)
next
  case (Cons e es)
  have live: "\<forall>(ev, a) \<in> set evs. channels p a \<noteq> None" using r ep_inv_interest_iff [OF inv] by fastforce
  obtain p' where p': "fillActiveChannels evs p = Inr (map snd evs, p')" "p' = p\<lparr>channels := channels p'\<rparr>"
    "\<forall>a. channels p' a = (case channels p a of None \<Rightarrow> None
       | Some ch \<Rightarrow> Some (case map_of (rev (map prod.swap evs)) a of None \<Rightarrow> ch | Some ev \<Rightarrow> ch\<lparr>m_revents := ev\<rparr>))"
    using fill_ok [OF live] by blast
  have f: "m_reventList p' = m_reventList p" "m_channel_map p' = m_channel_map p" "ctlLog p' = ctlLog p"
    by (subst p'(2), simp)+
  let ?r = "\<lambda>a ch. case map_of (rev (map prod.swap evs)) a of None \<Rightarrow> m_revents ch | Some ev \<Rightarrow> ev"
  have "channels p' a = map_option (\<lambda>ch. ch\<lparr>m_revents := ?r a ch\<rparr>) (channels p a)" for a
    using p'(3) by (auto split: option.splits)
  then have i: "ep_inv p'" using f(2,3) by (intro ep_inv_revents [OF inv, of _ ?r])
  then have i': "ep_inv (p'\<lparr>m_reventList := k\<rparr>)" for k by (simp add: ep_inv_def)
  have "distinct (map fst (rev (map prod.swap evs)))" using d by (simp add: comp_def rev_map [symmetric])
  then have "map_of (rev (map prod.swap evs)) a = Some ev" if "(ev, a) \<in> set evs" for ev a
    using that by (intro map_of_is_SomeI) force+
  then have v: "\<exists>ch. channels p' a = Some ch \<and> m_revents ch = ev" if "(ev, a) \<in> set evs" for ev a
    using p'(3) live that by (fastforce split: option.splits)
  have "EpollPoller_poll wait now p = Inr (now, map snd evs,
      if length evs = m_reventList p then p'\<lparr>m_reventList := m_reventList p * 2\<rparr> else p')"
    using w n p'(1) Cons by (simp add: EpollPoller_poll_def f)
  then show ?thesis using i i' v f Cons by (auto split: if_splits)
qed

theorem EpollPoller_poll_spec_witness:
  "\<exists>p'. EpollPoller_poll (\<lambda>_. Inr [(1, 5)]) 42 ex_poller = Inr (42, [5], p') \<and> m_reventList p' = 16"
proof -
  have "\<exists>fd e. interest (ctlLog ex_poller) fd = Some (e, 5)"
    by (rule exI [of _ 3]) (simp add: ex_poller_def interest_def)
  then show ?thesis
    using EpollPoller_poll_spec [OF ex_poller_inv, of "\<lambda>_. Inr [(1, 5)]" "[(1, 5)]" 42]
    by (auto simp: ex_poller_def revent_max_def)
qed

text \<open>C28: Handling an event calls, in this order, the close callback (hang-up without readable data), the
  error, the read and the write callback that the reported events ask for and that are set, when
  the channel is not tied or its owner is still alive; a tied channel whose owner is gone is not
  touched.\<close>

theorem Channel_handleEvent_dispatch:
  assumes "keeps_channel run a" and "channels p a = Some ch" and "m_tied ch \<longrightarrow> m_tie ch = Some obj"
  shows "Channel_handleEvent run release t a p =
    (if \<not> m_tied ch then run_all run t (dispatch ch) p
     else if refs p obj = 0 then Inr p
     else rbind (run_all run t (dispatch ch) (p\<lparr>refs := (refs p)(obj := Suc (refs p obj))\<rparr>)) (release obj))"
  using assms handleEventWithGuard_dispatch [OF assms(1), of _ ch t]
  by (simp add: Channel_handleEvent_def Channel_at_def)

theorem Channel_handleEvent_dispatch_witness:
  "Channel_handleEvent (\<lambda>f t p. Inr (p\<lparr>m_reventList := f\<rparr>)) (\<lambda>_. Inr) 9 5
     (Channel_put 5 ((Channel_new 3)\<lparr>m_revents := 1, m_readCallBack := Some 7\<rparr>) ex_poller) =
   Inr ((Channel_put 5 ((Channel_new 3)\<lparr>m_revents := 1, m_readCallBack := Some 7\<rparr>) ex_poller)\<lparr>m_reventList := 7\<rparr>)"
  by (subst Channel_handleEvent_dispatch [where obj = 0 and ch = "(Channel_new 3)\<lparr>m_revents := 1, m_readCallBack := Some 7\<rparr>"])
     (auto simp: keeps_channel_def same_handlers_def Channel_put_def dispatch_def Channel_new_def EPOLLIN_def
        EPOLLPRI_def EPOLLOUT_def EPOLLERR_def EPOLLHUP_def)

text \<open>Enabling and disabling reading and writing act on their own bits only, and the kernel is told the
  new mask at once, unless the last interest of a watched channel is withdrawn, which parks it.\<close>

lemma Channel_events_bits:
  assumes "ep_inv p" and "channels p a = Some ch" and "kernel_accepts ctl"
  shows "(\<exists>p' dh. Channel_enableReading ctl a p = Inr p' \<and> ep_inv p' \<and> channels p' a = Some dh \<and>
      Channel_isReading dh \<and> Channel_isWriting dh = Channel_isWriting ch \<and>
      interest (ctlLog p') (m_fd ch) = Some (m_events dh, a)) \<and>
    (\<exists>p' dh. Channel_enableWriting ctl a p = Inr p' \<and> ep_inv p' \<and> channels p' a = Some dh \<and>
      Channel_isWriting dh \<and> Channel_isReading dh = Channel_isReading ch \<and>
      interest (ctlLog p') (m_fd ch) = Some (m_events dh, a)) \<and>
    (\<exists>p' dh. Channel_disableReading ctl a p = Inr p' \<and> ep_inv p' \<and> channels p' a = Some dh \<and>
      \<not> Channel_isReading dh \<and> Channel_isWriting dh = Channel_isWriting ch \<and>
      interest (ctlLog p') (m_fd ch) = (if m_index ch = kAdded \<and> m_events dh = 0 then None else Some (m_events dh, a))) \<and>
    (\<exists>p' dh. Channel_disableWriting ctl a p = Inr p' \<and> ep_inv p' \<and> channels p' a = Some dh \<and>
      \<not> Channel_isWriting dh \<and> Channel_isReading dh = Channel_isReading ch \<and>
      interest (ctlLog p') (m_fd ch) = (if m_index ch = kAdded \<and> m_events dh = 0 then None else Some (m_events dh, a)))"
proof -
  have S: "\<exists>p' dh. Channel_set_events ctl f a p = Inr p' \<and> ep_inv p' \<and> channels p' a = Some dh \<and>
      m_events dh = f (m_events ch) \<and> interest (ctlLog p') (m_fd ch) =
        (if m_index ch = kAdded \<and> m_events dh = 0 then None else Some (m_events dh, a))" for f
  proof -
    obtain p' where p': "Channel_set_events ctl f a p = Inr p'" "ep_inv p'"
      "channels p' a = Some (ch\<lparr>m_events := f (m_events ch), m_index := next_index ch (f (m_events ch))\<rparr>)"
      using set_events_ok [OF assms, of f] by auto
    show ?thesis using p' ep_inv_interest [OF p'(2,3)] by (auto simp: next_index_def split: if_splits)
  qed
  note d = Channel_enableReading_def Channel_enableWriting_def Channel_disableReading_def Channel_disableWriting_def
    Channel_isReading_def Channel_isWriting_def
  show ?thesis unfolding d
    using S [of "\<lambda>e. e OR kReadEvent"] S [of "\<lambda>e. e OR kWriteEvent"] S [of "\<lambda>e. e AND NOT kReadEvent"]
      S [of "\<lambda>e. e AND NOT kWriteEvent"] event_bits [of "m_events ch"]
    by (elim exE conjE, intro conjI) (simp, metis)+
qed

text \<open>Disabling a channel that is already parked does not leave it parked: the code adds it to the
  kernel again, with an empty event mask, so that errors and hang-ups are still reported to it.\<close>

lemma Channel_disableAll_readds:
  assumes "ep_inv p" and "channels p a = Some ch" and "kernel_accepts ctl" and "m_index ch = kAdded"
  shows "\<exists>p1 p2. Channel_disableAll ctl a p = Inr p1 \<and> interest (ctlLog p1) (m_fd ch) = None \<and>
    Channel_disableAll ctl a p1 = Inr p2 \<and> interest (ctlLog p2) (m_fd ch) = Some (0, a)"
proof -
  obtain p1 where p1: "Channel_disableAll ctl a p = Inr p1" "ep_inv p1"
    "channels p1 a = Some (ch\<lparr>m_events := 0, m_index := kDeleted\<rparr>)"
    using set_events_ok [OF assms(1-3), of "\<lambda>_. kNoneEvent"] assms(4)
    by (auto simp: Channel_disableAll_def next_index_def kNoneEvent_def)
  obtain p2 where p2: "Channel_disableAll ctl a p1 = Inr p2" "ep_inv p2"
    "channels p2 a = Some (ch\<lparr>m_events := 0, m_index := kAdded\<rparr>)"
    using set_events_ok [OF p1(2,3) assms(3), of "\<lambda>_. kNoneEvent"]
    by (auto simp: Channel_disableAll_def next_index_def kNoneEvent_def)
  show ?thesis using p1 p2 ep_inv_interest [OF p1(2,3)] ep_inv_interest [OF p2(2,3)] by simp
qed

end
