(* ===== verification/Event_Loop.thy ===== *)
theory Event_Loop
  imports Poller Timer_Queue
begin

text \<open>
  \<^verbatim>\<open>EventLoop\<close> of \<^verbatim>\<open>src/mymuduo/EventLoop.h\<close> and \<^verbatim>\<open>EventLoop.cpp\<close>. The loop's state extends the poller's.
  Functors are values of any type, callbacks are numbers; \<open>run\<close> is what they do. \<open>wakeCount\<close> is the counter of the
  eventfd. The first part has the operations as one thread runs them; the second part interleaves
  the loop's thread with any number of other threads, splitting every operation at the points where
  another thread can intervene (\<^verbatim>\<open>m_mutex\<close> makes the queue operations atomic, the flags are atomic).
\<close>

section \<open>State and operations\<close>

record 'f eventloop = poller +
  m_pendingFunctors :: "'f list"
  m_callingPendingFunctors :: bool
  m_looping :: bool
  m_quit :: bool
  m_threadId :: int
  m_activeChannels :: "addr list"
  m_pollReturnTime :: timestamp
  wakeCount :: nat

type_synonym ('f, 'a) lstate = "('f, 'a) eventloop_scheme"

definition kPollTimeMs :: int where "kPollTimeMs = 10000"

definition cb_handRead :: nat where "cb_handRead = 0"
definition cb_timerRead :: nat where "cb_timerRead = 1"

definition createEventfd :: "int \<Rightarrow> int res" where
  "createEventfd eventfd = rbind (check LogFatal (0 \<le> eventfd)) (\<lambda>_. Inr eventfd)"

definition createTimerfd :: "int \<Rightarrow> int res" where
  "createTimerfd timerfd = rbind (check LogFatal (0 \<le> timerfd)) (\<lambda>_. Inr timerfd)"

text \<open>
  Construction in member order: the wake-up channel, the poller, the timer queue (whose constructor
  already enables its channel), then the check for another loop in the thread. \<open>w\<close> and \<open>t\<close> are the
  addresses of the two channels, \<open>existing\<close> tells whether the thread has a loop already.
\<close>

definition EventLoop_new ::
    "ctl \<Rightarrow> string option \<Rightarrow> int \<Rightarrow> int \<Rightarrow> int \<Rightarrow> int \<Rightarrow> bool \<Rightarrow> addr \<Rightarrow> addr \<Rightarrow> 'f eventloop res" where
  "EventLoop_new ctl use_poll eventfd epollfd timerfd tid existing w t =
     rbind (createEventfd eventfd) (\<lambda>wakeUpFd.
     rbind (newDefaultPoller use_poll epollfd) (\<lambda>poller.
     rbind (createTimerfd timerfd) (\<lambda>tfd.
     case poller of None \<Rightarrow> Inl NullDeref
     | Some p \<Rightarrow>
       let l = poller.extend p (eventloop.fields [] False False False tid [] 0 0);
           l = Channel_put w (Channel_new wakeUpFd) l;
           l = Channel_put t (Channel_setReadCallBack cb_timerRead (Channel_new tfd)) l in
       rbind (Channel_enableReading ctl t l) (\<lambda>l.
       rbind (check LogFatal (\<not> existing)) (\<lambda>_.
       rbind (Channel_at l w) (\<lambda>ch.
       Channel_enableReading ctl w (Channel_put w (Channel_setReadCallBack cb_handRead ch) l)))))))"

text \<open>Destruction: the body, then the timer queue with its channel.\<close>

definition EventLoop_dtor :: "ctl \<Rightarrow> addr \<Rightarrow> addr \<Rightarrow> 'f eventloop \<Rightarrow> 'f eventloop res" where
  "EventLoop_dtor ctl w t l =
     rbind (Channel_disableAll ctl w l) (\<lambda>l.
     rbind (Channel_remove ctl w l) (\<lambda>l.
     rbind (Channel_disableAll ctl t l) (\<lambda>l.
     rbind (Channel_remove ctl t l) (\<lambda>l.
     Inr (Channel_delete w (Channel_delete t l))))))"

definition EventLoop_isInLoopThread :: "int \<Rightarrow> ('f, 'a) lstate \<Rightarrow> bool" where
  "EventLoop_isInLoopThread tid l \<longleftrightarrow> m_threadId l = tid"

definition EventLoop_abortNotInLoopThread :: "unit res" where
  "EventLoop_abortNotInLoopThread = Inl LogFatal"

definition EventLoop_assertInLoopThread :: "int \<Rightarrow> ('f, 'a) lstate \<Rightarrow> unit res" where
  "EventLoop_assertInLoopThread tid l =
     (if \<not> EventLoop_isInLoopThread tid l then EventLoop_abortNotInLoopThread else Inr ())"

text \<open>A write that would overflow the eventfd's counter fails and is only logged.\<close>

definition eventfd_max :: nat where "eventfd_max = 2 ^ 64 - 2"

definition EventLoop_wakeUp :: "('f, 'a) lstate \<Rightarrow> ('f, 'a) lstate" where
  "EventLoop_wakeUp l = (if wakeCount l < eventfd_max then l\<lparr>wakeCount := wakeCount l + 1\<rparr> else l)"

definition EventLoop_handRead :: "('f, 'a) lstate \<Rightarrow> ('f, 'a) lstate" where
  "EventLoop_handRead l = l\<lparr>wakeCount := 0\<rparr>"

definition queue_push :: "'f \<Rightarrow> ('f, 'a) lstate \<Rightarrow> ('f, 'a) lstate" where
  "queue_push cb l = l\<lparr>m_pendingFunctors := m_pendingFunctors l @ [cb]\<rparr>"

definition queue_notify :: "int \<Rightarrow> ('f, 'a) lstate \<Rightarrow> ('f, 'a) lstate" where
  "queue_notify tid l =
     (if \<not> EventLoop_isInLoopThread tid l \<or> m_callingPendingFunctors l then EventLoop_wakeUp l else l)"

definition EventLoop_queueInLoop :: "int \<Rightarrow> 'f \<Rightarrow> ('f, 'a) lstate \<Rightarrow> ('f, 'a) lstate" where
  "EventLoop_queueInLoop tid cb l = queue_notify tid (queue_push cb l)"

definition EventLoop_runInLoop ::
    "('f \<Rightarrow> ('f, 'a) lstate \<Rightarrow> ('f, 'a) lstate res) \<Rightarrow> int \<Rightarrow> 'f \<Rightarrow> ('f, 'a) lstate \<Rightarrow> ('f, 'a) lstate res" where
  "EventLoop_runInLoop run tid cb l =
     (if EventLoop_isInLoopThread tid l then run cb l else Inr (EventLoop_queueInLoop tid cb l))"

definition quit_flag :: "('f, 'a) lstate \<Rightarrow> ('f, 'a) lstate" where
  "quit_flag l = l\<lparr>m_quit := True\<rparr>"

definition quit_notify :: "int \<Rightarrow> ('f, 'a) lstate \<Rightarrow> ('f, 'a) lstate" where
  "quit_notify tid l = (if \<not> EventLoop_isInLoopThread tid l then EventLoop_wakeUp l else l)"

definition EventLoop_quit :: "int \<Rightarrow> ('f, 'a) lstate \<Rightarrow> ('f, 'a) lstate" where
  "EventLoop_quit tid l = quit_notify tid (quit_flag l)"

text \<open>Running the queued functors: the queue is swapped out first, so that functors queued meanwhile wait
  for the next round.\<close>

definition pending_swap :: "('f, 'a) lstate \<Rightarrow> 'f list \<times> ('f, 'a) lstate" where
  "pending_swap l = (m_pendingFunctors l, l\<lparr>m_pendingFunctors := []\<rparr>)"

fun run_functors :: "('f \<Rightarrow> ('f, 'a) lstate \<Rightarrow> ('f, 'a) lstate res) \<Rightarrow> 'f list \<Rightarrow> ('f, 'a) lstate \<Rightarrow> ('f, 'a) lstate res" where
  "run_functors run [] l = Inr l"
| "run_functors run (f # fs) l = rbind (run f l) (run_functors run fs)"

text \<open>The vector of functors that have run is destroyed when the function returns; \<open>discard\<close> is what
  destroying one functor does.\<close>

definition EventLoop_doPendingFunctors ::
    "('f \<Rightarrow> ('f, 'a) lstate \<Rightarrow> ('f, 'a) lstate res) \<Rightarrow> ('f \<Rightarrow> ('f, 'a) lstate \<Rightarrow> ('f, 'a) lstate res) \<Rightarrow>
      ('f, 'a) lstate \<Rightarrow> ('f, 'a) lstate res" where
  "EventLoop_doPendingFunctors run discard l =
     (let (functors, l) = pending_swap (l\<lparr>m_callingPendingFunctors := True\<rparr>) in
      rbind (run_functors run functors l) (\<lambda>l.
      run_functors discard functors (l\<lparr>m_callingPendingFunctors := False\<rparr>)))"

fun handle_active ::
    "(nat \<Rightarrow> timestamp \<Rightarrow> ('f, 'a) lstate \<Rightarrow> ('f, 'a) lstate res) \<Rightarrow> (nat \<Rightarrow> ('f, 'a) lstate \<Rightarrow> ('f, 'a) lstate res) \<Rightarrow>
      addr list \<Rightarrow> ('f, 'a) lstate \<Rightarrow> ('f, 'a) lstate res" where
  "handle_active cbs release [] l = Inr l"
| "handle_active cbs release (a # as) l =
     rbind (Channel_handleEvent cbs release (m_pollReturnTime l) a l) (handle_active cbs release as)"

text \<open>One round of the loop; \<open>wait\<close> and \<open>now\<close> are what this round's \<^verbatim>\<open>epoll_wait\<close> and clock return.\<close>

definition EventLoop_round ::
    "(int \<Rightarrow> int + (u32 \<times> addr) list) \<Rightarrow> timestamp \<Rightarrow> (nat \<Rightarrow> timestamp \<Rightarrow> ('f, 'a) lstate \<Rightarrow> ('f, 'a) lstate res) \<Rightarrow>
      (nat \<Rightarrow> ('f, 'a) lstate \<Rightarrow> ('f, 'a) lstate res) \<Rightarrow> ('f \<Rightarrow> ('f, 'a) lstate \<Rightarrow> ('f, 'a) lstate res) \<Rightarrow>
      ('f \<Rightarrow> ('f, 'a) lstate \<Rightarrow> ('f, 'a) lstate res) \<Rightarrow> ('f, 'a) lstate \<Rightarrow> ('f, 'a) lstate res" where
  "EventLoop_round wait now cbs release run discard l =
     rbind (EpollPoller_poll wait now (l\<lparr>m_activeChannels := []\<rparr>)) (\<lambda>(t, as, l).
     let l = l\<lparr>m_activeChannels := as, m_pollReturnTime := t\<rparr> in
     rbind (handle_active cbs release as l) (EventLoop_doPendingFunctors run discard))"

text \<open>The loop, with as many rounds as there are entries in the list of poll results; \<open>None\<close> means that
  it has not been told to stop yet.\<close>

fun loop_rounds ::
    "((int \<Rightarrow> int + (u32 \<times> addr) list) \<times> timestamp) list \<Rightarrow> (nat \<Rightarrow> timestamp \<Rightarrow> ('f, 'a) lstate \<Rightarrow> ('f, 'a) lstate res) \<Rightarrow>
      (nat \<Rightarrow> ('f, 'a) lstate \<Rightarrow> ('f, 'a) lstate res) \<Rightarrow> ('f \<Rightarrow> ('f, 'a) lstate \<Rightarrow> ('f, 'a) lstate res) \<Rightarrow>
      ('f \<Rightarrow> ('f, 'a) lstate \<Rightarrow> ('f, 'a) lstate res) \<Rightarrow> ('f, 'a) lstate \<Rightarrow> ('f, 'a) lstate res option" where
  "loop_rounds ps cbs release run discard l =
     (if m_quit l then Some (Inr l)
      else case ps of [] \<Rightarrow> None
           | (wait, now) # ps \<Rightarrow>
               (case EventLoop_round wait now cbs release run discard l of
                  Inl e \<Rightarrow> Some (Inl e)
                | Inr l \<Rightarrow> loop_rounds ps cbs release run discard l))"

definition EventLoop_loop ::
    "((int \<Rightarrow> int + (u32 \<times> addr) list) \<times> timestamp) list \<Rightarrow> (nat \<Rightarrow> timestamp \<Rightarrow> ('f, 'a) lstate \<Rightarrow> ('f, 'a) lstate res) \<Rightarrow>
      (nat \<Rightarrow> ('f, 'a) lstate \<Rightarrow> ('f, 'a) lstate res) \<Rightarrow> ('f \<Rightarrow> ('f, 'a) lstate \<Rightarrow> ('f, 'a) lstate res) \<Rightarrow>
      ('f \<Rightarrow> ('f, 'a) lstate \<Rightarrow> ('f, 'a) lstate res) \<Rightarrow> ('f, 'a) lstate \<Rightarrow> ('f, 'a) lstate res option" where
  "EventLoop_loop ps cbs release run discard l =
     map_option (\<lambda>r. rbind r (\<lambda>l. Inr (l\<lparr>m_looping := False\<rparr>)))
       (loop_rounds ps cbs release run discard (l\<lparr>m_looping := True, m_quit := False\<rparr>))"

text \<open>The timer interface is the timer queue's.\<close>

definition EventLoop_runAt where
  "EventLoop_runAt alloc clk time cb q = TimerQueue_addTimer alloc clk cb time (Finite 0 0) q"

definition EventLoop_runAfter where
  "EventLoop_runAfter alloc clk delay cb q =
     (let (now, q) = clock_now clk q in
      rbind (addTime now delay) (\<lambda>time. EventLoop_runAt alloc clk time cb q))"

definition EventLoop_runEvery where
  "EventLoop_runEvery alloc clk ivl cb q =
     (let (now, q) = clock_now clk q in
      rbind (addTime now ivl) (\<lambda>time. TimerQueue_addTimer alloc clk cb time ivl q))"

definition EventLoop_cancel where
  "EventLoop_cancel timerId q = TimerQueue_cancel (fst timerId) (snd timerId) q"

section \<open>Interleavings\<close>

text \<open>
  \<open>pc\<close> is where the loop's thread is: before \<^verbatim>\<open>loop()\<close>, at the test of \<^verbatim>\<open>m_quit\<close>, inside \<^verbatim>\<open>epoll_wait\<close>, in the
  event handlers (the flag: the wake-up channel was reported and its handler has not run yet), at
  the start of \<^verbatim>\<open>doPendingFunctors\<close>, between setting the flag and swapping the queue, running the
  swapped functors, or out of the loop. \<open>notifying\<close> lists the threads that have pushed a functor and
  have not reached the wake-up test yet, \<open>quitting\<close> those that have set \<^verbatim>\<open>m_quit\<close> and have not.
  \<open>pushed\<close> and \<open>ran\<close> are the functors queued and run so far.
\<close>

datatype pc = BeforeLoop | Testing | Polling | Handling bool | AtPending | AtSwap | Running "nat list" | Finished

record conf =
  el :: "nat eventloop"
  lpc :: pc
  notifying :: "int list"
  quitting :: "int list"
  pushed :: "nat list"
  ran :: "nat list"

definition busy :: "conf \<Rightarrow> int \<Rightarrow> bool" where
  "busy c tid \<longleftrightarrow> tid \<in> set (notifying c) \<or> tid \<in> set (quitting c)"

definition loop_free :: "conf \<Rightarrow> bool" where
  "loop_free c \<longleftrightarrow> \<not> busy c (m_threadId (el c))"

text \<open>The loop's own thread calls into the loop from event handlers and functors, and (\<open>early\<close>) possibly
  before it starts looping.\<close>

fun may_call :: "bool \<Rightarrow> pc \<Rightarrow> bool" where
  "may_call early (Handling b) = True"
| "may_call early (Running fs) = True"
| "may_call early BeforeLoop = early"
| "may_call early pc = False"

inductive lstep :: "bool \<Rightarrow> conf \<Rightarrow> conf \<Rightarrow> bool" for early where
  l_start: "lpc c = BeforeLoop \<Longrightarrow> loop_free c \<Longrightarrow>
    lstep early c (c\<lparr>el := (el c)\<lparr>m_looping := True, m_quit := False\<rparr>, lpc := Testing\<rparr>)"
| l_test: "lpc c = Testing \<Longrightarrow>
    lstep early c (c\<lparr>el := (if m_quit (el c) then (el c)\<lparr>m_looping := False\<rparr> else el c),
      lpc := (if m_quit (el c) then Finished else Polling)\<rparr>)"
| l_poll: "lpc c = Polling \<Longrightarrow> (woken \<Longrightarrow> 0 < wakeCount (el c)) \<Longrightarrow> lstep early c (c\<lparr>lpc := Handling woken\<rparr>)"
| l_handRead: "lpc c = Handling True \<Longrightarrow> loop_free c \<Longrightarrow>
    lstep early c (c\<lparr>el := EventLoop_handRead (el c), lpc := Handling False\<rparr>)"
| l_handled: "lpc c = Handling False \<Longrightarrow> loop_free c \<Longrightarrow> lstep early c (c\<lparr>lpc := AtPending\<rparr>)"
| l_pending: "lpc c = AtPending \<Longrightarrow>
    lstep early c (c\<lparr>el := (el c)\<lparr>m_callingPendingFunctors := True\<rparr>, lpc := AtSwap\<rparr>)"
| l_swap: "lpc c = AtSwap \<Longrightarrow>
    lstep early c (c\<lparr>el := snd (pending_swap (el c)), lpc := Running (fst (pending_swap (el c)))\<rparr>)"
| l_functor: "lpc c = Running (f # fs) \<Longrightarrow> loop_free c \<Longrightarrow>
    lstep early c (c\<lparr>lpc := Running fs, ran := ran c @ [f]\<rparr>)"
| l_done: "lpc c = Running [] \<Longrightarrow> loop_free c \<Longrightarrow>
    lstep early c (c\<lparr>el := (el c)\<lparr>m_callingPendingFunctors := False\<rparr>, lpc := Testing\<rparr>)"
| t_push: "\<not> busy c tid \<Longrightarrow> (tid = m_threadId (el c) \<Longrightarrow> may_call early (lpc c)) \<Longrightarrow>
    lstep early c (c\<lparr>el := queue_push f (el c), notifying := tid # notifying c, pushed := pushed c @ [f]\<rparr>)"
| t_notify: "tid \<in> set (notifying c) \<Longrightarrow>
    lstep early c (c\<lparr>el := queue_notify tid (el c), notifying := removeAll tid (notifying c)\<rparr>)"
| t_quit: "\<not> busy c tid \<Longrightarrow> (tid = m_threadId (el c) \<Longrightarrow> may_call early (lpc c)) \<Longrightarrow>
    lstep early c (c\<lparr>el := quit_flag (el c), quitting := tid # quitting c\<rparr>)"
| t_quit_notify: "tid \<in> set (quitting c) \<Longrightarrow>
    lstep early c (c\<lparr>el := quit_notify tid (el c), quitting := removeAll tid (quitting c)\<rparr>)"

definition conf_init :: "nat eventloop \<Rightarrow> conf" where
  "conf_init l = \<lparr>el = l, lpc = BeforeLoop, notifying = [], quitting = [], pushed = [], ran = []\<rparr>"

definition loop_fresh :: "'f eventloop \<Rightarrow> bool" where
  "loop_fresh l \<longleftrightarrow> m_pendingFunctors l = [] \<and> \<not> m_callingPendingFunctors l \<and> \<not> m_quit l \<and> wakeCount l = 0"

fun running :: "pc \<Rightarrow> nat list" where
  "running (Running fs) = fs"
| "running pc = []"

text \<open>Where the loop's thread will look at the queue, or at \<^verbatim>\<open>m_quit\<close>, again without waiting.\<close>

fun before_swap :: "pc \<Rightarrow> bool" where
  "before_swap (Handling b) = True"
| "before_swap AtPending = True"
| "before_swap AtSwap = True"
| "before_swap Finished = True"
| "before_swap pc = False"

definition no_lost :: "conf \<Rightarrow> bool" where
  "no_lost c \<longleftrightarrow>
     (m_callingPendingFunctors (el c) \<longleftrightarrow> lpc c = AtSwap \<or> (\<exists>fs. lpc c = Running fs)) \<and>
     (m_pendingFunctors (el c) \<noteq> [] \<longrightarrow> before_swap (lpc c) \<or> 0 < wakeCount (el c) \<or> notifying c \<noteq> []) \<and>
     (m_threadId (el c) \<in> set (notifying c) \<longrightarrow> may_call False (lpc c)) \<and>
     (m_quit (el c) \<and> lpc c = Polling \<longrightarrow> 0 < wakeCount (el c) \<or> quitting c \<noteq> []) \<and>
     (m_threadId (el c) \<in> set (quitting c) \<longrightarrow> may_call False (lpc c))"

lemma wakeUp_frame [simp]:
  "m_pendingFunctors (EventLoop_wakeUp l) = m_pendingFunctors l" "m_quit (EventLoop_wakeUp l) = m_quit l"
  "m_callingPendingFunctors (EventLoop_wakeUp l) = m_callingPendingFunctors l"
  "m_threadId (EventLoop_wakeUp l) = m_threadId l" "m_looping (EventLoop_wakeUp l) = m_looping l"
  by (simp_all add: EventLoop_wakeUp_def)

lemma wakeUp_wakes [simp]: "0 < wakeCount (EventLoop_wakeUp l)"
  by (auto simp: EventLoop_wakeUp_def eventfd_max_def)

lemmas el_defs = queue_push_def queue_notify_def quit_flag_def quit_notify_def EventLoop_handRead_def
  pending_swap_def EventLoop_isInLoopThread_def loop_free_def busy_def

lemma no_lost_step: "lstep False c c' \<Longrightarrow> no_lost c \<Longrightarrow> no_lost c'"
proof (induction rule: lstep.induct)
  case (t_notify tid c)
  then show ?case
    by (cases "lpc c") (auto simp: no_lost_def el_defs split: if_splits)
next
  case (t_push c tid f)
  then show ?case by (cases "lpc c") (auto simp: no_lost_def el_defs)
next
  case (t_quit c tid)
  then show ?case by (cases "lpc c") (auto simp: no_lost_def el_defs)
next
  case (t_quit_notify tid c)
  then show ?case by (cases "lpc c") (auto simp: no_lost_def el_defs split: if_splits)
qed (auto simp: no_lost_def el_defs)

lemma no_lost_reach: "(lstep False)\<^sup>*\<^sup>* c c' \<Longrightarrow> no_lost c \<Longrightarrow> no_lost c'"
  by (induction rule: rtranclp_induct) (auto intro: no_lost_step)

lemma no_lost_init: "loop_fresh l \<Longrightarrow> no_lost (conf_init l)"
  by (simp add: no_lost_def conf_init_def loop_fresh_def)

text \<open>Functors run in the order they were queued, each once.\<close>

definition fifo :: "conf \<Rightarrow> bool" where
  "fifo c \<longleftrightarrow> pushed c = ran c @ running (lpc c) @ m_pendingFunctors (el c)"

lemma fifo_step: "lstep early c c' \<Longrightarrow> fifo c \<Longrightarrow> fifo c'"
  by (induction rule: lstep.induct) (auto simp: fifo_def el_defs)

lemma fifo_reach: "(lstep early)\<^sup>*\<^sup>* c c' \<Longrightarrow> fifo c \<Longrightarrow> fifo c'"
  by (induction rule: rtranclp_induct) (auto intro: fifo_step)

text \<open>
  Progress. \<open>run_own n c c'\<close>: an execution from \<open>c\<close> to \<open>c'\<close> in which the loop's thread takes \<open>n\<close> steps of the
  loop (those that move its program counter), with any steps of other threads in between. \<open>dist k\<close>
  bounds the number of such steps until the first \<open>k\<close> functors have run.
\<close>

inductive run_own :: "bool \<Rightarrow> nat \<Rightarrow> conf \<Rightarrow> conf \<Rightarrow> bool" for early where
  own_refl: "run_own early 0 c c"
| own_step: "run_own early n c c' \<Longrightarrow> lstep early c' c'' \<Longrightarrow>
    run_own early (if lpc c'' = lpc c' then n else Suc n) c c''"

lemma own_move: "run_own early n c c' \<Longrightarrow> lstep early c' c'' \<Longrightarrow> lpc c'' \<noteq> lpc c' \<Longrightarrow> run_own early (Suc n) c c''"
  using own_step [of early n c c' c''] by simp

fun pc_dist :: "nat \<Rightarrow> pc \<Rightarrow> nat" where
  "pc_dist r BeforeLoop = r + 7"
| "pc_dist r Testing = r + 6"
| "pc_dist r Polling = r + 5"
| "pc_dist r (Handling True) = r + 4"
| "pc_dist r (Handling False) = r + 3"
| "pc_dist r AtPending = r + 2"
| "pc_dist r AtSwap = r + 1"
| "pc_dist r (Running fs) = (if r \<le> length fs then r else r + 7)"
| "pc_dist r Finished = r"

definition dist :: "nat \<Rightarrow> conf \<Rightarrow> nat" where
  "dist k c = (if k \<le> length (ran c) then 0 else pc_dist (k - length (ran c)) (lpc c))"

lemma pc_dist_le: "pc_dist r pc \<le> r + 7"
  by (cases "(r, pc)" rule: pc_dist.cases) auto

lemma dist_step:
  assumes "lstep early c c'" and "fifo c" and "k \<le> length (pushed c)" and "lpc c' \<noteq> Finished"
  shows "if lpc c' = lpc c then dist k c' = dist k c else dist k c' < dist k c \<or> dist k c' = 0"
  using assms
proof (induction rule: lstep.induct)
  case (l_poll c woken)
  then show ?case by (cases woken) (auto simp: dist_def)
qed (auto simp: dist_def fifo_def pending_swap_def split: if_splits)

lemma step_finished: "lstep early c c' \<Longrightarrow> lpc c = Finished \<Longrightarrow> lpc c' = Finished"
  by (induction rule: lstep.induct) auto

lemma step_pushed: "lstep early c c' \<Longrightarrow> \<exists>fs. pushed c' = pushed c @ fs"
  by (induction rule: lstep.induct) auto

lemma run_own_dist:
  assumes "run_own early n c c'" and "fifo c" and "k \<le> length (pushed c)" and "lpc c' \<noteq> Finished"
  shows "fifo c' \<and> (\<exists>fs. pushed c' = pushed c @ fs) \<and> dist k c' \<le> dist k c - n"
  using assms
proof (induction rule: run_own.induct)
  case (own_step n c c' c'')
  have "lpc c' \<noteq> Finished" using step_finished [OF own_step.hyps(2)] own_step.prems(3) by blast
  with own_step have IH: "fifo c'" "\<exists>fs. pushed c' = pushed c @ fs" "dist k c' \<le> dist k c - n" by auto
  then have "k \<le> length (pushed c')" using own_step.prems(2) by auto
  from dist_step [OF own_step.hyps(2) IH(1) this own_step.prems(3)] IH
  show ?case using fifo_step [OF own_step.hyps(2)] step_pushed [OF own_step.hyps(2)] by (auto split: if_splits)
qed simp

section \<open>Sequential facts\<close>

lemma run_functors_Inr [simp]: "run_functors (\<lambda>_. Inr) fs l = Inr l"
  by (induction fs) simp_all

definition queue_body :: "(nat \<Rightarrow> nat list) \<Rightarrow> nat \<Rightarrow> (nat, 'a) lstate \<Rightarrow> (nat, 'a) lstate res" where
  "queue_body body f l = Inr (fold (EventLoop_queueInLoop (m_threadId l)) (body f) l)"

lemma queueInLoop_frame [simp]:
  "m_pendingFunctors (EventLoop_queueInLoop tid f l) = m_pendingFunctors l @ [f]"
  "m_callingPendingFunctors (EventLoop_queueInLoop tid f l) = m_callingPendingFunctors l"
  "m_threadId (EventLoop_queueInLoop tid f l) = m_threadId l"
  by (simp_all add: EventLoop_queueInLoop_def el_defs)

lemma queueInLoop_wakes:
  "m_callingPendingFunctors l \<or> m_threadId l \<noteq> tid \<Longrightarrow> 0 < wakeCount (EventLoop_queueInLoop tid f l)"
  by (auto simp: EventLoop_queueInLoop_def el_defs)

lemma fold_queue:
  assumes "m_callingPendingFunctors l"
  shows "m_pendingFunctors (fold (EventLoop_queueInLoop tid) fs l) = m_pendingFunctors l @ fs \<and>
    m_callingPendingFunctors (fold (EventLoop_queueInLoop tid) fs l) \<and>
    m_threadId (fold (EventLoop_queueInLoop tid) fs l) = m_threadId l \<and>
    (fs \<noteq> [] \<or> 0 < wakeCount l \<longrightarrow> 0 < wakeCount (fold (EventLoop_queueInLoop tid) fs l))"
  using assms
proof (induction fs arbitrary: l)
  case (Cons f fs)
  then show ?case using queueInLoop_wakes [of l tid f] by simp
qed simp

lemma run_functors_queue:
  assumes "m_callingPendingFunctors l"
  shows "\<exists>l'. run_functors (queue_body body) fs l = Inr l' \<and> m_callingPendingFunctors l' \<and>
    m_pendingFunctors l' = m_pendingFunctors l @ concat (map body fs) \<and>
    (concat (map body fs) \<noteq> [] \<or> 0 < wakeCount l \<longrightarrow> 0 < wakeCount l')"
  using assms
proof (induction fs arbitrary: l)
  case (Cons f fs)
  let ?l = "fold (EventLoop_queueInLoop (m_threadId l)) (body f) l"
  note q = fold_queue [OF Cons.prems, of "m_threadId l" "body f"]
  from Cons.IH [of ?l] q obtain l' where "run_functors (queue_body body) fs ?l = Inr l'" "m_callingPendingFunctors l'"
    "m_pendingFunctors l' = m_pendingFunctors l @ body f @ concat (map body fs)"
    "concat (map body fs) \<noteq> [] \<or> 0 < wakeCount ?l \<longrightarrow> 0 < wakeCount l'" by auto
  moreover have "queue_body body f l = Inr ?l" by (simp add: queue_body_def)
  ultimately show ?case using q by (intro exI [of _ l']) (auto simp del: concat_eq_Nil_conv)
qed simp

declare loop_rounds.simps [simp del]

lemma loop_rounds_Nil: "loop_rounds [] cbs release run discard l = (if m_quit l then Some (Inr l) else None)"
  by (simp add: loop_rounds.simps)

lemma loop_rounds_Cons: "loop_rounds ((wait, now) # ps) cbs release run discard l =
    (if m_quit l then Some (Inr l)
     else case EventLoop_round wait now cbs release run discard l of
         Inl e \<Rightarrow> Some (Inl e) | Inr l \<Rightarrow> loop_rounds ps cbs release run discard l)"
  by (subst loop_rounds.simps) simp

lemma loop_rounds_quit: "loop_rounds ps cbs release run discard l = Some (Inr l') \<Longrightarrow> m_quit l'"
proof (induction ps arbitrary: l)
  case Nil
  then show ?case by (simp add: loop_rounds_Nil split: if_splits)
next
  case (Cons p ps)
  obtain wait now where p: "p = (wait, now)" by (cases p)
  show ?case
    using Cons.prems unfolding p loop_rounds_Cons by (auto split: if_splits sum.splits intro: Cons.IH)
qed

lemma loop_fresh_more: "poller.more p = poller.more l \<Longrightarrow> loop_fresh p = loop_fresh (l :: 'f eventloop)"
  by (cases p, cases l) (simp add: loop_fresh_def)

lemma enableReading_fresh:
  assumes "ep_inv (l :: 'f eventloop)" and "channels l a = Some ch" and "kernel_accepts ctl" and "m_events ch = 0"
    and "m_index ch = kNew" and "loop_fresh l"
  shows "\<exists>l'. Channel_enableReading ctl a l = Inr l' \<and> ep_inv l' \<and> loop_fresh l' \<and>
    channels l' = (channels l)(a \<mapsto> ch\<lparr>m_events := kReadEvent, m_index := kAdded\<rparr>)"
proof -
  obtain l' where l': "Channel_set_events ctl (\<lambda>e. e OR kReadEvent) a l = Inr l'" "ep_inv l'"
    "channels l' = (channels l)(a \<mapsto> ch\<lparr>m_events := kReadEvent, m_index := kAdded\<rparr>)" "poller.more l' = poller.more l"
    using set_events_ok [OF assms(1-3), of "\<lambda>e. e OR kReadEvent"] assms(4,5) by (auto simp: next_index_def)
  then show ?thesis using assms(6) loop_fresh_more [OF l'(4)] by (simp add: Channel_enableReading_def)
qed

text \<open>Disabling and removing a channel, as owners do when they go away.\<close>

lemma retire_ok:
  assumes "ep_inv p" and "channels p a = Some ch" and "kernel_accepts ctl"
  shows "\<exists>p1 p2 dh. Channel_disableAll ctl a p = Inr p1 \<and> Channel_remove ctl a p1 = Inr p2 \<and> ep_inv p2 \<and>
    channels p2 = (channels p)(a \<mapsto> dh) \<and> m_index dh = kNew"
proof -
  obtain p1 where p1: "Channel_disableAll ctl a p = Inr p1" "ep_inv p1"
    "channels p1 = (channels p)(a \<mapsto> ch\<lparr>m_events := kNoneEvent, m_index := next_index ch kNoneEvent\<rparr>)"
    using set_events_ok [OF assms, of "\<lambda>_. kNoneEvent"] by (auto simp: Channel_disableAll_def)
  then have "channels p1 a = Some (ch\<lparr>m_events := kNoneEvent, m_index := next_index ch kNoneEvent\<rparr>)" by simp
  from remove_ok [OF p1(2) this assms(3)] show ?thesis using p1 by fastforce
qed

lemma EventLoop_dtor_ok:
  assumes "ep_inv (l :: 'f eventloop)" and "channels l w = Some ch" and "channels l t = Some dh" and "w \<noteq> t"
    and "kernel_accepts ctl"
  shows "\<exists>l'. EventLoop_dtor ctl w t l = Inr l' \<and> ep_inv l' \<and> channels l' = (channels l)(w := None, t := None)"
proof -
  obtain l1 l2 ch2 where a: "Channel_disableAll ctl w l = Inr l1" "Channel_remove ctl w l1 = Inr l2" "ep_inv l2"
    "channels l2 = (channels l)(w \<mapsto> ch2)" "m_index ch2 = kNew"
    using retire_ok [OF assms(1,2,5)] by blast
  then have "channels l2 t = Some dh" using assms by simp
  then obtain l3 l4 dh2 where b: "Channel_disableAll ctl t l2 = Inr l3" "Channel_remove ctl t l3 = Inr l4" "ep_inv l4"
    "channels l4 = (channels l2)(t \<mapsto> dh2)" "m_index dh2 = kNew"
    using retire_ok [OF a(3) _ assms(5)] by blast
  have "ep_inv (Channel_delete t l4)" using delete_ok [OF b(3)] b(4,5) by simp
  then have "ep_inv (Channel_delete w (Channel_delete t l4))"
    using delete_ok [of "Channel_delete t l4" w ch2] a b assms by (simp add: Channel_delete_def)
  then show ?thesis using a b assms(4) by (auto simp: EventLoop_dtor_def Channel_delete_def fun_upd_twist)
qed

lemma interest_pair:
  assumes "ep_inv l" and "channels l = [w \<mapsto> ch, t \<mapsto> dh]" and "w \<noteq> t" and "m_fd ch \<noteq> m_fd dh"
    and "m_index ch = kAdded" and "m_index dh = kAdded"
  shows "interest (ctlLog l) = [m_fd ch \<mapsto> (m_events ch, w), m_fd dh \<mapsto> (m_events dh, t)]"
proof (rule ext)
  fix fd
  show "interest (ctlLog l) fd = [m_fd ch \<mapsto> (m_events ch, w), m_fd dh \<mapsto> (m_events dh, t)] fd"
  proof (cases "interest (ctlLog l) fd")
    case None
    then show ?thesis using ep_inv_interest [OF assms(1), of w ch] ep_inv_interest [OF assms(1), of t dh] assms by auto
  next
    case (Some e)
    then show ?thesis using ep_inv_interest_iff [OF assms(1), of fd "fst e" "snd e"] assms
      by (cases e) (auto split: if_splits)
  qed
qed

section \<open>Properties\<close>

definition ex_loop :: "nat eventloop" where
  "ex_loop = \<lparr>channels = (\<lambda>_. None), m_channel_map = (\<lambda>_. None), m_reventList = 16, ctlLog = [], refs = (\<lambda>_. 0),
     m_pendingFunctors = [], m_callingPendingFunctors = False, m_looping = False, m_quit = False,
     m_threadId = 1, m_activeChannels = [], m_pollReturnTime = 0, wakeCount = 0\<rparr>"

lemma ex_loop_fresh: "loop_fresh ex_loop"
  by (simp add: loop_fresh_def ex_loop_def)

text \<open>Thread 2 queues functor 7 while the loop, in thread 1, is waiting.\<close>

definition ex_conf :: conf where
  "ex_conf = \<lparr>el = ex_loop\<lparr>m_looping := True, m_pendingFunctors := [7], wakeCount := 1\<rparr>, lpc = Polling,
     notifying = [], quitting = [], pushed = [7], ran = []\<rparr>"

lemma ex_conf_reach: "(lstep False)\<^sup>*\<^sup>* (conf_init ex_loop) ex_conf"
proof -
  let ?c1 = "(conf_init ex_loop)\<lparr>el := ex_loop\<lparr>m_looping := True\<rparr>, lpc := Testing\<rparr>"
  let ?c2 = "?c1\<lparr>lpc := Polling\<rparr>"
  let ?c3 = "?c2\<lparr>el := (el ?c2)\<lparr>m_pendingFunctors := [7]\<rparr>, notifying := [2], pushed := [7]\<rparr>"
  have "lstep False (conf_init ex_loop) ?c1"
    using l_start [of "conf_init ex_loop" False] by (simp add: conf_init_def loop_free_def busy_def ex_loop_def)
  moreover have "lstep False ?c1 ?c2" using l_test [of ?c1 False] by (simp add: conf_init_def ex_loop_def)
  moreover have "lstep False ?c2 ?c3"
    using t_push [of ?c2 2 False 7] by (simp add: conf_init_def busy_def ex_loop_def queue_push_def)
  moreover have "lstep False ?c3 ex_conf"
    using t_notify [of 2 ?c3 False]
    by (simp add: conf_init_def ex_loop_def ex_conf_def el_defs EventLoop_wakeUp_def eventfd_max_def)
  ultimately show ?thesis by (meson converse_rtranclp_into_rtranclp rtranclp.rtrancl_refl)
qed



text \<open>C18: However the threads interleave, the functors given to \<^verbatim>\<open>queueInLoop\<close> are run in the order in
  which they were queued, each exactly once, and none is dropped: those queued are those already
  run, then those of the current round, then those still in the queue.\<close>

theorem EventLoop_functors_fifo:
  assumes "m_pendingFunctors l = []" and "(lstep early)\<^sup>*\<^sup>* (conf_init l) c"
  shows "pushed c = ran c @ running (lpc c) @ m_pendingFunctors (el c)"
proof -
  have "fifo (conf_init l)" using assms(1) by (simp add: fifo_def conf_init_def)
  from fifo_reach [OF assms(2) this] show ?thesis by (simp add: fifo_def)
qed

theorem EventLoop_functors_fifo_witness: "[7] = ran ex_conf @ running (lpc ex_conf) @ m_pendingFunctors (el ex_conf)"
  using EventLoop_functors_fifo [OF _ ex_conf_reach] by (simp add: ex_loop_def ex_conf_def)

text \<open>C10: Every functor queued is eventually run, for any scheduling of the threads: from any reachable
  configuration, once the loop's thread has taken as many of its own steps as there are functors
  still to run plus seven (with any number of steps of other threads in between, which may queue
  more), all functors queued at the beginning have been run, in order, unless the loop was told to
  quit and has ended.\<close>

theorem EventLoop_queued_run:
  assumes "m_pendingFunctors l = []" and "(lstep early)\<^sup>*\<^sup>* (conf_init l) c"
    and "run_own early n c c'" and "length (pushed c) - length (ran c) + 7 \<le> n" and "lpc c' \<noteq> Finished"
  shows "\<exists>later. ran c' = pushed c @ later"
proof -
  let ?k = "length (pushed c)"
  have "fifo (conf_init l)" using assms(1) by (simp add: fifo_def conf_init_def)
  from run_own_dist [OF assms(3) fifo_reach [OF assms(2) this] order_refl assms(5)] obtain fs where
    c': "fifo c'" "pushed c' = pushed c @ fs" "dist ?k c' \<le> dist ?k c - n" by auto
  have "dist ?k c \<le> n" using pc_dist_le [of "?k - length (ran c)" "lpc c"] assms(4) by (auto simp: dist_def)
  then have "?k \<le> length (ran c')"
    using c'(3) by (cases "(?k - length (ran c'), lpc c')" rule: pc_dist.cases) (auto simp: dist_def split: if_splits)
  moreover have "pushed c @ fs = ran c' @ (running (lpc c') @ m_pendingFunctors (el c'))"
    using c'(1,2) by (simp add: fifo_def)
  ultimately show ?thesis by (auto simp: append_eq_append_conv_if split: if_splits) (metis append_take_drop_id)
qed

text \<open>The loop's thread takes eight steps from \<open>ex_conf\<close>.\<close>

definition ex_after :: conf where
  "ex_after = \<lparr>el = ex_loop\<lparr>m_looping := True, wakeCount := 1\<rparr>, lpc = Handling False,
     notifying = [], quitting = [], pushed = [7], ran = [7]\<rparr>"

lemma ex_conf_runs: "run_own False 8 ex_conf ex_after"
proof -
  let ?c1 = "ex_conf\<lparr>lpc := Handling False\<rparr>"
  let ?c2 = "?c1\<lparr>lpc := AtPending\<rparr>"
  let ?c3 = "?c2\<lparr>el := (el ?c2)\<lparr>m_callingPendingFunctors := True\<rparr>, lpc := AtSwap\<rparr>"
  let ?c4 = "?c3\<lparr>el := (el ?c3)\<lparr>m_pendingFunctors := []\<rparr>, lpc := Running [7]\<rparr>"
  let ?c5 = "?c4\<lparr>lpc := Running [], ran := [7]\<rparr>"
  let ?c6 = "?c5\<lparr>el := (el ?c5)\<lparr>m_callingPendingFunctors := False\<rparr>, lpc := Testing\<rparr>"
  let ?c7 = "?c6\<lparr>lpc := Polling\<rparr>"
  have f: "loop_free c" if "notifying c = []" "quitting c = []" for c using that by (simp add: loop_free_def busy_def)
  have t1: "lstep False ex_conf ?c1" using l_poll [of ex_conf False False] by (simp add: ex_conf_def)
  have s1: "run_own False (Suc 0) ex_conf ?c1" by (rule own_move [OF own_refl t1]) (simp add: ex_conf_def ex_after_def)
  have t2: "lstep False ?c1 ?c2" using l_handled [of ?c1 False] f [of ?c1] by (simp add: ex_conf_def)
  have s2: "run_own False (Suc (Suc 0)) ex_conf ?c2" by (rule own_move [OF s1 t2]) (simp add: ex_conf_def ex_after_def)
  have t3: "lstep False ?c2 ?c3" using l_pending [of ?c2 False] by (simp add: ex_conf_def)
  have s3: "run_own False (Suc (Suc (Suc 0))) ex_conf ?c3" by (rule own_move [OF s2 t3]) (simp add: ex_conf_def ex_after_def)
  have t4: "lstep False ?c3 ?c4" using l_swap [of ?c3 False] by (simp add: ex_conf_def pending_swap_def)
  have s4: "run_own False (Suc (Suc (Suc (Suc 0)))) ex_conf ?c4" by (rule own_move [OF s3 t4]) (simp add: ex_conf_def ex_after_def)
  have t5: "lstep False ?c4 ?c5" using l_functor [of ?c4 7 "[]" False] f [of ?c4] by (simp add: ex_conf_def)
  have s5: "run_own False (Suc (Suc (Suc (Suc (Suc 0))))) ex_conf ?c5" by (rule own_move [OF s4 t5]) (simp add: ex_conf_def ex_after_def)
  have t6: "lstep False ?c5 ?c6" using l_done [of ?c5 False] f [of ?c5] by (simp add: ex_conf_def)
  have s6: "run_own False (Suc (Suc (Suc (Suc (Suc (Suc 0)))))) ex_conf ?c6" by (rule own_move [OF s5 t6]) (simp add: ex_conf_def ex_after_def)
  have t7: "lstep False ?c6 ?c7" using l_test [of ?c6 False] by (simp add: ex_conf_def ex_loop_def)
  have s7: "run_own False (Suc (Suc (Suc (Suc (Suc (Suc (Suc 0))))))) ex_conf ?c7" by (rule own_move [OF s6 t7]) (simp add: ex_conf_def ex_after_def)
  have t8: "lstep False ?c7 ex_after"
    using l_poll [of ?c7 False False] by (simp add: ex_conf_def ex_after_def ex_loop_def)
  have s8: "run_own False (Suc (Suc (Suc (Suc (Suc (Suc (Suc (Suc 0)))))))) ex_conf ex_after" by (rule own_move [OF s7 t8]) (simp add: ex_conf_def ex_after_def)
  show ?thesis using s8 by (simp add: eval_nat_numeral)
qed

theorem EventLoop_queued_run_witness: "\<exists>later. ran ex_after = [7] @ later"
  using EventLoop_queued_run [OF _ ex_conf_reach ex_conf_runs] by (simp add: ex_loop_def ex_conf_def ex_after_def)

text \<open>A functor that the loop's own thread queues before it calls \<^verbatim>\<open>loop()\<close> is not covered by the
  wake-up: the loop can be waiting in \<^verbatim>\<open>epoll_wait\<close> with the functor queued, nobody about to wake it
  and the wake-up descriptor not readable.\<close>

lemma EventLoop_early_queue_waits:
  assumes "loop_fresh l"
  shows "\<exists>c. (lstep True)\<^sup>*\<^sup>* (conf_init l) c \<and> lpc c = Polling \<and> notifying c = [] \<and> quitting c = [] \<and>
    m_pendingFunctors (el c) = [f] \<and> wakeCount (el c) = 0"
proof -
  let ?t = "m_threadId l"
  let ?c1 = "(conf_init l)\<lparr>el := queue_push f l, notifying := [?t], pushed := [f]\<rparr>"
  let ?c2 = "?c1\<lparr>notifying := []\<rparr>"
  let ?c3 = "?c2\<lparr>el := (queue_push f l)\<lparr>m_looping := True, m_quit := False\<rparr>, lpc := Testing\<rparr>"
  let ?c4 = "?c3\<lparr>lpc := Polling\<rparr>"
  have "lstep True (conf_init l) ?c1"
    using t_push [of "conf_init l" ?t True f] by (simp add: conf_init_def busy_def)
  moreover have "lstep True ?c1 ?c2"
    using t_notify [of ?t ?c1 True] assms by (simp add: el_defs loop_fresh_def conf_init_def)
  moreover have "lstep True ?c2 ?c3"
    using l_start [of ?c2 True] by (simp add: conf_init_def loop_free_def busy_def)
  moreover have "lstep True ?c3 ?c4"
    using l_test [of ?c3 True] by (simp add: conf_init_def)
  ultimately have "(lstep True)\<^sup>*\<^sup>* (conf_init l) ?c4" by (meson converse_rtranclp_into_rtranclp rtranclp.rtrancl_refl)
  then show ?thesis using assms
    by (intro exI [of _ ?c4]) (simp add: conf_init_def queue_push_def loop_fresh_def)
qed

text \<open>\<^verbatim>\<open>loop()\<close> forgets a \<^verbatim>\<open>quit()\<close> that came before it: such a call has no more effect than the
  wake-up it sends.\<close>

lemma EventLoop_quit_before_loop:
  "EventLoop_loop ps cbs release run discard (EventLoop_quit tid l) =
   EventLoop_loop ps cbs release run discard (if m_threadId l = tid then l else EventLoop_wakeUp l)"
proof -
  have "(EventLoop_quit tid l)\<lparr>m_looping := True, m_quit := False\<rparr> =
      (if m_threadId l = tid then l else EventLoop_wakeUp l)\<lparr>m_looping := True, m_quit := False\<rparr>"
    by (simp add: EventLoop_quit_def quit_notify_def quit_flag_def EventLoop_isInLoopThread_def EventLoop_wakeUp_def)
  then show ?thesis by (simp only: EventLoop_loop_def)
qed

text \<open>\<^verbatim>\<open>doPendingFunctors\<close> runs the functors that were queued when it started, and functors that these
  queue in turn stay queued, in order, for the next round, with the loop woken for it.\<close>

lemma EventLoop_doPendingFunctors_requeue:
  "\<exists>l'. EventLoop_doPendingFunctors (queue_body body) (\<lambda>_. Inr) l = Inr l' \<and> \<not> m_callingPendingFunctors l' \<and>
    m_pendingFunctors l' = concat (map body (m_pendingFunctors l)) \<and>
    (m_pendingFunctors l' = [] \<or> 0 < wakeCount l')"
proof -
  let ?l = "l\<lparr>m_callingPendingFunctors := True, m_pendingFunctors := []\<rparr>"
  obtain l' where "run_functors (queue_body body) (m_pendingFunctors l) ?l = Inr l'"
    "m_pendingFunctors l' = concat (map body (m_pendingFunctors l))"
    "concat (map body (m_pendingFunctors l)) \<noteq> [] \<longrightarrow> 0 < wakeCount l'"
    using run_functors_queue [of ?l body "m_pendingFunctors l"] by auto
  then show ?thesis by (auto simp: EventLoop_doPendingFunctors_def pending_swap_def)
qed

text \<open>The loop returns as soon as a round ends with \<^verbatim>\<open>m_quit\<close> set, and only then.\<close>

lemma EventLoop_loop_stops:
  "(EventLoop_loop ps cbs release run discard l = Some (Inr l') \<longrightarrow> m_quit l' \<and> \<not> m_looping l') \<and>
   (EventLoop_round wait now cbs release run discard (l\<lparr>m_looping := True, m_quit := False\<rparr>) = Inr l1 \<and> m_quit l1 \<longrightarrow>
      EventLoop_loop ((wait, now) # ps) cbs release run discard l = Some (Inr (l1\<lparr>m_looping := False\<rparr>)))"
proof -
  have "m_quit l' \<and> \<not> m_looping l'" if "EventLoop_loop ps cbs release run discard l = Some (Inr l')"
    using that loop_rounds_quit by (auto simp: EventLoop_loop_def rbind_eq_Inr)
  moreover have "EventLoop_loop ((wait, now) # ps) cbs release run discard l = Some (Inr (l1\<lparr>m_looping := False\<rparr>))"
    if "EventLoop_round wait now cbs release run discard (l\<lparr>m_looping := True, m_quit := False\<rparr>) = Inr l1" "m_quit l1"
    using that by (cases ps) (auto simp: EventLoop_loop_def loop_rounds_Cons loop_rounds_Nil)
  ultimately show ?thesis by blast
qed

text \<open>C29: Constructing a loop leaves its wake-up and timer channels watched for reading and nothing else;
  destroying it empties the kernel's interest list again. With \<^verbatim>\<open>MUDUO_USE_POLL\<close> set the constructor
  dereferences a null poller, and a second loop in a thread ends the process.\<close>

theorem EventLoop_new_dtor:
  assumes k: "kernel_accepts ctl" and fds: "0 \<le> eventfd" "0 \<le> epollfd" "0 \<le> timerfd" "eventfd \<noteq> timerfd"
    and wt: "w \<noteq> t"
  shows "(\<exists>l. EventLoop_new ctl None eventfd epollfd timerfd tid False w t = Inr (l :: 'f eventloop) \<and> loop_fresh l \<and>
      interest (ctlLog l) = [eventfd \<mapsto> (kReadEvent, w), timerfd \<mapsto> (kReadEvent, t)] \<and>
      (\<exists>l'. EventLoop_dtor ctl w t l = Inr l' \<and> interest (ctlLog l') = (\<lambda>_. None))) \<and>
    EventLoop_new ctl (Some env) eventfd epollfd timerfd tid existing w t = (Inl NullDeref :: 'f eventloop res) \<and>
    EventLoop_new ctl None eventfd epollfd timerfd tid True w t = (Inl LogFatal :: 'f eventloop res)"
proof -
  let ?ct = "(Channel_new timerfd)\<lparr>m_readCallBack := Some cb_timerRead\<rparr>"
  let ?cw = "(Channel_new eventfd)\<lparr>m_readCallBack := Some cb_handRead\<rparr>"
  let ?on = "\<lambda>ch. ch\<lparr>m_events := kReadEvent, m_index := kAdded\<rparr>"
  let ?p = "\<lparr>channels = (\<lambda>_. None), m_channel_map = (\<lambda>_. None), m_reventList = KInitEventListSize, ctlLog = [], refs = (\<lambda>_. 0)\<rparr>"
  define l0 :: "'f eventloop" where "l0 = Channel_put t ?ct (Channel_put w (Channel_new eventfd)
      (poller.extend ?p (eventloop.fields [] False False False tid [] 0 0)))"
  have i0: "ep_inv l0" using fds wt
    by (auto simp: l0_def ep_inv_def Channel_put_def poller.defs Channel_new_def kNew_def kAdded_def split: if_splits)
  have c0: "channels l0 t = Some ?ct" "channels l0 = [w \<mapsto> Channel_new eventfd, t \<mapsto> ?ct]" "loop_fresh l0"
    by (simp_all add: l0_def Channel_put_def poller.defs eventloop.defs loop_fresh_def)
  obtain l1 where l1: "Channel_enableReading ctl t l0 = Inr l1" "ep_inv l1" "loop_fresh l1"
    "channels l1 = (channels l0)(t \<mapsto> ?on ?ct)"
    using enableReading_fresh [OF i0 c0(1) k _ _ c0(3)] by (auto simp: Channel_new_def kNew_def)
  have cw: "channels l1 w = Some (Channel_new eventfd)" using l1(4) c0(2) wt by simp
  define l2 where "l2 = Channel_put w ?cw l1"
  have i2: "ep_inv l2" "channels l2 w = Some ?cw" "loop_fresh l2"
    using ep_inv_put [OF l1(2) cw, of ?cw] l1(3) by (simp_all add: l2_def Channel_put_def loop_fresh_def)
  obtain l where l: "Channel_enableReading ctl w l2 = Inr l" "ep_inv l" "loop_fresh l"
    "channels l = (channels l2)(w \<mapsto> ?on ?cw)"
    using enableReading_fresh [OF i2(1,2) k _ _ i2(3)] by (auto simp: Channel_new_def kNew_def)
  have c: "channels l = [w \<mapsto> ?on ?cw, t \<mapsto> ?on ?ct]"
    using l(4) l1(4) c0(2) wt by (auto simp: l2_def Channel_put_def fun_eq_iff)
  have new: "EventLoop_new ctl None eventfd epollfd timerfd tid ex w t = (if ex then Inl LogFatal else Inr l)" for ex
    using fds l1(1) l(1) cw by (simp add: EventLoop_new_def createEventfd_def createTimerfd_def newDefaultPoller_def
        EpollPoller_new_def l0_def [symmetric] l2_def Channel_at_def Let_def)
  have int: "interest (ctlLog l) = [eventfd \<mapsto> (kReadEvent, w), timerfd \<mapsto> (kReadEvent, t)]"
    using interest_pair [OF l(2) c wt] fds by (simp add: Channel_new_def)
  obtain l' where l': "EventLoop_dtor ctl w t l = Inr l'" "ep_inv l'" "channels l' = (\<lambda>_. None)"
    using EventLoop_dtor_ok [OF l(2) _ _ wt k] c wt by fastforce
  have "interest (ctlLog l') fd = None" for fd
    using ep_inv_interest_iff [OF l'(2), of fd] l'(3) by (cases "interest (ctlLog l') fd") auto
  then have "interest (ctlLog l') = (\<lambda>_. None)" by (rule ext)
  moreover have "EventLoop_new ctl (Some env) eventfd epollfd timerfd tid existing w t = (Inl NullDeref :: 'f eventloop res)"
    using fds by (simp add: EventLoop_new_def createEventfd_def createTimerfd_def newDefaultPoller_def)
  ultimately show ?thesis using new l(3) int l'(1) by auto
qed

theorem EventLoop_new_dtor_witness:
  "\<exists>l :: nat eventloop. EventLoop_new ex_ctl None 4 3 5 1 False 10 20 = Inr l \<and>
     interest (ctlLog l) = [4 \<mapsto> (kReadEvent, 10), 5 \<mapsto> (kReadEvent, 20)]"
  using EventLoop_new_dtor [OF ex_ctl_accepts, of 4 3 5 10 20 1] by auto

end
