(* ===== verification/Addresses.thy ===== *)
theory Addresses
  imports Decimal
begin

text \<open>
  Byte order (\<^verbatim>\<open>src/mymuduo/Endian.h\<close>), socket addresses (\<^verbatim>\<open>InetAddress.h\<close>, \<^verbatim>\<open>InetAddress.cpp\<close>) and the helpers of
  \<^verbatim>\<open>SocketOps.cpp\<close>. \<open>big\<close> tells whether the host is big-endian. An address keeps its port and its IPv4
  address as the words whose bytes in memory are in network order. \<open>inet_ntop\<close> and \<open>inet_pton\<close> are the
  library's conversions of dotted decimal addresses; \<^verbatim>\<open>inet_addr\<close>, which reads more formats, is an
  argument. System calls are arguments too: \<open>Inl\<close> is a failure with its \<^verbatim>\<open>errno\<close>.
\<close>

section \<open>Byte order\<close>

text \<open>\<open>bswap k\<close> reverses the lowest \<open>k\<close> bytes of a word.\<close>

fun bswap :: "nat \<Rightarrow> 'a::len word \<Rightarrow> 'a word" where
  "bswap 0 x = 0"
| "bswap (Suc k) x = push_bit (8 * k) (take_bit 8 x) OR bswap k (drop_bit 8 x)"

definition htobe :: "bool \<Rightarrow> nat \<Rightarrow> 'a::len word \<Rightarrow> 'a word" where
  "htobe big k x = (if big then x else bswap k x)"

definition hostToNetwork64 :: "bool \<Rightarrow> u64 \<Rightarrow> u64" where "hostToNetwork64 big host64 = htobe big 8 host64"
definition hostToNetwork32 :: "bool \<Rightarrow> u32 \<Rightarrow> u32" where "hostToNetwork32 big host32 = htobe big 4 host32"
definition hostToNetwork16 :: "bool \<Rightarrow> u16 \<Rightarrow> u16" where "hostToNetwork16 big host16 = htobe big 2 host16"
definition networkToHost64 :: "bool \<Rightarrow> u64 \<Rightarrow> u64" where "networkToHost64 big net64 = htobe big 8 net64"
definition networkToHost32 :: "bool \<Rightarrow> u32 \<Rightarrow> u32" where "networkToHost32 big net32 = htobe big 4 net32"
definition networkToHost16 :: "bool \<Rightarrow> u16 \<Rightarrow> u16" where "networkToHost16 big net16 = htobe big 2 net16"

text \<open>The bytes of a word, lowest address first.\<close>

definition mem_bytes :: "bool \<Rightarrow> nat \<Rightarrow> 'a::len word \<Rightarrow> byte list" where
  "mem_bytes big k x = map (\<lambda>i. ucast (drop_bit (8 * (if big then k - 1 - i else i)) x)) [0 ..< k]"

definition mem_word :: "bool \<Rightarrow> byte list \<Rightarrow> 'a::len word" where
  "mem_word big bs = foldr (\<lambda>b w. push_bit 8 w OR ucast b) (if big then rev bs else bs) 0"

section \<open>Dotted decimal addresses\<close>

definition quad :: "byte list \<Rightarrow> string" where
  "quad bs = concat (map (\<lambda>i. (if i = 0 then '''' else ''.'') @ dec_nat (unat (bs ! i))) [0 ..< length bs])"

definition inet_ntop :: "bool \<Rightarrow> u32 \<Rightarrow> string" where
  "inet_ntop big a = quad (mem_bytes big 4 a)"

text \<open>The state of the parser: whether the current number has a digit, the numbers before it and its value.
  A number has no leading zeros and is at most 255.\<close>

fun pton4 :: "bool \<Rightarrow> nat list \<Rightarrow> nat \<Rightarrow> string \<Rightarrow> nat list option" where
  "pton4 saw done cur [] = (if saw \<and> length done = 3 then Some (done @ [cur]) else None)"
| "pton4 saw done cur (ch # src) =
     (if 48 \<le> (of_char ch :: nat) \<and> (of_char ch :: nat) \<le> 57 then
        let new = cur * 10 + undigit ch in
        if saw \<and> cur = 0 then None
        else if 255 < new then None
        else if \<not> saw \<and> 3 < length done then None
        else pton4 True done new src
      else if ch = CHR ''.'' \<and> saw then
        if length done = 3 then None else pton4 False (done @ [cur]) 0 src
      else None)"

definition inet_pton :: "bool \<Rightarrow> string \<Rightarrow> u32 option" where
  "inet_pton big src = map_option (\<lambda>ns. mem_word big (map of_nat ns)) (pton4 False [] 0 src)"

section \<open>Socket addresses\<close>

record sockaddr_in =
  sin_family :: u16
  sin_port :: u16
  s_addr :: u32

definition AF_INET :: u16 where "AF_INET = 2"

definition sockaddr_zero :: sockaddr_in where
  "sockaddr_zero = \<lparr>sin_family = 0, sin_port = 0, s_addr = 0\<rparr>"

text \<open>The port argument is a \<^verbatim>\<open>short\<close>: its bits are passed on unchanged.\<close>

definition InetAddress_new :: "bool \<Rightarrow> (string \<Rightarrow> u32) \<Rightarrow> string \<Rightarrow> u16 \<Rightarrow> sockaddr_in" where
  "InetAddress_new big inet_addr ipv4 port =
     sockaddr_zero\<lparr>sin_family := AF_INET, sin_port := hostToNetwork16 big port, s_addr := inet_addr ipv4\<rparr>"

definition InetAddress_of :: "sockaddr_in \<Rightarrow> sockaddr_in" where
  "InetAddress_of addr = addr"

definition InetAddress_getSockAddr :: "sockaddr_in \<Rightarrow> sockaddr_in" where
  "InetAddress_getSockAddr addr = addr"

definition InetAddress_toIp :: "bool \<Rightarrow> sockaddr_in \<Rightarrow> string" where
  "InetAddress_toIp big addr = inet_ntop big (s_addr addr)"

text \<open>\<^verbatim>\<open>toPort\<close> returns a \<^verbatim>\<open>short\<close>.\<close>

definition InetAddress_toPort :: "bool \<Rightarrow> sockaddr_in \<Rightarrow> int" where
  "InetAddress_toPort big addr = sint (networkToHost16 big (sin_port addr))"

definition InetAddress_toIpPort :: "bool \<Rightarrow> sockaddr_in \<Rightarrow> string" where
  "InetAddress_toIpPort big addr = InetAddress_toIp big addr @ '':'' @ dec_int (InetAddress_toPort big addr)"

definition InetAddress_setSockAddr :: "sockaddr_in \<Rightarrow> sockaddr_in \<Rightarrow> sockaddr_in" where
  "InetAddress_setSockAddr sockaddr addr = sockaddr"

section \<open>Socket helpers\<close>

definition INET_ADDRSTRLEN :: nat where "INET_ADDRSTRLEN = 16"

definition sockets_toIp :: "bool \<Rightarrow> nat \<Rightarrow> sockaddr_in \<Rightarrow> string res" where
  "sockets_toIp big sz addr =
     rbind (check AssertFail (INET_ADDRSTRLEN \<le> sz)) (\<lambda>_. Inr (inet_ntop big (s_addr addr)))"

definition sockets_toIpPort :: "bool \<Rightarrow> nat \<Rightarrow> sockaddr_in \<Rightarrow> string res" where
  "sockets_toIpPort big sz addr =
     rbind (sockets_toIp big INET_ADDRSTRLEN addr) (\<lambda>host.
     let port = networkToHost16 big (sin_port addr) in
     Inr (snprintf sz (host @ '':'' @ dec_nat (unat port))))"

text \<open>An address that does not parse is only logged.\<close>

definition sockets_fromIpPort :: "bool \<Rightarrow> string \<Rightarrow> u16 \<Rightarrow> sockaddr_in \<Rightarrow> sockaddr_in" where
  "sockets_fromIpPort big ip port addr =
     (let addr = addr\<lparr>sin_family := AF_INET, sin_port := hostToNetwork16 big port\<rparr> in
      case inet_pton big ip of None \<Rightarrow> addr | Some a \<Rightarrow> addr\<lparr>s_addr := a\<rparr>)"

definition createNonblockingOrDie :: "(int + int) \<Rightarrow> int res" where
  "createNonblockingOrDie socket = (case socket of Inl _ \<Rightarrow> Inl LogFatal | Inr fd \<Rightarrow> Inr fd)"

definition bindOrDie :: "(int + unit) \<Rightarrow> unit res" where
  "bindOrDie bind = (case bind of Inl _ \<Rightarrow> Inl LogFatal | Inr _ \<Rightarrow> Inr ())"

definition listenOrDie :: "(int + unit) \<Rightarrow> unit res" where
  "listenOrDie listen = (case listen of Inl _ \<Rightarrow> Inl LogFatal | Inr _ \<Rightarrow> Inr ())"

text \<open>The error numbers that \<^verbatim>\<open>accept\<close> calls expected: \<^verbatim>\<open>EAGAIN\<close>, \<^verbatim>\<open>ECONNABORTED\<close>, \<^verbatim>\<open>EINTR\<close>, \<^verbatim>\<open>EPROTO\<close>, \<^verbatim>\<open>EPERM\<close> and
  \<^verbatim>\<open>EMFILE\<close>. The process has ended before they are looked at. The result is the descriptor and the
  value of \<^verbatim>\<open>errno\<close>.\<close>

definition accept_expected :: "int list" where
  "accept_expected = [11, 103, 4, 71, 1, 24]"

definition sockets_accept :: "(int + int) \<Rightarrow> (int \<times> int option) res" where
  "sockets_accept accept4 =
     (case accept4 of
        Inr connfd \<Rightarrow> Inr (connfd, None)
      | Inl savedErrno \<Rightarrow>
          rbind (check LogFatal False) (\<lambda>_.
          if savedErrno \<in> set accept_expected then Inr (- 1, Some savedErrno)
          else rbind (check LogFatal False) (\<lambda>_. Inr (- 1, Some savedErrno))))"

definition getSocketError :: "(int + int) \<Rightarrow> int" where
  "getSocketError getsockopt = (case getsockopt of Inl errno \<Rightarrow> errno | Inr optval \<Rightarrow> optval)"

definition getLocalAddr :: "(int + sockaddr_in) \<Rightarrow> sockaddr_in" where
  "getLocalAddr getsockname = (case getsockname of Inl _ \<Rightarrow> sockaddr_zero | Inr addr \<Rightarrow> addr)"

definition getPeerAddr :: "(int + sockaddr_in) \<Rightarrow> sockaddr_in" where
  "getPeerAddr getpeername = (case getpeername of Inl _ \<Rightarrow> sockaddr_zero | Inr addr \<Rightarrow> addr)"

definition isSelfConnect :: "(int + sockaddr_in) \<Rightarrow> (int + sockaddr_in) \<Rightarrow> bool" where
  "isSelfConnect getsockname getpeername =
     (let localaddr = getLocalAddr getsockname; peeraddr = getPeerAddr getpeername in
      sin_port localaddr = sin_port peeraddr \<and> s_addr localaddr = s_addr peeraddr)"

text \<open>
  System calls on a descriptor, as functions on the kernel's state. A negative result is a failure;
  \<^verbatim>\<open>close\<close> and \<^verbatim>\<open>shutdownWrite\<close> only log it, and what they log is the second component of their result.
\<close>

definition sizeof_sockaddr_in :: nat where "sizeof_sockaddr_in = 16"

definition sockets_connect ::
    "(int \<Rightarrow> sockaddr_in \<Rightarrow> nat \<Rightarrow> 'k \<Rightarrow> int \<times> 'k) \<Rightarrow> int \<Rightarrow> sockaddr_in \<Rightarrow> 'k \<Rightarrow> int \<times> 'k" where
  "sockets_connect connect sockfd addr = connect sockfd addr sizeof_sockaddr_in"

text \<open>\<^verbatim>\<open>read\<close> returns the bytes it stored with its result, \<^verbatim>\<open>readv\<close> those of each part.\<close>

definition sockets_read ::
    "(int \<Rightarrow> nat \<Rightarrow> 'k \<Rightarrow> int \<times> byte list \<times> 'k) \<Rightarrow> int \<Rightarrow> nat \<Rightarrow> 'k \<Rightarrow> int \<times> byte list \<times> 'k" where
  "sockets_read read sockfd count = read sockfd count"

definition sockets_readv ::
    "(int \<Rightarrow> nat list \<Rightarrow> int \<Rightarrow> 'k \<Rightarrow> int \<times> byte list list \<times> 'k) \<Rightarrow> int \<Rightarrow> nat list \<Rightarrow> int \<Rightarrow> 'k \<Rightarrow> int \<times> byte list list \<times> 'k" where
  "sockets_readv readv sockfd iov iovcnt = readv sockfd iov iovcnt"

definition sockets_write ::
    "(int \<Rightarrow> byte list \<Rightarrow> nat \<Rightarrow> 'k \<Rightarrow> int \<times> 'k) \<Rightarrow> int \<Rightarrow> byte list \<Rightarrow> nat \<Rightarrow> 'k \<Rightarrow> int \<times> 'k" where
  "sockets_write write' sockfd buf count = write' sockfd buf count"

definition sockets_close :: "(int \<Rightarrow> 'k \<Rightarrow> int \<times> 'k) \<Rightarrow> int \<Rightarrow> 'k \<Rightarrow> 'k \<times> string list" where
  "sockets_close close sockfd k =
     (let (ret, k) = close sockfd k in (k, if ret < 0 then [''close()''] else []))"

datatype shut_how = SHUT_RD | SHUT_WR | SHUT_RDWR

definition sockets_shutdownWrite :: "(int \<Rightarrow> shut_how \<Rightarrow> 'k \<Rightarrow> int \<times> 'k) \<Rightarrow> int \<Rightarrow> 'k \<Rightarrow> 'k \<times> string list" where
  "sockets_shutdownWrite shutdown sockfd k =
     (let (ret, k) = shutdown sockfd SHUT_WR k in (k, if ret < 0 then [''sockets::shutdownWrite''] else []))"

text \<open>\<^verbatim>\<open>flags\<close> is an \<^verbatim>\<open>int\<close>, kept as its 32 bits: a failed \<^verbatim>\<open>F_GETFL\<close> leaves all of them set.\<close>

datatype fcntl_cmd = F_GETFL | F_SETFL | F_GETFD | F_SETFD

definition O_NONBLOCK :: u32 where "O_NONBLOCK = 0x800"
definition FD_CLOEXEC :: u32 where "FD_CLOEXEC = 1"

definition setNonBlockAndCloseOnExec :: "(int \<Rightarrow> fcntl_cmd \<Rightarrow> u32 \<Rightarrow> 'k \<Rightarrow> u32 \<times> 'k) \<Rightarrow> int \<Rightarrow> 'k \<Rightarrow> 'k" where
  "setNonBlockAndCloseOnExec fcntl sockfd k =
     (let (flags, k) = fcntl sockfd F_GETFL 0 k;
          flags = flags OR O_NONBLOCK;
          (ret, k) = fcntl sockfd F_SETFL flags k;
          (flags, k) = fcntl sockfd F_GETFD 0 k;
          flags = flags OR FD_CLOEXEC;
          (ret, k) = fcntl sockfd F_SETFD flags k
      in k)"

section \<open>Byte order is an involution\<close>

lemma bit_bswap:
  fixes x :: "'a::len word"
  assumes "8 * k \<le> LENGTH('a)"
  shows "bit (bswap k x) n \<longleftrightarrow> n < 8 * k \<and> bit x (8 * (k - 1 - n div 8) + n mod 8)"
  using assms
proof (induction k arbitrary: x)
  case (Suc k)
  have IH: "bit (bswap k (drop_bit 8 x)) n \<longleftrightarrow> n < 8 * k \<and> bit x (8 + (8 * (k - 1 - n div 8) + n mod 8))"
    using Suc by (simp add: bit_drop_bit_eq)
  show ?case
  proof (cases "n < 8 * k")
    case True
    then have "n div 8 < k" by (simp add: less_mult_imp_div_less mult.commute)
    then have e: "8 + (8 * (k - 1 - n div 8) + n mod 8) = 8 * (Suc k - 1 - n div 8) + n mod 8" by simp
    have "bit (bswap (Suc k) x) n \<longleftrightarrow> bit (bswap k (drop_bit 8 x)) n"
      using True by (simp add: bit_or_iff bit_push_bit_iff)
    then show ?thesis using True IH unfolding e by simp
  next
    case False
    then have "bit (bswap (Suc k) x) n \<longleftrightarrow> n - 8 * k < 8 \<and> bit x (n - 8 * k)"
      using IH Suc.prems bit_imp_le_length [of x "n - 8 * k"]
      by (auto simp: bit_or_iff bit_push_bit_iff bit_take_bit_iff possible_bit_def)
    moreover have "n div 8 = k \<and> n mod 8 = n - 8 * k" if "n < 8 * Suc k"
    proof
      show "n div 8 = k" using that False by (simp add: div_nat_eqI)
      then show "n mod 8 = n - 8 * k" using minus_div_mult_eq_mod [of n 8] by (simp add: mult.commute)
    qed
    ultimately show ?thesis using False by (cases "n < 8 * Suc k") auto
  qed
qed simp

lemma bswap_bswap:
  fixes x :: "'a::len word"
  assumes "LENGTH('a) = 8 * k"
  shows "bswap k (bswap k x) = x"
proof (rule bit_word_eqI)
  fix n assume n: "n < LENGTH('a)"
  let ?m = "8 * (k - 1 - n div 8) + n mod 8"
  have "n div 8 < k" using n assms by (simp add: less_mult_imp_div_less mult.commute)
  then have "?m < 8 * k" "?m div 8 = k - 1 - n div 8" "?m mod 8 = n mod 8" by auto
  then have "8 * (k - 1 - ?m div 8) + ?m mod 8 = n" using \<open>n div 8 < k\<close> by simp
  then show "bit (bswap k (bswap k x)) n = bit x n"
    using n assms \<open>?m < 8 * k\<close> by (simp add: bit_bswap)
qed

text \<open>Whatever the host, the bytes of the result in memory are those of the argument, most significant first,
  and the conversion back undoes it.\<close>

lemma ucast_drop_bswap:
  fixes x :: "'a::len word"
  assumes "LENGTH('a) = 8 * k" and "i < k"
  shows "(ucast (drop_bit (8 * i) (bswap k x)) :: byte) = ucast (drop_bit (8 * (k - 1 - i)) x)"
proof (rule bit_word_eqI)
  fix n assume n: "n < LENGTH(8)"
  then have "(8 * i + n) div 8 = i" "(8 * i + n) mod 8 = n" "8 * i + n < 8 * k" using assms by auto
  then show "bit (ucast (drop_bit (8 * i) (bswap k x)) :: byte) n = bit (ucast (drop_bit (8 * (k - 1 - i)) x) :: byte) n"
    using n assms by (simp add: bit_ucast_iff bit_drop_bit_eq bit_bswap)
qed

lemma mem_bytes_htobe:
  fixes x :: "'a::len word"
  assumes "LENGTH('a) = 8 * k"
  shows "mem_bytes big k (htobe big k x) = mem_bytes True k x"
  using ucast_drop_bswap [OF assms, of _ x] by (simp add: mem_bytes_def htobe_def)

lemma htobe_htobe:
  fixes x :: "'a::len word"
  assumes "LENGTH('a) = 8 * k"
  shows "htobe big k (htobe big k x) = x"
  using bswap_bswap [OF assms] by (simp add: htobe_def)

lemma networkToHost16_inverse [simp]: "networkToHost16 big (hostToNetwork16 big x) = x"
  by (simp add: networkToHost16_def hostToNetwork16_def htobe_htobe)

lemma networkToHost32_inverse: "networkToHost32 big (hostToNetwork32 big x) = x"
  by (simp add: networkToHost32_def hostToNetwork32_def htobe_htobe)

lemma networkToHost64_inverse: "networkToHost64 big (hostToNetwork64 big x) = x"
  by (simp add: networkToHost64_def hostToNetwork64_def htobe_htobe)

lemma mem_word_4: "mem_word False [a, b, c, d] = (push_bit 24 (ucast d) OR push_bit 16 (ucast c) OR push_bit 8 (ucast b) OR ucast a :: u32)"
  by (simp add: mem_word_def push_bit_or push_bit_push_bit or.assoc)

lemma mem_word_mem_bytes: "mem_word big (mem_bytes big 4 a) = (a :: u32)"
proof -
  have m: "mem_bytes False 4 a = [ucast a, ucast (drop_bit 8 a), ucast (drop_bit 16 a), ucast (drop_bit 24 a)]"
    by (simp add: mem_bytes_def upt_rec)
  have "mem_bytes True 4 a = rev (mem_bytes False 4 a)"
    by (simp add: mem_bytes_def upt_rec)
  then have "mem_word big (mem_bytes big 4 a) = (mem_word False (mem_bytes False 4 a) :: u32)"
    by (cases big) (simp_all add: mem_word_def)
  also have "\<dots> = a" unfolding m mem_word_4
  proof (rule bit_word_eqI)
    fix n assume "n < LENGTH(32)"
    then consider "n < 8" | "8 \<le> n" "n < 16" | "16 \<le> n" "n < 24" | "24 \<le> n" "n < 32" by fastforce
    then show "bit (push_bit 24 (ucast (ucast (drop_bit 24 a) :: byte)) OR push_bit 16 (ucast (ucast (drop_bit 16 a) :: byte)) OR
        push_bit 8 (ucast (ucast (drop_bit 8 a) :: byte)) OR ucast (ucast a :: byte) :: u32) n = bit a n"
      by cases (auto simp: bit_or_iff bit_push_bit_iff bit_ucast_iff bit_drop_bit_eq)
  qed
  finally show ?thesis .
qed

section \<open>Dotted decimal round trip\<close>

lemma dec_nat_small: "n < 10 \<Longrightarrow> dec_nat n = [digit n]"
  by (subst dec_nat.simps) simp

lemma dec_nat_big: "10 \<le> n \<Longrightarrow> dec_nat n = dec_nat (n div 10) @ [digit (n mod 10)]"
  by (subst dec_nat.simps) simp

lemma pton4_digit:
  assumes "d < 10" and "\<not> (saw \<and> cur = 0)" and "cur * 10 + d \<le> 255" and "length done \<le> 3"
  shows "pton4 saw done cur (digit d # src) = pton4 True done (cur * 10 + d) src"
  using assms by (auto simp: of_char_digit Let_def)

lemma pton4_number:
  assumes n: "n \<le> 255" and "length done \<le> 3"
  shows "pton4 False done 0 (dec_nat n @ src) = pton4 True done n src"
proof -
  consider "n < 10" | "10 \<le> n" "n < 100" | "100 \<le> n" by linarith
  then show ?thesis
  proof cases
    case 1
    then show ?thesis using assms by (simp add: dec_nat_small pton4_digit del: pton4.simps)
  next
    case 2
    then have "dec_nat n = [digit (n div 10), digit (n mod 10)]"
      by (simp add: dec_nat_big [of n] dec_nat_small less_mult_imp_div_less)
    moreover have "n div 10 < 10" "n div 10 \<noteq> 0" "n div 10 * 10 + n mod 10 = n" using 2 by auto
    ultimately show ?thesis using assms by (simp add: pton4_digit del: pton4.simps)
  next
    case 3
    let ?a = "n div 10 div 10" and ?b = "n div 10 mod 10" and ?c = "n mod 10"
    have d: "?a < 10" "?a \<noteq> 0" "?a * 10 + ?b = n div 10" "n div 10 * 10 + ?c = n" using 3 n by auto
    have "dec_nat n = [digit ?a, digit ?b, digit ?c]"
      using 3 d(1) by (simp add: dec_nat_big [of n] dec_nat_big [of "n div 10"] dec_nat_small)
    moreover have "n div 10 \<noteq> 0" "n div 10 \<le> 255" using 3 n by auto
    ultimately show ?thesis using assms d by (simp add: pton4_digit del: pton4.simps)
  qed
qed

lemma pton4_dot: "length done < 3 \<Longrightarrow> pton4 True done n (CHR ''.'' # src) = pton4 False (done @ [n]) 0 src"
  by simp

lemma unat_byte: "unat (b :: byte) \<le> 255"
  using unsigned_less [of b, where ?'a = nat] by simp

lemma inet_pton_ntop: "inet_pton big (inet_ntop big a) = Some a"
proof -
  let ?bs = "mem_bytes big 4 a"
  have "length ?bs = length [(), (), (), ()]" by (simp add: mem_bytes_def)
  then obtain b0 b1 b2 b3 where b: "?bs = [b0, b1, b2, b3]" by (auto simp: length_Suc_conv)
  have "quad ?bs = dec_nat (unat b0) @ CHR ''.'' # dec_nat (unat b1) @ CHR ''.'' # dec_nat (unat b2) @ CHR ''.'' # dec_nat (unat b3) @ []"
    by (simp add: b quad_def upt_rec)
  then have "pton4 False [] 0 (quad ?bs) = Some (map unat ?bs)"
    unfolding b by (simp add: pton4_number unat_byte pton4_dot del: pton4.simps append_Nil2) simp
  moreover have "map (of_nat \<circ> unat) ?bs = ?bs" by (rule map_idI) simp
  ultimately show ?thesis by (simp add: inet_pton_def inet_ntop_def mem_word_mem_bytes del: map_eq_conv)
qed

text \<open>Dotted addresses have no colon and at most 15 characters.\<close>

lemma inet_ntop_colon: "CHR '':'' \<notin> set (inet_ntop big a)"
  using not_digit_notin [of "CHR '':''"] by (auto simp: inet_ntop_def quad_def)

lemma length_inet_ntop: "length (inet_ntop big a) \<le> 15"
proof -
  let ?bs = "mem_bytes big 4 a"
  have "length ?bs = length [(), (), (), ()]" by (simp add: mem_bytes_def)
  then obtain b0 b1 b2 b3 where b: "?bs = [b0, b1, b2, b3]" by (auto simp: length_Suc_conv)
  have "length (dec_nat (unat x)) \<le> 3" for x :: byte using length_dec_nat [of "unat x" 3] unat_byte [of x] by simp
  from this [of b0] this [of b1] this [of b2] this [of b3] show ?thesis
    by (simp add: inet_ntop_def b quad_def upt_rec)
qed

lemma sockets_toIpPort_full:
  assumes "22 \<le> sz"
  shows "sockets_toIpPort big sz addr =
    Inr (inet_ntop big (s_addr addr) @ '':'' @ dec_nat (unat (networkToHost16 big (sin_port addr))))"
proof -
  have "length (dec_nat (unat p)) \<le> 5" for p :: u16
    using length_dec_nat [of "unat p" 5] unsigned_less [of p, where ?'a = nat] by simp
  from this [of "networkToHost16 big (sin_port addr)"] length_inet_ntop [of big "s_addr addr"] assms
  show ?thesis by (simp add: sockets_toIpPort_def sockets_toIp_def snprintf_def)
qed

lemma sint_u16: "sint (x :: u16) = (if unat x < 32768 then int (unat x) else int (unat x) - 65536)"
proof -
  define u where "u = unat x"
  have u: "uint x = int u" "u < 65536" using unsigned_less [of x, where ?'a = nat] by (simp_all add: u_def)
  have "sint x = signed_take_bit 15 (int u)" using u(1) by (simp add: sint_uint)
  also have "\<dots> = (int u + 32768) mod 65536 - 32768"
    by (simp add: signed_take_bit_eq_take_bit_shift take_bit_eq_mod)
  also have "\<dots> = (if u < 32768 then int u else int u - 65536)"
  proof (cases "u < 32768")
    case False
    have "(int u + 32768) mod 65536 = (int u - 32768) mod 65536"
      using mod_add_self2 [of "int u - 32768" 65536] by (simp add: add.commute)
    also have "\<dots> = int u - 32768" using u(2) False by (intro mod_pos_pos_trivial) auto
    finally show ?thesis using False by simp
  qed (simp add: mod_pos_pos_trivial)
  finally show ?thesis by (simp add: u_def)
qed

section \<open>Properties\<close>

text \<open>C31: Setting an address from its dotted form and a port and printing it gives both back, untruncated in
  a buffer of 22 characters, on hosts of either byte order, and two printed addresses are equal
  only if address and port are. \<^verbatim>\<open>InetAddress\<close> built from the same values prints the same text exactly
  when the port is below 32768: above, \<^verbatim>\<open>toPort\<close> turns it into a negative number.\<close>

theorem address_roundtrip:
  assumes inet_addr_reads_dotted: "\<forall>ip b. inet_pton big ip = Some b \<longrightarrow> inet_addr ip = b" and "22 \<le> sz"
  shows "sockets_toIpPort big sz (sockets_fromIpPort big (inet_ntop big a) port addr) =
      Inr (inet_ntop big a @ '':'' @ dec_nat (unat port)) \<and>
    (sockets_toIpPort big sz (sockets_fromIpPort big (inet_ntop big a) port addr) =
      sockets_toIpPort big sz (sockets_fromIpPort big (inet_ntop big a') port' addr) \<longleftrightarrow> a = a' \<and> port = port') \<and>
    InetAddress_toIpPort big (InetAddress_new big inet_addr (inet_ntop big a) port) =
      inet_ntop big a @ '':'' @ dec_int (if unat port < 32768 then int (unat port) else int (unat port) - 65536)"
proof -
  have t: "sockets_toIpPort big sz (sockets_fromIpPort big (inet_ntop big x) q addr) =
      Inr (inet_ntop big x @ '':'' @ dec_nat (unat q))" for x q
    using sockets_toIpPort_full [OF assms(2)] by (simp add: sockets_fromIpPort_def inet_pton_ntop Let_def)
  have "inet_ntop big x = inet_ntop big y \<Longrightarrow> x = y" for x y
    by (metis inet_pton_ntop option.inject)
  then have "inet_ntop big a @ '':'' @ dec_nat (unat port) = inet_ntop big a' @ '':'' @ dec_nat (unat port') \<longleftrightarrow>
      a = a' \<and> port = port'"
    using sep_inject [OF inet_ntop_colon inet_ntop_colon, of big a _ big a'] word_unat_eq_iff [of port port'] by auto
  moreover have "inet_addr (inet_ntop big a) = a" using assms(1) inet_pton_ntop by blast
  ultimately show ?thesis using t sint_u16 [of port]
    by (simp add: InetAddress_toIpPort_def InetAddress_toIp_def InetAddress_toPort_def InetAddress_new_def)
qed

theorem address_roundtrip_witness:
  "InetAddress_toIpPort False (InetAddress_new False (\<lambda>ip. case inet_pton False ip of None \<Rightarrow> - 1 | Some b \<Rightarrow> b)
      (inet_ntop False 0x0100007f) 40000) = inet_ntop False 0x0100007f @ '':'' @ dec_int (- 25536)"
  using address_roundtrip [where big = False and inet_addr = "\<lambda>ip. case inet_pton False ip of None \<Rightarrow> - 1 | Some b \<Rightarrow> b"
      and a = "0x0100007f" and port = 40000 and sz = 22] by simp

text \<open>\<^verbatim>\<open>sockets::accept\<close> never reports an error to its caller, not even an expected one.\<close>

lemma sockets_accept_fatal: "sockets_accept r = (case r of Inl _ \<Rightarrow> Inl LogFatal | Inr fd \<Rightarrow> Inr (fd, None))"
  by (simp add: sockets_accept_def split: sum.split)

text \<open>With \<^verbatim>\<open>fcntl(2)\<close>, where \<open>fl\<close> are the status flags and \<open>fd\<close> the descriptor flags of an open descriptor and
  \<^verbatim>\<open>F_SETFL\<close> changes the flags in \<open>settable\<close> only, both flags end up set, every other flag stays.\<close>

lemma setNonBlockAndCloseOnExec_sets:
  assumes getfl: "\<And>k. fcntl s F_GETFL 0 k = (fl k, k)" and getfd: "\<And>k. fcntl s F_GETFD 0 k = (fd k, k)"
    and setfl: "\<And>x k. fl (snd (fcntl s F_SETFL x k)) = (fl k AND NOT settable) OR (x AND settable)"
    and setfl_fd: "\<And>x k. fd (snd (fcntl s F_SETFL x k)) = fd k"
    and setfd: "\<And>x k. fd (snd (fcntl s F_SETFD x k)) = x"
    and setfd_fl: "\<And>x k. fl (snd (fcntl s F_SETFD x k)) = fl k"
    and nonblock_settable: "settable AND O_NONBLOCK = O_NONBLOCK"
  shows "fl (setNonBlockAndCloseOnExec fcntl s k) = fl k OR O_NONBLOCK"
    and "fd (setNonBlockAndCloseOnExec fcntl s k) = fd k OR FD_CLOEXEC"
proof -
  have "(f AND NOT settable) OR ((f OR O_NONBLOCK) AND settable) = f OR O_NONBLOCK" for f
  proof (rule bit_word_eqI)
    fix n show "bit ((f AND NOT settable) OR ((f OR O_NONBLOCK) AND settable)) n = bit (f OR O_NONBLOCK) n"
      if "n < LENGTH(32)" for n
      using that arg_cong [OF nonblock_settable, of "\<lambda>w. bit w n"] by (auto simp: bit_simps)
  qed
  then show "fl (setNonBlockAndCloseOnExec fcntl s k) = fl k OR O_NONBLOCK"
    by (simp add: setNonBlockAndCloseOnExec_def assms case_prod_unfold Let_def)
  show "fd (setNonBlockAndCloseOnExec fcntl s k) = fd k OR FD_CLOEXEC"
    by (simp add: setNonBlockAndCloseOnExec_def assms case_prod_unfold Let_def)
qed

text \<open>A socket of which neither address can be read counts as connected to itself.\<close>

lemma isSelfConnect_failed: "isSelfConnect (Inl e) (Inl e')"
  by (simp add: isSelfConnect_def getLocalAddr_def getPeerAddr_def)

end
