(* ===== verification/Tcp_Connection.thy ===== *)
theory Tcp_Connection
  imports Event_Loop Kfifo Addresses
begin

text \<open>
  \<^verbatim>\<open>TcpConnection\<close> of \<^verbatim>\<open>src/mymuduo/TcpConnection.h\<close> and \<^verbatim>\<open>TcpConnection.cpp\<close>, on top of the loop, its channels and
  the \<^verbatim>\<open>Kfifo\<close> buffers. The world extends the loop's state with the connection objects, the strings
  that callers own, and a log of what the outside sees (calls of user callbacks, half-closes and
  closes of sockets, socket options). \<open>refs\<close> counts the \<^verbatim>\<open>shared_ptr\<close>s to a connection; the last one destroys it.
  Arguments of the operations: \<open>ctl\<close>, \<open>readv\<close> and \<open>wr\<close> are the kernel's \<^verbatim>\<open>epoll_ctl\<close>, \<^verbatim>\<open>readv\<close> and \<^verbatim>\<open>write\<close>,
  \<open>mx\<close> is the mutex of \<^verbatim>\<open>Kfifo\<close>, \<open>user\<close> is what a user callback does.
\<close>

section \<open>State\<close>

datatype StateE = kDisconnected | kConnecting | kConnected | kDisconnecting

record tcpconn =
  tc_name :: string
  m_state :: StateE
  m_isReading :: bool
  tc_sockfd :: int
  m_channel :: addr
  m_localAddr :: sockaddr_in
  m_peerAddr :: sockaddr_in
  m_connectionCallback :: "nat option"
  m_messageCallback :: "nat option"
  m_writeCompleteCallback :: "nat option"
  m_highWaterMarkCallback :: "nat option"
  m_closeCallback :: "nat option"
  m_highWaterMark :: nat
  m_inputBuffer :: kfifo
  m_outputBuffer :: kfifo

text \<open>The functors bound by the code: \<^verbatim>\<open>sendInLoop\<close> and \<^verbatim>\<open>shutdownInLoop\<close> bind \<^verbatim>\<open>this\<close> (and a \<^verbatim>\<open>const char*\<close>), \<^verbatim>\<open>Acceptor::listen\<close> binds the acceptor, the
  others a \<^verbatim>\<open>shared_ptr\<close>.\<close>

datatype pfunctor =
    FWriteComplete nat nat
  | FHighWater nat nat nat
  | FSend nat nat nat
  | FShutdown nat
  | FEstablished nat
  | FDestroyed nat
  | FRemove nat
  | FListen

text \<open>Calls of user callbacks; a connection callback observes \<^verbatim>\<open>connected()\<close>.\<close>

datatype ucall =
    UConnection nat bool
  | UMessage nat timestamp
  | UWriteComplete nat
  | UHighWater nat nat
  | UClose nat

datatype netev = NetShutdown int | NetClose int | NetOpt int int int bool | NetCall ucall

record world = "pfunctor eventloop" +
  conns :: "nat \<Rightarrow> tcpconn option"
  strings :: "nat \<Rightarrow> byte list option"
  netlog :: "netev list"

type_synonym 'a user = "ucall \<Rightarrow> 'a world_scheme \<Rightarrow> 'a world_scheme res"
type_synonym write_call = "int \<Rightarrow> byte list \<Rightarrow> int + nat"

definition EAGAIN :: int where "EAGAIN = 11"
definition EPIPE :: int where "EPIPE = 32"
definition ECONNRESET :: int where "ECONNRESET = 104"

text \<open>The callbacks bound to the channel of connection \<open>c\<close>, as numbers.\<close>

definition cb_connRead :: "nat \<Rightarrow> nat" where "cb_connRead c = 4 * c + 3"
definition cb_connWrite :: "nat \<Rightarrow> nat" where "cb_connWrite c = 4 * c + 4"
definition cb_connClose :: "nat \<Rightarrow> nat" where "cb_connClose c = 4 * c + 5"
definition cb_connError :: "nat \<Rightarrow> nat" where "cb_connError c = 4 * c + 6"

text \<open>\<^verbatim>\<open>Socket\<close>: the results of \<^verbatim>\<open>shutdown\<close> and \<^verbatim>\<open>setsockopt\<close> are not used.\<close>

definition Socket_dtor :: "int \<Rightarrow> 'a world_scheme \<Rightarrow> 'a world_scheme" where
  "Socket_dtor fd w = w\<lparr>netlog := netlog w @ [NetClose fd]\<rparr>"

definition Socket_shutdownWrite :: "int \<Rightarrow> 'a world_scheme \<Rightarrow> 'a world_scheme" where
  "Socket_shutdownWrite fd w = w\<lparr>netlog := netlog w @ [NetShutdown fd]\<rparr>"

definition Socket_setsockopt :: "int \<Rightarrow> int \<Rightarrow> int \<Rightarrow> bool \<Rightarrow> 'a world_scheme \<Rightarrow> 'a world_scheme" where
  "Socket_setsockopt fd level opt on w = w\<lparr>netlog := netlog w @ [NetOpt fd level opt on]\<rparr>"

definition SOL_SOCKET :: int where "SOL_SOCKET = 1"
definition SO_REUSEADDR :: int where "SO_REUSEADDR = 2"
definition SO_KEEPALIVE :: int where "SO_KEEPALIVE = 9"
definition SO_REUSEPORT :: int where "SO_REUSEPORT = 15"
definition IPPROTO_TCP :: int where "IPPROTO_TCP = 6"
definition TCP_NODELAY :: int where "TCP_NODELAY = 1"

definition Socket_set_tcpNoDelay :: "int \<Rightarrow> bool \<Rightarrow> 'a world_scheme \<Rightarrow> 'a world_scheme" where
  "Socket_set_tcpNoDelay fd on = Socket_setsockopt fd IPPROTO_TCP TCP_NODELAY on"

definition Socket_set_reuseAddr :: "int \<Rightarrow> bool \<Rightarrow> 'a world_scheme \<Rightarrow> 'a world_scheme" where
  "Socket_set_reuseAddr fd on = Socket_setsockopt fd SOL_SOCKET SO_REUSEADDR on"

definition Socket_set_reusePort :: "int \<Rightarrow> bool \<Rightarrow> 'a world_scheme \<Rightarrow> 'a world_scheme" where
  "Socket_set_reusePort fd on = Socket_setsockopt fd SOL_SOCKET SO_REUSEPORT on"

definition Socket_set_keepAlive :: "int \<Rightarrow> bool \<Rightarrow> 'a world_scheme \<Rightarrow> 'a world_scheme" where
  "Socket_set_keepAlive fd on = Socket_setsockopt fd SOL_SOCKET SO_KEEPALIVE on"

definition Conn_at :: "'a world_scheme \<Rightarrow> nat \<Rightarrow> tcpconn res" where
  "Conn_at w c = (case conns w c of None \<Rightarrow> Inl UseAfterFree | Some tc \<Rightarrow> Inr tc)"

definition Conn_put :: "nat \<Rightarrow> tcpconn \<Rightarrow> 'a world_scheme \<Rightarrow> 'a world_scheme" where
  "Conn_put c tc w = w\<lparr>conns := (conns w)(c \<mapsto> tc)\<rparr>"

definition Conn_channel :: "'a world_scheme \<Rightarrow> nat \<Rightarrow> channel res" where
  "Conn_channel w c = rbind (Conn_at w c) (\<lambda>tc. Channel_at w (m_channel tc))"

definition setState :: "StateE \<Rightarrow> nat \<Rightarrow> 'a world_scheme \<Rightarrow> 'a world_scheme res" where
  "setState s c w = rbind (Conn_at w c) (\<lambda>tc. Inr (Conn_put c (tc\<lparr>m_state := s\<rparr>) w))"

definition acquire :: "nat \<Rightarrow> 'a world_scheme \<Rightarrow> 'a world_scheme" where
  "acquire c w = w\<lparr>refs := (refs w)(c := Suc (refs w c))\<rparr>"

text \<open>The destructor destroys the channel and closes the socket.\<close>

definition TcpConnection_dtor :: "nat \<Rightarrow> 'a world_scheme \<Rightarrow> 'a world_scheme res" where
  "TcpConnection_dtor c w =
     rbind (Conn_at w c) (\<lambda>tc.
     Inr (Socket_dtor (tc_sockfd tc) (Channel_delete (m_channel tc) (w\<lparr>conns := (conns w)(c := None)\<rparr>))))"

definition release_conn :: "nat \<Rightarrow> 'a world_scheme \<Rightarrow> 'a world_scheme res" where
  "release_conn c w =
     (let w = w\<lparr>refs := (refs w)(c := refs w c - 1)\<rparr> in
      if refs w c = 0 then TcpConnection_dtor c w else Inr w)"

definition invoke :: "'a user \<Rightarrow> nat option \<Rightarrow> ucall \<Rightarrow> 'a world_scheme \<Rightarrow> 'a world_scheme res" where
  "invoke user cb u w =
     (case cb of None \<Rightarrow> Inl BadFunctionCall | Some _ \<Rightarrow> user u (w\<lparr>netlog := netlog w @ [NetCall u]\<rparr>))"

text \<open>\<^verbatim>\<open>queueInLoop\<close> from the loop's own thread, of a functor that owns the connection.\<close>

definition queue_owned :: "nat \<Rightarrow> pfunctor \<Rightarrow> 'a world_scheme \<Rightarrow> 'a world_scheme" where
  "queue_owned c f w = EventLoop_queueInLoop (m_threadId w) f (acquire c w)"

text \<open>Binding copies the callback, if there is one.\<close>

definition queue_writeComplete :: "nat \<Rightarrow> tcpconn \<Rightarrow> 'a world_scheme \<Rightarrow> 'a world_scheme" where
  "queue_writeComplete c tc w =
     (case m_writeCompleteCallback tc of None \<Rightarrow> w | Some f \<Rightarrow> queue_owned c (FWriteComplete c f) w)"

definition queue_highWater :: "nat \<Rightarrow> tcpconn \<Rightarrow> nat \<Rightarrow> 'a world_scheme \<Rightarrow> 'a world_scheme" where
  "queue_highWater c tc n w =
     (case m_highWaterMarkCallback tc of None \<Rightarrow> w | Some f \<Rightarrow> queue_owned c (FHighWater c f n) w)"

section \<open>Construction\<close>

definition CheckLoopNotNull :: "addr \<Rightarrow> addr res" where
  "CheckLoopNotNull loop = rbind (check LogFatal (loop \<noteq> 0)) (\<lambda>_. Inr loop)"

definition kHighWaterMark :: nat where "kHighWaterMark = 64 * 1024 * 1024"

definition TcpConnection_new ::
    "relock \<Rightarrow> bool \<Rightarrow> addr \<Rightarrow> string \<Rightarrow> int \<Rightarrow> sockaddr_in \<Rightarrow> sockaddr_in \<Rightarrow> nat \<Rightarrow> addr \<Rightarrow> 'a world_scheme \<Rightarrow> 'a world_scheme res" where
  "TcpConnection_new mx alloc loop nameArg sockfd localAddr peerAddr c a w =
     rbind (CheckLoopNotNull loop) (\<lambda>_.
     rbind (Kfifo_initBuffer mx alloc Kfifo_new 4096) (\<lambda>(_, inb).
     rbind (Kfifo_initBuffer mx alloc Kfifo_new 4096) (\<lambda>(_, outb).
     let ch = Channel_setErrorCallBack (cb_connError c) (Channel_setCloseCallBack (cb_connClose c)
                (Channel_setWriteCallBack (cb_connWrite c) (Channel_setReadCallBack (cb_connRead c) (Channel_new sockfd))));
         tc = \<lparr>tc_name = nameArg, m_state = kConnecting, m_isReading = True, tc_sockfd = sockfd, m_channel = a, m_localAddr = localAddr, m_peerAddr = peerAddr,
               m_connectionCallback = None, m_messageCallback = None, m_writeCompleteCallback = None,
               m_highWaterMarkCallback = None, m_closeCallback = None, m_highWaterMark = kHighWaterMark,
               m_inputBuffer = inb, m_outputBuffer = outb\<rparr> in
     Inr (Socket_set_keepAlive sockfd True (Conn_put c tc (Channel_put a ch w))))))"

text \<open>The setters of a connection.\<close>

definition TcpConnection_connected :: "tcpconn \<Rightarrow> bool" where
  "TcpConnection_connected tc \<longleftrightarrow> m_state tc = kConnected"

definition TcpConnection_setTcpNoDelay :: "bool \<Rightarrow> nat \<Rightarrow> 'a world_scheme \<Rightarrow> 'a world_scheme res" where
  "TcpConnection_setTcpNoDelay on c w =
     rbind (Conn_at w c) (\<lambda>tc. Inr (Socket_setsockopt (tc_sockfd tc) IPPROTO_TCP TCP_NODELAY on w))"

definition TcpConnection_setConnectionCallback :: "nat option \<Rightarrow> tcpconn \<Rightarrow> tcpconn" where
  "TcpConnection_setConnectionCallback cb tc = tc\<lparr>m_connectionCallback := cb\<rparr>"

definition TcpConnection_setMessageCallback :: "nat option \<Rightarrow> tcpconn \<Rightarrow> tcpconn" where
  "TcpConnection_setMessageCallback cb tc = tc\<lparr>m_messageCallback := cb\<rparr>"

definition TcpConnection_setWriteCompleteCallback :: "nat option \<Rightarrow> tcpconn \<Rightarrow> tcpconn" where
  "TcpConnection_setWriteCompleteCallback cb tc = tc\<lparr>m_writeCompleteCallback := cb\<rparr>"

definition TcpConnection_setHighWaterMarkCallback :: "nat option \<Rightarrow> nat \<Rightarrow> tcpconn \<Rightarrow> tcpconn" where
  "TcpConnection_setHighWaterMarkCallback cb mark tc = tc\<lparr>m_highWaterMarkCallback := cb, m_highWaterMark := mark\<rparr>"

definition TcpConnection_setCloseCallback :: "nat option \<Rightarrow> tcpconn \<Rightarrow> tcpconn" where
  "TcpConnection_setCloseCallback cb tc = tc\<lparr>m_closeCallback := cb\<rparr>"

lemmas conn_setters = TcpConnection_setConnectionCallback_def TcpConnection_setMessageCallback_def
  TcpConnection_setWriteCompleteCallback_def TcpConnection_setCloseCallback_def

section \<open>Sending\<close>

definition conn_set_out :: "nat \<Rightarrow> kfifo \<Rightarrow> 'a world_scheme \<Rightarrow> 'a world_scheme res" where
  "conn_set_out c k w = rbind (Conn_at w c) (\<lambda>tc. Inr (Conn_put c (tc\<lparr>m_outputBuffer := k\<rparr>) w))"

definition readable_len :: "relock \<Rightarrow> nat \<Rightarrow> 'a world_scheme \<Rightarrow> (nat \<times> 'a world_scheme) res" where
  "readable_len mx c w =
     rbind (Conn_at w c) (\<lambda>tc.
     rbind (Kfifo_getReadableLen mx (m_outputBuffer tc)) (\<lambda>(n, k).
     rbind (conn_set_out c k w) (\<lambda>w.
     Inr (unat n, w))))"

text \<open>The direct write: the bytes written, the bytes remaining and whether the connection is broken.\<close>

definition send_direct :: "write_call \<Rightarrow> byte list \<Rightarrow> nat \<Rightarrow> nat \<Rightarrow> 'a world_scheme \<Rightarrow> ((nat \<times> nat \<times> bool) \<times> 'a world_scheme) res" where
  "send_direct wr data len c w =
     rbind (Conn_at w c) (\<lambda>tc.
     rbind (Channel_at w (m_channel tc)) (\<lambda>ch.
     case wr (m_fd ch) (take len data) of
       Inr nwrote \<Rightarrow>
         let remaining = len - nwrote in
         Inr ((nwrote, remaining, False),
              if remaining = 0 then queue_writeComplete c tc w else w)
     | Inl errno \<Rightarrow> Inr ((0, len, errno \<noteq> EAGAIN \<and> (errno = EPIPE \<or> errno = ECONNRESET)), w)))"

definition send_rest :: "ctl \<Rightarrow> relock \<Rightarrow> byte list \<Rightarrow> nat \<Rightarrow> nat \<Rightarrow> nat \<Rightarrow> 'a world_scheme \<Rightarrow> 'a world_scheme res" where
  "send_rest ctl mx data nwrote remaining c w =
     rbind (readable_len mx c w) (\<lambda>(oldLen, w).
     rbind (Conn_at w c) (\<lambda>tc.
     let w = (if m_highWaterMark tc \<le> size_add oldLen remaining \<and> oldLen < m_highWaterMark tc
              then queue_highWater c tc (size_add oldLen remaining) w else w) in
     rbind (Kfifo_writeBuffer mx (m_outputBuffer tc) (Some (drop nwrote data)) (of_nat remaining)) (\<lambda>(_, k).
     rbind (conn_set_out c k w) (\<lambda>w.
     rbind (Channel_at w (m_channel tc)) (\<lambda>ch.
     if \<not> Channel_isWriting ch then Channel_enableWriting ctl (m_channel tc) w else Inr w)))))"

definition TcpConnection_sendInLoop ::
    "ctl \<Rightarrow> relock \<Rightarrow> write_call \<Rightarrow> byte list \<Rightarrow> nat \<Rightarrow> nat \<Rightarrow> 'a world_scheme \<Rightarrow> 'a world_scheme res" where
  "TcpConnection_sendInLoop ctl mx wr data len c w =
     rbind (Conn_at w c) (\<lambda>tc.
     if m_state tc = kDisconnected then Inr w
     else
       rbind (Channel_at w (m_channel tc)) (\<lambda>ch.
       rbind (if Channel_isWriting ch then Inr (False, w)
              else rbind (readable_len mx c w) (\<lambda>(n, w). Inr (n = 0, w))) (\<lambda>(direct, w).
       rbind (if direct then send_direct wr data len c w else Inr ((0, len, False), w))
         (\<lambda>((nwrote, remaining, faultError), w).
       if \<not> faultError \<and> 0 < remaining then send_rest ctl mx data nwrote remaining c w else Inr w))))"

text \<open>\<open>ptr\<close> is the caller's string. From another thread only its address is bound.\<close>

definition String_at :: "'a world_scheme \<Rightarrow> nat \<Rightarrow> byte list res" where
  "String_at w ptr = (case strings w ptr of None \<Rightarrow> Inl UseAfterFree | Some s \<Rightarrow> Inr s)"

definition TcpConnection_send ::
    "ctl \<Rightarrow> relock \<Rightarrow> write_call \<Rightarrow> int \<Rightarrow> nat \<Rightarrow> nat \<Rightarrow> 'a world_scheme \<Rightarrow> 'a world_scheme res" where
  "TcpConnection_send ctl mx wr tid ptr c w =
     rbind (Conn_at w c) (\<lambda>tc.
     rbind (String_at w ptr) (\<lambda>buf.
     if m_state tc = kConnected then
       if EventLoop_isInLoopThread tid w then TcpConnection_sendInLoop ctl mx wr buf (length buf) c w
       else Inr (EventLoop_queueInLoop tid (FSend c ptr (length buf)) w)
     else Inr w))"

section \<open>Closing\<close>

definition TcpConnection_shutdownInLoop :: "nat \<Rightarrow> 'a world_scheme \<Rightarrow> 'a world_scheme res" where
  "TcpConnection_shutdownInLoop c w =
     rbind (Conn_at w c) (\<lambda>tc.
     rbind (Channel_at w (m_channel tc)) (\<lambda>ch.
     if \<not> Channel_isWriting ch then Inr (Socket_shutdownWrite (tc_sockfd tc) w) else Inr w))"

definition TcpConnection_shutdown :: "int \<Rightarrow> nat \<Rightarrow> 'a world_scheme \<Rightarrow> 'a world_scheme res" where
  "TcpConnection_shutdown tid c w =
     rbind (Conn_at w c) (\<lambda>tc.
     if m_state tc = kConnected then
       rbind (setState kDisconnecting c w) (\<lambda>w.
       if EventLoop_isInLoopThread tid w then TcpConnection_shutdownInLoop c w
       else Inr (EventLoop_queueInLoop tid (FShutdown c) w))
     else Inr w)"

definition TcpConnection_connectEstablished :: "ctl \<Rightarrow> 'a user \<Rightarrow> nat \<Rightarrow> 'a world_scheme \<Rightarrow> 'a world_scheme res" where
  "TcpConnection_connectEstablished ctl user c w =
     rbind (setState kConnected c w) (\<lambda>w.
     rbind (Conn_at w c) (\<lambda>tc.
     rbind (Channel_tie (m_channel tc) c w) (\<lambda>w.
     rbind (Channel_enableReading ctl (m_channel tc) w) (\<lambda>w.
     invoke user (m_connectionCallback tc) (UConnection c True) w))))"

definition TcpConnection_connectDestroyed :: "ctl \<Rightarrow> 'a user \<Rightarrow> nat \<Rightarrow> 'a world_scheme \<Rightarrow> 'a world_scheme res" where
  "TcpConnection_connectDestroyed ctl user c w =
     rbind (Conn_at w c) (\<lambda>tc.
     rbind (if m_state tc = kConnected then
              rbind (setState kDisconnected c w) (\<lambda>w.
              rbind (Channel_disableAll ctl (m_channel tc) w) (\<lambda>w.
              invoke user (m_connectionCallback tc) (UConnection c False) w))
            else Inr w) (\<lambda>w.
     rbind (Conn_at w c) (\<lambda>tc.
     Channel_remove ctl (m_channel tc) w)))"

definition TcpConnection_handleClose :: "ctl \<Rightarrow> 'a user \<Rightarrow> nat \<Rightarrow> 'a world_scheme \<Rightarrow> 'a world_scheme res" where
  "TcpConnection_handleClose ctl user c w =
     rbind (setState kDisconnected c w) (\<lambda>w.
     rbind (Conn_at w c) (\<lambda>tc.
     rbind (Channel_disableAll ctl (m_channel tc) w) (\<lambda>w.
     rbind (invoke user (m_connectionCallback tc) (UConnection c False) (acquire c w)) (\<lambda>w.
     rbind (Conn_at w c) (\<lambda>tc.
     rbind (invoke user (m_closeCallback tc) (UClose c) w) (\<lambda>w.
     release_conn c w))))))"

text \<open>\<^verbatim>\<open>handleError\<close> only logs.\<close>

definition TcpConnection_handleError :: "nat \<Rightarrow> 'a world_scheme \<Rightarrow> 'a world_scheme res" where
  "TcpConnection_handleError c w = rbind (Conn_channel w c) (\<lambda>ch. Inr w)"

section \<open>Event handlers\<close>

definition TcpConnection_handleRead ::
    "ctl \<Rightarrow> relock \<Rightarrow> (int \<Rightarrow> nat list \<Rightarrow> int + byte list) \<Rightarrow> 'a user \<Rightarrow> timestamp \<Rightarrow> nat \<Rightarrow> 'a world_scheme \<Rightarrow> 'a world_scheme res" where
  "TcpConnection_handleRead ctl mx readv user t c w =
     rbind (Conn_at w c) (\<lambda>tc.
     rbind (Channel_at w (m_channel tc)) (\<lambda>ch.
     rbind (Kfifo_readFd mx readv (m_inputBuffer tc) (m_fd ch)) (\<lambda>(n, savedErrno, k).
     let w = Conn_put c (tc\<lparr>m_inputBuffer := k\<rparr>) w in
     if 0 < n then invoke user (m_messageCallback tc) (UMessage c t) w
     else if n = 0 then TcpConnection_handleClose ctl user c w
     else TcpConnection_handleError c w)))"

definition TcpConnection_handleWrite :: "ctl \<Rightarrow> relock \<Rightarrow> write_call \<Rightarrow> nat \<Rightarrow> 'a world_scheme \<Rightarrow> 'a world_scheme res" where
  "TcpConnection_handleWrite ctl mx wr c w =
     rbind (Conn_at w c) (\<lambda>tc.
     rbind (Channel_at w (m_channel tc)) (\<lambda>ch.
     if Channel_isWriting ch then
       rbind (Kfifo_writeFd mx wr (m_outputBuffer tc) (m_fd ch)) (\<lambda>(n, savedErrno, k).
       rbind (conn_set_out c k w) (\<lambda>w.
       if 0 < n then
         rbind (readable_len mx c w) (\<lambda>(len, w).
         if len = 0 then
           rbind (Channel_disableWriting ctl (m_channel tc) w) (\<lambda>w.
           let w = queue_writeComplete c tc w in
           if m_state tc = kDisconnecting then TcpConnection_shutdownInLoop c w else Inr w)
         else Inr w)
       else Inr w))
     else Inr w))"

section \<open>Running a connection's functors\<close>

text \<open>\<open>server\<close> is what the functors bound by the server do: \<^verbatim>\<open>removeConnectionInLoop\<close> and the acceptor's
  \<^verbatim>\<open>listen\<close>. Destroying a functor gives up the references it was bound with; \<open>release\<close> gives up a
  reference held by a functor in the server's loop.\<close>

fun run_functor ::
    "ctl \<Rightarrow> relock \<Rightarrow> write_call \<Rightarrow> 'a user \<Rightarrow> (pfunctor \<Rightarrow> 'a world_scheme \<Rightarrow> 'a world_scheme res) \<Rightarrow>
      pfunctor \<Rightarrow> 'a world_scheme \<Rightarrow> 'a world_scheme res" where
  "run_functor ctl mx wr user server (FWriteComplete c f) w = invoke user (Some f) (UWriteComplete c) w"
| "run_functor ctl mx wr user server (FHighWater c f n) w = invoke user (Some f) (UHighWater c n) w"
| "run_functor ctl mx wr user server (FSend c ptr len) w =
     rbind (Conn_at w c) (\<lambda>tc.
     rbind (if m_state tc = kDisconnected then Inr [] else String_at w ptr) (\<lambda>data.
     TcpConnection_sendInLoop ctl mx wr data len c w))"
| "run_functor ctl mx wr user server (FShutdown c) w = TcpConnection_shutdownInLoop c w"
| "run_functor ctl mx wr user server (FEstablished c) w = TcpConnection_connectEstablished ctl user c w"
| "run_functor ctl mx wr user server (FDestroyed c) w = TcpConnection_connectDestroyed ctl user c w"
| "run_functor ctl mx wr user server f w = server f w"

fun drop_functor ::
    "(nat \<Rightarrow> 'a world_scheme \<Rightarrow> 'a world_scheme res) \<Rightarrow> pfunctor \<Rightarrow> 'a world_scheme \<Rightarrow> 'a world_scheme res" where
  "drop_functor release (FWriteComplete c f) w = release_conn c w"
| "drop_functor release (FHighWater c f n) w = release_conn c w"
| "drop_functor release (FEstablished c) w = release_conn c w"
| "drop_functor release (FDestroyed c) w = release_conn c w"
| "drop_functor release (FRemove c) w = release c w"
| "drop_functor release f w = Inr w"

section \<open>Frame facts\<close>

lemma world_more:
  assumes "poller.more w' = poller.more (w :: 'a world_scheme)"
  shows "conns w' = conns w" "strings w' = strings w" "netlog w' = netlog w" "m_threadId w' = m_threadId w"
    "m_pendingFunctors w' = m_pendingFunctors w" "wakeCount w' = wakeCount w"
  using assms by (cases w, cases w', simp)+

lemma ep_inv_same:
  "channels p' = channels p \<Longrightarrow> m_channel_map p' = m_channel_map p \<Longrightarrow> ctlLog p' = ctlLog p \<Longrightarrow> ep_inv p' = ep_inv p"
  by (simp add: ep_inv_def)

lemma queueInLoop_world [simp]:
  "conns (EventLoop_queueInLoop tid f w) = conns w" "channels (EventLoop_queueInLoop tid f w) = channels w"
  "m_channel_map (EventLoop_queueInLoop tid f w) = m_channel_map w" "ctlLog (EventLoop_queueInLoop tid f w) = ctlLog w"
  "netlog (EventLoop_queueInLoop tid f w) = netlog w" "strings (EventLoop_queueInLoop tid f w) = strings w"
  "refs (EventLoop_queueInLoop tid f w) = refs w"
  by (simp_all add: EventLoop_queueInLoop_def queue_push_def queue_notify_def EventLoop_wakeUp_def)

lemma acquire_world [simp]:
  "conns (acquire c w) = conns w" "channels (acquire c w) = channels w" "m_channel_map (acquire c w) = m_channel_map w"
  "ctlLog (acquire c w) = ctlLog w" "netlog (acquire c w) = netlog w" "strings (acquire c w) = strings w"
  by (simp_all add: acquire_def)

lemma queue_owned_world [simp]:
  "conns (queue_owned c f w) = conns w" "channels (queue_owned c f w) = channels w"
  "m_channel_map (queue_owned c f w) = m_channel_map w" "ctlLog (queue_owned c f w) = ctlLog w"
  "netlog (queue_owned c f w) = netlog w"
  by (simp_all add: queue_owned_def)

lemma queue_highWater_world [simp]:
  "conns (queue_highWater c tc n w) = conns w" "channels (queue_highWater c tc n w) = channels w"
  "m_channel_map (queue_highWater c tc n w) = m_channel_map w" "ctlLog (queue_highWater c tc n w) = ctlLog w"
  "netlog (queue_highWater c tc n w) = netlog w"
  by (simp_all add: queue_highWater_def split: option.split)

lemma queue_highWater_more [simp]:
  "strings (queue_highWater c tc n w) = strings w" "m_threadId (queue_highWater c tc n w) = m_threadId w"
  "refs w d \<le> refs (queue_highWater c tc n w) d"
  by (simp_all add: queue_highWater_def queue_owned_def acquire_def EventLoop_queueInLoop_def queue_push_def queue_notify_def
      EventLoop_wakeUp_def split: option.split)

lemma Conn_put_same: "conns w c = Some tc \<Longrightarrow> Conn_put c tc w = w"
  by (simp add: Conn_put_def fun_upd_idem)

lemma Conn_put_world [simp]:
  "conns (Conn_put c tc w) = (conns w)(c \<mapsto> tc)" "channels (Conn_put c tc w) = channels w"
  "m_channel_map (Conn_put c tc w) = m_channel_map w" "ctlLog (Conn_put c tc w) = ctlLog w"
  "netlog (Conn_put c tc w) = netlog w" "strings (Conn_put c tc w) = strings w" "refs (Conn_put c tc w) = refs w"
  "m_threadId (Conn_put c tc w) = m_threadId w"
  by (simp_all add: Conn_put_def)

lemma ep_inv_world [simp]:
  "ep_inv (Conn_put c tc w) = ep_inv w" "ep_inv (queue_highWater c tc n w) = ep_inv w"
  "ep_inv (acquire c w) = ep_inv w" "ep_inv ((w :: 'a world_scheme)\<lparr>netlog := l\<rparr>) = ep_inv w"
  by (rule ep_inv_same; simp)+

text \<open>A connection whose buffers are in order.\<close>

definition conn_ok :: "'a world_scheme \<Rightarrow> nat \<Rightarrow> tcpconn \<Rightarrow> channel \<Rightarrow> bool" where
  "conn_ok w c tc ch \<longleftrightarrow> ep_inv w \<and> conns w c = Some tc \<and> channels w (m_channel tc) = Some ch \<and>
     Kfifo_inv (m_outputBuffer tc) \<and> buffer (m_outputBuffer tc) \<noteq> None \<and>
     Kfifo_inv (m_inputBuffer tc) \<and> buffer (m_inputBuffer tc) \<noteq> None"

abbreviation out_bytes :: "tcpconn \<Rightarrow> byte list" where
  "out_bytes tc \<equiv> Kfifo_contents (m_outputBuffer tc)"

lemma conn_set_out_same:
  "conns w c = Some tc \<Longrightarrow> conn_set_out c (m_outputBuffer tc) w = Inr w"
  by (simp add: conn_set_out_def Conn_at_def Conn_put_same)

lemma readable_len_ok:
  assumes "conns w c = Some tc" and "Kfifo_inv (m_outputBuffer tc)" and "buffer (m_outputBuffer tc) \<noteq> None"
  shows "readable_len mx c w = Inr (length (out_bytes tc), w)"
proof -
  obtain bs where b: "buffer (m_outputBuffer tc) = Some bs" using assms(3) by blast
  have "mutex (m_outputBuffer tc) = 0" using Kfifo_blockD(1) [OF assms(2) b] .
  then show ?thesis
    using assms(1) by (simp add: readable_len_def Conn_at_def Kfifo_readable conn_set_out_same length_Kfifo_contents [OF b])
qed

section \<open>Sending\<close>

lemma send_rest_blocks:
  assumes "conn_ok w c tc ch" and "0 < n" and "n < 2 ^ 32"
  shows "send_rest ctl RelockBlocks data nwrote n c w = Inl Deadlock"
proof -
  obtain bs where "buffer (m_outputBuffer tc) = Some bs" "mutex (m_outputBuffer tc) = 0"
    using assms Kfifo_blockD(1) by (fastforce simp: conn_ok_def)
  moreover have "(of_nat n :: u32) \<noteq> 0" using of_nat_u32_neq_0 assms by blast
  ultimately show ?thesis
    using assms(1) by (simp add: send_rest_def readable_len_ok conn_ok_def Conn_at_def Kfifo_writeBuffer_blocks)
qed

lemma send_rest_ok:
  assumes ok: "conn_ok w c tc ch" and k: "kernel_accepts ctl" and n: "0 < n" "n < 2 ^ 32" "length data = nwrote + n"
  shows "\<exists>w' tc' ch'. send_rest ctl RelockProceeds data nwrote n c w = Inr w' \<and> conn_ok w' c tc' ch' \<and>
    out_bytes tc' = out_bytes tc @ take (Kfifo_room (m_outputBuffer tc)) (drop nwrote data) \<and>
    tc' = tc\<lparr>m_outputBuffer := m_outputBuffer tc'\<rparr> \<and> kread (m_outputBuffer tc') = kread (m_outputBuffer tc) \<and> m_fd ch' = m_fd ch \<and> Channel_isWriting ch' \<and>
    Channel_isReading ch' = Channel_isReading ch \<and> netlog w' = netlog w \<and> strings w' = strings w \<and>
    refs w c \<le> refs w' c \<and> m_threadId w' = m_threadId w"
proof -
  have c: "conns w c = Some tc" "channels w (m_channel tc) = Some ch" "ep_inv w"
    "Kfifo_inv (m_outputBuffer tc)" "buffer (m_outputBuffer tc) \<noteq> None"
    using ok by (simp_all add: conn_ok_def)
  have u: "unat (of_nat n :: u32) = n" using n(2) by (rule unat_of_nat_u32)
  have z: "(of_nat n :: u32) \<noteq> 0" using of_nat_u32_neq_0 n by blast
  obtain k' where k': "Kfifo_writeBuffer RelockProceeds (m_outputBuffer tc) (Some (drop nwrote data)) (of_nat n) =
      Inr (of_nat (min n (Kfifo_room (m_outputBuffer tc))), k')" "Kfifo_inv k'" "bufferSize k' = bufferSize (m_outputBuffer tc)"
    "Kfifo_contents k' = out_bytes tc @ take (min n (Kfifo_room (m_outputBuffer tc))) (drop nwrote data)"
    "kread k' = kread (m_outputBuffer tc)"
    using Kfifo_writeBuffer_appends [OF c(4,5) z, of "drop nwrote data"] n(3) u by auto
  have b': "buffer k' \<noteq> None"
  proof
    assume "buffer k' = None"
    then have "bufferSize (m_outputBuffer tc) = 0" using k'(2,3) by (simp add: Kfifo_inv_def)
    then show False using c(4,5) by (auto simp: Kfifo_inv_def is_power_of_two_def)
  qed
  define w1 where "w1 = (if m_highWaterMark tc \<le> size_add (length (out_bytes tc)) n \<and> length (out_bytes tc) < m_highWaterMark tc
      then queue_highWater c tc (size_add (length (out_bytes tc)) n) w else w)"
  let ?tc = "tc\<lparr>m_outputBuffer := k'\<rparr>"
  have w1: "conns w1 = conns w" "channels w1 = channels w" "ep_inv w1" "netlog w1 = netlog w" "strings w1 = strings w"
    "refs w c \<le> refs w1 c" "m_threadId w1 = m_threadId w"
    using c(3) by (simp_all add: w1_def)
  define w2 where "w2 = Conn_put c ?tc w1"
  have w2: "conns w2 c = Some ?tc" "channels w2 (m_channel tc) = Some ch" "ep_inv w2" "netlog w2 = netlog w"
    "strings w2 = strings w" "refs w c \<le> refs w2 c" "m_threadId w2 = m_threadId w"
    using w1 c by (simp_all add: w2_def)
  have r: "send_rest ctl RelockProceeds data nwrote n c w =
      (if \<not> Channel_isWriting ch then Channel_enableWriting ctl (m_channel tc) w2 else Inr w2)"
    using c w1 k'(1) by (simp add: send_rest_def readable_len_ok Conn_at_def conn_set_out_def w1_def [symmetric]
        w2_def Channel_at_def Let_def)
  have t: "out_bytes ?tc = out_bytes tc @ take (Kfifo_room (m_outputBuffer tc)) (drop nwrote data)"
    using k'(4) n(3) by (simp add: min_def)
  show ?thesis
  proof (cases "Channel_isWriting ch")
    case True
    have "conn_ok w2 c ?tc ch" using w2 ok k'(2) b' by (simp add: conn_ok_def)
    then show ?thesis using r True t w2(4-7) k'(5) by (intro exI [of _ w2] exI [of _ ?tc] exI [of _ ch]) simp
  next
    case False
    obtain w3 where w3: "Channel_enableWriting ctl (m_channel tc) w2 = Inr w3" "ep_inv w3"
      "channels w3 (m_channel tc) = Some (ch\<lparr>m_events := m_events ch OR kWriteEvent, m_index := next_index ch (m_events ch OR kWriteEvent)\<rparr>)"
      "poller.more w3 = poller.more w2" "refs w3 = refs w2"
      using set_events_ok [OF w2(3,2) k, of "\<lambda>e. e OR kWriteEvent"] by (auto simp: Channel_enableWriting_def)
    let ?ch = "ch\<lparr>m_events := m_events ch OR kWriteEvent, m_index := next_index ch (m_events ch OR kWriteEvent)\<rparr>"
    have "conn_ok w3 c ?tc ?ch" using w3 w2 ok k'(2) b' by (simp add: conn_ok_def world_more [OF w3(4)])
    moreover have "Channel_isWriting ?ch" "Channel_isReading ?ch = Channel_isReading ch"
      using event_bits(3,4) by (simp_all add: Channel_isWriting_def Channel_isReading_def)
    ultimately show ?thesis using r False w3(1,5) t w2(4-7) k'(5) world_more(2-4) [OF w3(4)]
      by (intro exI [of _ w3] exI [of _ ?tc] exI [of _ ?ch]) simp
  qed
qed

lemma sendInLoop_direct:
  assumes ok: "conn_ok w c tc ch" and st: "m_state tc \<noteq> kDisconnected" and nw: "\<not> Channel_isWriting ch"
    and e: "out_bytes tc = []"
  shows "TcpConnection_sendInLoop ctl mx wr data (length data) c w =
    (case wr (m_fd ch) data of
       Inr n \<Rightarrow> let w = (if length data - n = 0 then queue_writeComplete c tc w else w) in
         if 0 < length data - n then send_rest ctl mx data n (length data - n) c w else Inr w
     | Inl e \<Rightarrow> if e = EPIPE \<or> e = ECONNRESET then Inr w
         else if data = [] then Inr w else send_rest ctl mx data 0 (length data) c w)"
proof -
  have c: "conns w c = Some tc" "channels w (m_channel tc) = Some ch" "readable_len mx c w = Inr (0, w)"
    using ok e readable_len_ok [of w c tc mx] by (simp_all add: conn_ok_def)
  have "errno \<noteq> EAGAIN \<and> (errno = EPIPE \<or> errno = ECONNRESET) \<longleftrightarrow> errno = EPIPE \<or> errno = ECONNRESET" for errno
    by (auto simp: EAGAIN_def EPIPE_def ECONNRESET_def)
  then show ?thesis
    using c st nw
    by (auto simp: TcpConnection_sendInLoop_def send_direct_def Conn_at_def Channel_at_def Let_def
        split: sum.split)
qed

lemma sendInLoop_queued:
  assumes ok: "conn_ok w c tc ch" and st: "m_state tc \<noteq> kDisconnected"
    and q: "Channel_isWriting ch \<or> out_bytes tc \<noteq> []" and n: "data \<noteq> []"
  shows "TcpConnection_sendInLoop ctl mx wr data (length data) c w = send_rest ctl mx data 0 (length data) c w"
proof -
  have "conns w c = Some tc" "channels w (m_channel tc) = Some ch" "readable_len mx c w = Inr (length (out_bytes tc), w)"
    using ok readable_len_ok [of w c tc mx] by (simp_all add: conn_ok_def)
  then show ?thesis using st q n by (auto simp: TcpConnection_sendInLoop_def Conn_at_def Channel_at_def)
qed

section \<open>Properties\<close>

text \<open>A connection whose channel is being watched for reading, for the witnesses.\<close>

definition ex_fifo :: kfifo where
  "ex_fifo = \<lparr>buffer = Some [0, 0, 0, 0], bufferSize = 4, kwrite = 0, kread = 0, mutex = 0\<rparr>"

definition ex_conn :: tcpconn where
  "ex_conn = \<lparr>tc_name = ''s-1'', m_state = kConnected, m_isReading = True, tc_sockfd = 3, m_channel = 5, m_localAddr = sockaddr_zero, m_peerAddr = sockaddr_zero,
     m_connectionCallback = Some 0, m_messageCallback = Some 0, m_writeCompleteCallback = None,
     m_highWaterMarkCallback = None, m_closeCallback = Some 0, m_highWaterMark = kHighWaterMark,
     m_inputBuffer = ex_fifo, m_outputBuffer = ex_fifo\<rparr>"

definition ex_chan :: channel where
  "ex_chan = (Channel_new 3)\<lparr>m_events := 3, m_index := kAdded, m_readCallBack := Some (cb_connRead 9)\<rparr>"

definition ex_world :: world where
  "ex_world = \<lparr>channels = [5 \<mapsto> ex_chan], m_channel_map = [3 \<mapsto> 5], m_reventList = 16,
     ctlLog = [(EPOLL_CTL_ADD, 3, 3, 5)], refs = (\<lambda>_. 1), m_pendingFunctors = [], m_callingPendingFunctors = False,
     m_looping = True, m_quit = False, m_threadId = 1, m_activeChannels = [], m_pollReturnTime = 0, wakeCount = 0,
     conns = [9 \<mapsto> ex_conn], strings = [8 \<mapsto> [1, 2, 3, 4, 5, 6]], netlog = []\<rparr>"

lemma ex_world_ok: "conn_ok ex_world 9 ex_conn ex_chan"
  by (auto simp: conn_ok_def ex_world_def ex_conn_def ex_chan_def ex_fifo_def ep_inv_def interest_def Channel_new_def
      Kfifo_inv_def is_power_of_two_def)

lemma ex_world_facts: "m_state ex_conn = kConnected" "\<not> Channel_isWriting ex_chan" "out_bytes ex_conn = []"
  "Kfifo_room (m_outputBuffer ex_conn) = 4" "m_fd ex_chan = 3"
  by (simp_all add: ex_conn_def ex_chan_def Channel_isWriting_def kWriteEvent_def EPOLLOUT_def ex_fifo_def
      Kfifo_contents_def Kfifo_room_def ring_view_def Channel_new_def)

text \<open>C19: Sending on an idle connection writes to the socket at once. If the kernel takes everything, the
  only further effect is the write-complete callback. If it takes \<open>n\<close> bytes of more, then with a
  mutex that blocks its owner the loop's thread deadlocks in the output buffer; where it does not,
  the rest is appended to the output buffer, as much as there is room for (the excess is dropped
  silently), and the channel is set to wait for writability.\<close>

theorem TcpConnection_send_idle:
  assumes "conn_ok w c tc ch" and "kernel_accepts ctl" and "m_state tc \<noteq> kDisconnected" and "\<not> Channel_isWriting ch"
    and "out_bytes tc = []" and "length data < 2 ^ 32" and "wr (m_fd ch) data = Inr n" and "n \<le> length data"
  shows "(n = length data \<longrightarrow>
      TcpConnection_sendInLoop ctl mx wr data (length data) c w = Inr (queue_writeComplete c tc w)) \<and>
    (n < length data \<longrightarrow>
      TcpConnection_sendInLoop ctl RelockBlocks wr data (length data) c w = Inl Deadlock \<and>
      (\<exists>w' tc' ch'. TcpConnection_sendInLoop ctl RelockProceeds wr data (length data) c w = Inr w' \<and>
        conn_ok w' c tc' ch' \<and> Channel_isWriting ch' \<and>
        out_bytes tc' = take (Kfifo_room (m_outputBuffer tc)) (drop n data)))"
proof -
  note d = sendInLoop_direct [OF assms(1,3,4,5), where data = data and wr = wr and ctl = ctl]
  show ?thesis
  proof (cases "n = length data")
    case True
    then show ?thesis using d assms(7) by simp
  next
    case False
    then have l: "0 < length data - n" "length data - n < 2 ^ 32" "length data = n + (length data - n)"
      using assms(6,8) by simp_all
    have "TcpConnection_sendInLoop ctl mx wr data (length data) c w = send_rest ctl mx data n (length data - n) c w" for mx
      using d [of mx] assms(7) l(1) by simp
    then show ?thesis
      using False send_rest_blocks [OF assms(1) l(1,2)] send_rest_ok [OF assms(1,2) l] assms(5) by auto
  qed
qed

theorem TcpConnection_send_idle_witness:
  "TcpConnection_sendInLoop ex_ctl RelockBlocks (\<lambda>_ _. Inr 1) [1, 2, 3, 4, 5, 6] (length [1, 2, 3, 4, 5, 6]) 9 ex_world = Inl Deadlock \<and>
   (\<exists>w' tc' ch'. TcpConnection_sendInLoop ex_ctl RelockProceeds (\<lambda>_ _. Inr 1) [1, 2, 3, 4, 5, 6] (length [1, 2, 3, 4, 5, 6]) 9 ex_world = Inr w' \<and>
      conn_ok w' 9 tc' ch' \<and> out_bytes tc' = [2, 3, 4, 5])"
  using TcpConnection_send_idle [OF ex_world_ok ex_ctl_accepts, of "[1, 2, 3, 4, 5, 6]" "\<lambda>_ _. Inr 1" 1]
  by (auto simp: ex_world_facts)

text \<open>C20: While bytes are waiting in the output buffer, nothing overtakes them: sending more appends to the
  buffer, without a direct write (again up to the room there is, and only with a mutex that does
  not block).\<close>

theorem TcpConnection_send_queued:
  assumes "conn_ok w c tc ch" and "kernel_accepts ctl" and "m_state tc \<noteq> kDisconnected"
    and "Channel_isWriting ch \<or> out_bytes tc \<noteq> []" and "data \<noteq> []" and "length data < 2 ^ 32"
  shows "TcpConnection_sendInLoop ctl RelockBlocks wr data (length data) c w = Inl Deadlock \<and>
    (\<exists>w' tc' ch'. TcpConnection_sendInLoop ctl RelockProceeds wr data (length data) c w = Inr w' \<and>
      conn_ok w' c tc' ch' \<and> Channel_isWriting ch' \<and>
      out_bytes tc' = out_bytes tc @ take (Kfifo_room (m_outputBuffer tc)) data)"
  using sendInLoop_queued [OF assms(1,3-5)] send_rest_blocks [OF assms(1) _ assms(6)]
    send_rest_ok [OF assms(1,2) _ assms(6), of data 0] assms(5) by auto

theorem TcpConnection_send_queued_witness:
  "TcpConnection_sendInLoop ex_ctl RelockBlocks (\<lambda>_ _. Inr 1) [7] 1 9
     (Conn_put 9 (ex_conn\<lparr>m_outputBuffer := ex_fifo\<lparr>kwrite := 2\<rparr>\<rparr>) ex_world) = Inl Deadlock"
proof -
  let ?tc = "ex_conn\<lparr>m_outputBuffer := ex_fifo\<lparr>kwrite := 2\<rparr>\<rparr>"
  have "conn_ok (Conn_put 9 ?tc ex_world) 9 ?tc ex_chan" "out_bytes ?tc = [0, 0]"
    using ex_world_ok by (simp_all add: conn_ok_def ex_conn_def ex_fifo_def Kfifo_inv_def is_power_of_two_def
        Kfifo_contents_def ring_view_def upt_rec)
  from TcpConnection_send_queued [OF this(1) ex_ctl_accepts, of "[7]" "\<lambda>_ _. Inr 1"] this(2)
  show ?thesis by (simp add: ex_conn_def)
qed

text \<open>C21: The write handler never makes progress on a non-empty output buffer: whatever \<^verbatim>\<open>write\<close> returns, the
  whole state is the one before, with the bytes still queued and the channel still waiting for
  writability (so the same bytes are written again at the next event). In particular a connection
  being shut down with bytes queued is never half-closed.\<close>

theorem TcpConnection_handleWrite_stuck:
  assumes ok: "conn_ok w c tc ch" and wr: "Channel_isWriting ch" and q: "out_bytes tc \<noteq> []"
    and cont: "unat (kread (m_outputBuffer tc)) mod unat (bufferSize (m_outputBuffer tc)) + length (out_bytes tc)
      \<le> unat (bufferSize (m_outputBuffer tc))"
  shows "TcpConnection_handleWrite ctl mx write c w = Inr w \<and>
    (\<exists>w'. TcpConnection_shutdown (m_threadId w) c w = Inr w' \<and> netlog w' = netlog w \<and>
      TcpConnection_handleWrite ctl mx write c w' = Inr w')"
proof -
  have H: "TcpConnection_handleWrite ctl mx write c v = Inr v"
    if v: "conns v c = Some (tc\<lparr>m_state := s\<rparr>)" "channels v = channels w" for v s
  proof -
    let ?tc = "tc\<lparr>m_state := s\<rparr>"
    have k: "Kfifo_inv (m_outputBuffer tc)" "buffer (m_outputBuffer tc) \<noteq> None" "channels v (m_channel tc) = Some ch"
      using ok v(2) by (simp_all add: conn_ok_def)
    have "Kfifo_writeFd mx write (m_outputBuffer tc) (m_fd ch) =
        (case write (m_fd ch) (out_bytes tc) of Inl e \<Rightarrow> Inr (- 1, Some e, m_outputBuffer tc)
         | Inr n \<Rightarrow> Inr (int n, None, m_outputBuffer tc))"
      using Kfifo_writeFd_eq [OF k(1,2), of mx "write" "m_fd ch"] cont by simp
    moreover have "readable_len mx c v = Inr (length (out_bytes tc), v)"
      using readable_len_ok [OF v(1)] k by simp
    moreover have "conn_set_out c (m_outputBuffer tc) v = Inr v" using conn_set_out_same [OF v(1)] by simp
    ultimately show ?thesis using v(1) k(3) wr q
      by (auto simp: TcpConnection_handleWrite_def Conn_at_def Channel_at_def split: sum.split)
  qed
  have c: "conns w c = Some (tc\<lparr>m_state := m_state tc\<rparr>)" "channels w (m_channel tc) = Some ch"
    using ok by (simp_all add: conn_ok_def)
  define w' where "w' = (if m_state tc = kConnected then Conn_put c (tc\<lparr>m_state := kDisconnecting\<rparr>) w else w)"
  have "TcpConnection_shutdown (m_threadId w) c w = Inr w'"
    using c wr by (simp add: TcpConnection_shutdown_def setState_def Conn_at_def w'_def
        EventLoop_isInLoopThread_def TcpConnection_shutdownInLoop_def Channel_at_def)
  moreover have "TcpConnection_handleWrite ctl mx write c w' = Inr w'" "netlog w' = netlog w"
    using H [of w' kDisconnecting] H [OF c(1)] by (auto simp: w'_def)
  ultimately show ?thesis using H [OF c(1)] by simp
qed

theorem TcpConnection_handleWrite_stuck_witness:
  "let tc = ex_conn\<lparr>m_outputBuffer := ex_fifo\<lparr>kwrite := 2\<rparr>\<rparr>; ch = ex_chan\<lparr>m_events := 7\<rparr>;
       w = Conn_put 9 tc (ex_world\<lparr>channels := [5 \<mapsto> ch], ctlLog := [(EPOLL_CTL_ADD, 3, 7, 5)]\<rparr>)
   in TcpConnection_handleWrite ex_ctl RelockBlocks (\<lambda>_ bs. Inr (length bs)) 9 w = Inr w"
proof -
  let ?tc = "ex_conn\<lparr>m_outputBuffer := ex_fifo\<lparr>kwrite := 2\<rparr>\<rparr>" and ?ch = "ex_chan\<lparr>m_events := 7\<rparr>"
  let ?w = "Conn_put 9 ?tc (ex_world\<lparr>channels := [5 \<mapsto> ?ch], ctlLog := [(EPOLL_CTL_ADD, 3, 7, 5)]\<rparr>)"
  have "conn_ok ?w 9 ?tc ?ch" "out_bytes ?tc = [0, 0]" "Channel_isWriting ?ch"
    by (auto simp: conn_ok_def ex_world_def ex_conn_def ex_chan_def ex_fifo_def ep_inv_def interest_def Channel_new_def
        Kfifo_inv_def is_power_of_two_def Kfifo_contents_def ring_view_def upt_rec Channel_isWriting_def
        kWriteEvent_def EPOLLOUT_def)
  from TcpConnection_handleWrite_stuck [OF this(1,3), of ex_ctl RelockBlocks "\<lambda>_ bs. Inr (length bs)"] this(2)
  show ?thesis by (simp add: ex_conn_def ex_fifo_def Let_def)
qed



text \<open>Sending from another thread binds the address of the caller's string and no copy of it: when the
  caller's string is gone by the time the loop runs the functor, the send reads freed memory.\<close>

lemma TcpConnection_send_dangling:
  assumes "conns w c = Some tc" and "m_state tc = kConnected" and "m_threadId w \<noteq> tid" and "strings w ptr = Some s"
  shows "\<exists>w'. TcpConnection_send ctl mx wr tid ptr c w = Inr w' \<and>
    m_pendingFunctors w' = m_pendingFunctors w @ [FSend c ptr (length s)] \<and> 0 < wakeCount w' \<and>
    run_functor ctl mx wr user server (FSend c ptr (length s)) (w'\<lparr>strings := (strings w')(ptr := None)\<rparr>) = Inl UseAfterFree"
  using assms queueInLoop_wakes [of w tid "FSend c ptr (length s)"]
  by (simp add: TcpConnection_send_def Conn_at_def String_at_def EventLoop_isInLoopThread_def)

end
