(* ===== verification/Conn_Machine.thy ===== *)
theory Conn_Machine
  imports Tcp_Connection
begin

text \<open>
  A \<^verbatim>\<open>TcpConnection\<close> as a state machine: the operations of the class in any order, what is invariant under
  them, and the order of the states. The application's callbacks are any code that keeps the
  invariant itself, for example by sending and shutting down.
\<close>

section \<open>The order of the states\<close>

fun stage :: "StateE \<Rightarrow> nat" where
  "stage kConnecting = 0"
| "stage kConnected = 1"
| "stage kDisconnecting = 2"
| "stage kDisconnected = 3"

lemma stage_inject [simp]: "stage x = stage y \<longleftrightarrow> x = y"
  by (cases x; cases y) simp_all

instantiation StateE :: linorder
begin

definition less_eq_StateE :: "StateE \<Rightarrow> StateE \<Rightarrow> bool" where
  "less_eq_StateE x y \<longleftrightarrow> stage x \<le> stage y"

definition less_StateE :: "StateE \<Rightarrow> StateE \<Rightarrow> bool" where
  "less_StateE x y \<longleftrightarrow> stage x < stage y"

instance
  by standard (auto simp: less_eq_StateE_def less_StateE_def)

end

lemma StateE_bounds [simp]: "kConnecting \<le> x" "x \<le> kDisconnected"
  by (cases x; simp add: less_eq_StateE_def)+

lemma StateE_chain [simp]: "kConnected \<le> kDisconnecting" "kConnecting < kConnected"
  by (simp_all add: less_eq_StateE_def less_StateE_def)

section \<open>Invariant\<close>

text \<open>
  The buffers and the poller are in order and somebody refers to the connection. Until it is
  established it has no events and no output; from then on it is watched for reading; once
  disconnected it asks for no events. As long as it is not disconnected, queued output is being
  waited for. Nothing is ever consumed from the output buffer.
\<close>

definition conn_wf :: "'a world_scheme \<Rightarrow> nat \<Rightarrow> tcpconn \<Rightarrow> channel \<Rightarrow> bool" where
  "conn_wf w c tc ch \<longleftrightarrow> conn_ok w c tc ch \<and> 0 < refs w c \<and> kread (m_outputBuffer tc) = 0 \<and>
     m_connectionCallback tc \<noteq> None \<and> m_messageCallback tc \<noteq> None \<and> m_closeCallback tc \<noteq> None \<and>
     (m_state tc = kConnecting \<longrightarrow> m_events ch = 0 \<and> out_bytes tc = []) \<and>
     (m_state tc = kConnected \<or> m_state tc = kDisconnecting \<longrightarrow> Channel_isReading ch) \<and>
     (m_state tc = kDisconnected \<longrightarrow> m_events ch = 0) \<and>
     (m_state tc \<noteq> kDisconnected \<and> out_bytes tc \<noteq> [] \<longrightarrow> Channel_isWriting ch)"

text \<open>What a step does to the rest: the state only moves forward and references are not given up.\<close>

definition conn_next :: "nat \<Rightarrow> 'a world_scheme \<Rightarrow> tcpconn \<Rightarrow> 'a world_scheme \<Rightarrow> tcpconn \<Rightarrow> bool" where
  "conn_next c w tc w' tc' \<longleftrightarrow> m_state tc \<le> m_state tc' \<and> m_channel tc' = m_channel tc \<and> refs w c \<le> refs w' c \<and>
     m_threadId w' = m_threadId w"

definition steps_well :: "nat \<Rightarrow> 'a world_scheme \<Rightarrow> tcpconn \<Rightarrow> 'a world_scheme res \<Rightarrow> bool" where
  "steps_well c w tc r \<longleftrightarrow> (\<exists>w' tc' ch'. r = Inr w' \<and> conn_wf w' c tc' ch' \<and> conn_next c w tc w' tc')"

text \<open>What the application's callbacks for the connection may do.\<close>

fun call_conn :: "ucall \<Rightarrow> nat" where
  "call_conn (UConnection c b) = c"
| "call_conn (UMessage c t) = c"
| "call_conn (UWriteComplete c) = c"
| "call_conn (UHighWater c n) = c"
| "call_conn (UClose c) = c"

definition callbacks_ok :: "'a user \<Rightarrow> nat \<Rightarrow> bool" where
  "callbacks_ok user c \<longleftrightarrow> (\<forall>u w tc ch. call_conn u = c \<and> conn_wf w c tc ch \<longrightarrow> steps_well c w tc (user u w))"

lemma conn_next_refl [simp]: "conn_next c w tc w tc"
  by (simp add: conn_next_def)

lemma conn_next_trans: "conn_next c w tc w' tc' \<Longrightarrow> conn_next c w' tc' w'' tc'' \<Longrightarrow> conn_next c w tc w'' tc''"
  by (auto simp: conn_next_def)

lemma steps_well_bind:
  assumes "steps_well c w tc r"
    and "\<And>w' tc' ch'. conn_wf w' c tc' ch' \<Longrightarrow> conn_next c w tc w' tc' \<Longrightarrow> steps_well c w' tc' (f w')"
  shows "steps_well c w tc (rbind r f)"
proof -
  obtain w' tc' ch' where r: "r = Inr w'" "conn_wf w' c tc' ch'" "conn_next c w tc w' tc'"
    using assms(1) by (auto simp: steps_well_def)
  then show ?thesis using assms(2) [OF r(2,3)] conn_next_trans [OF r(3)] by (fastforce simp: steps_well_def)
qed

lemma steps_well_Inr: "conn_wf w' c tc' ch' \<Longrightarrow> conn_next c w tc w' tc' \<Longrightarrow> steps_well c w tc (Inr w')"
  by (auto simp: steps_well_def)

lemma steps_well_from: "steps_well c w' tc' r \<Longrightarrow> conn_next c w tc w' tc' \<Longrightarrow> steps_well c w tc r"
  by (auto simp: steps_well_def dest: conn_next_trans)

lemma conn_wf_at:
  assumes "conn_wf w c tc ch"
  shows "Conn_at w c = Inr tc" "Channel_at w (m_channel tc) = Inr ch" "conns w c = Some tc" "channels w (m_channel tc) = Some ch"
    "ep_inv w"
  using assms by (simp_all add: conn_wf_def conn_ok_def Conn_at_def Channel_at_def)

lemma conn_wf_callbacks:
  assumes "conn_wf w c tc ch"
  shows "m_connectionCallback tc \<noteq> None" "m_messageCallback tc \<noteq> None" "m_closeCallback tc \<noteq> None"
  using assms by (simp_all add: conn_wf_def)

text \<open>Changes of the world that the connection does not see.\<close>

lemma conn_wf_same:
  assumes "conn_wf w c tc ch" and "channels w' = channels w" and "m_channel_map w' = m_channel_map w" and "ctlLog w' = ctlLog w"
    and "conns w' c = conns w c" and "refs w c \<le> refs w' c"
  shows "conn_wf w' c tc ch"
  using assms ep_inv_same [of w' w] by (simp add: conn_wf_def conn_ok_def)

lemma steps_well_same:
  assumes "conn_wf w c tc ch" and "channels w' = channels w" and "m_channel_map w' = m_channel_map w" and "ctlLog w' = ctlLog w"
    and "conns w' c = conns w c" and "refs w c \<le> refs w' c" and "m_threadId w' = m_threadId w"
  shows "steps_well c w tc (Inr w')"
  using conn_wf_same [OF assms(1-6)] assms(6,7) by (intro steps_well_Inr) (auto simp: conn_next_def)

lemma invoke_well:
  assumes u: "callbacks_ok user c" and w: "conn_wf w c tc ch" and cb: "cb \<noteq> None" and uc: "call_conn u = c"
  shows "steps_well c w tc (invoke user cb u w)"
proof -
  let ?w = "w\<lparr>netlog := netlog w @ [NetCall u]\<rparr>"
  have "conn_wf ?w c tc ch" by (rule conn_wf_same [OF w]) simp_all
  moreover from this have "steps_well c ?w tc (user u ?w)" using u uc unfolding callbacks_ok_def by blast
  ultimately have "steps_well c w tc (user u ?w)" by (elim steps_well_from) (simp add: conn_next_def)
  then show ?thesis using cb by (auto simp: invoke_def)
qed

section \<open>Sending\<close>

lemma send_rest_well:
  assumes w: "conn_wf w c tc ch" and st: "m_state tc = kConnected \<or> m_state tc = kDisconnecting" and k: "kernel_accepts ctl"
    and n: "0 < n" "n < 2 ^ 32" "length data = nwrote + n"
  shows "steps_well c w tc (send_rest ctl RelockProceeds data nwrote n c w)"
proof -
  have ok: "conn_ok w c tc ch" using w by (simp add: conn_wf_def)
  obtain w' tc' ch' where r: "send_rest ctl RelockProceeds data nwrote n c w = Inr w'" "conn_ok w' c tc' ch'"
    "tc' = tc\<lparr>m_outputBuffer := m_outputBuffer tc'\<rparr>" "kread (m_outputBuffer tc') = kread (m_outputBuffer tc)"
    "Channel_isWriting ch'" "Channel_isReading ch' = Channel_isReading ch" "refs w c \<le> refs w' c" "m_threadId w' = m_threadId w"
    using send_rest_ok [OF ok k n] by blast
  have f: "m_state tc' = m_state tc" "m_channel tc' = m_channel tc" "m_connectionCallback tc' = m_connectionCallback tc"
    "m_messageCallback tc' = m_messageCallback tc" "m_closeCallback tc' = m_closeCallback tc"
    by (subst r(3), simp)+
  have "conn_wf w' c tc' ch'" using w r(2,4-7) st unfolding conn_wf_def f by auto
  moreover have "conn_next c w tc w' tc'" using r(7,8) f by (simp add: conn_next_def)
  ultimately show ?thesis using r(1) by (auto simp: steps_well_def)
qed

text \<open>\<^verbatim>\<open>write\<close> does not claim to have written more than it was given.\<close>

definition write_ok :: "write_call \<Rightarrow> bool" where
  "write_ok wr \<longleftrightarrow> (\<forall>fd bs n. wr fd bs = Inr n \<longrightarrow> n \<le> length bs)"

lemma queue_writeComplete_well:
  assumes "conn_wf w c tc ch"
  shows "steps_well c w tc (Inr (queue_writeComplete c tc' w))"
  by (rule steps_well_same [OF assms])
     (simp_all add: queue_writeComplete_def queue_owned_def acquire_def EventLoop_queueInLoop_def queue_push_def queue_notify_def
       EventLoop_wakeUp_def split: option.split)

lemma sendInLoop_well:
  assumes w: "conn_wf w c tc ch" and st: "m_state tc \<noteq> kConnecting" and k: "kernel_accepts ctl" and wr: "write_ok wr"
    and n: "length data < 2 ^ 32"
  shows "steps_well c w tc (TcpConnection_sendInLoop ctl RelockProceeds wr data (length data) c w)"
proof -
  have ok: "conn_ok w c tc ch" using w by (simp add: conn_wf_def)
  note at = conn_wf_at [OF w]
  have id: "steps_well c w tc (Inr w)" using w by (rule steps_well_Inr) simp
  have rest: "steps_well c w tc (send_rest ctl RelockProceeds data m (length data - m) c w)"
    if "m_state tc \<noteq> kDisconnected" "m < length data" for m
    using send_rest_well [OF w _ k, of "length data - m" data m] that st n by (cases "m_state tc") auto
  consider "m_state tc = kDisconnected" | "m_state tc \<noteq> kDisconnected" "Channel_isWriting ch \<or> out_bytes tc \<noteq> []" "data \<noteq> []"
    | "m_state tc \<noteq> kDisconnected" "Channel_isWriting ch" "data = []"
    | "m_state tc \<noteq> kDisconnected" "\<not> Channel_isWriting ch" "out_bytes tc = []"
    using w by (auto simp: conn_wf_def)
  then show ?thesis
  proof cases
    case 1
    then show ?thesis using id at by (simp add: TcpConnection_sendInLoop_def)
  next
    case 2
    then show ?thesis using sendInLoop_queued [OF ok 2] rest [of 0] by simp
  next
    case 3
    then show ?thesis using id at by (simp add: TcpConnection_sendInLoop_def)
  next
    case 4
    have "n \<le> length data" if "wr (m_fd ch) data = Inr n" for n using wr that by (auto simp: write_ok_def)
    then show ?thesis
      using sendInLoop_direct [OF ok 4, of ctl RelockProceeds wr data] id rest [OF 4(1)] rest [OF 4(1), of 0] queue_writeComplete_well [OF w]
      by (auto simp: Let_def split: sum.split)
  qed
qed

lemma send_well:
  assumes w: "conn_wf w c tc ch" and k: "kernel_accepts ctl" and wr: "write_ok wr" and s: "strings w ptr = Some s" "length s < 2 ^ 32"
  shows "steps_well c w tc (TcpConnection_send ctl RelockProceeds wr tid ptr c w)"
proof -
  note at = conn_wf_at [OF w]
  have q: "steps_well c w tc (Inr (EventLoop_queueInLoop tid f w))" for f
    by (rule steps_well_same [OF w])
       (simp_all add: EventLoop_queueInLoop_def queue_push_def queue_notify_def EventLoop_wakeUp_def)
  have "steps_well c w tc (Inr w)" using w by (rule steps_well_Inr) simp
  then show ?thesis
    using at s q sendInLoop_well [OF w _ k wr s(2)] by (simp add: TcpConnection_send_def String_at_def)
qed

section \<open>Opening and closing\<close>

lemma set_events_conn:
  assumes ok: "conn_ok w c tc ch" and k: "kernel_accepts ctl"
  shows "\<exists>w'. Channel_set_events ctl f (m_channel tc) w = Inr w' \<and>
    conn_ok w' c tc (ch\<lparr>m_events := f (m_events ch), m_index := next_index ch (f (m_events ch))\<rparr>) \<and>
    refs w' = refs w \<and> m_threadId w' = m_threadId w"
proof -
  have h: "ep_inv w" "channels w (m_channel tc) = Some ch" using ok by (simp_all add: conn_ok_def)
  obtain w' where "Channel_set_events ctl f (m_channel tc) w = Inr w'" "ep_inv w'" "refs w' = refs w"
    "channels w' (m_channel tc) = Some (ch\<lparr>m_events := f (m_events ch), m_index := next_index ch (f (m_events ch))\<rparr>)"
    "poller.more w' = poller.more w"
    using set_events_ok [OF h k, of f] by auto
  then show ?thesis using ok world_more [of w' w] by (intro exI [of _ w']) (simp add: conn_ok_def)
qed

lemma remove_well:
  assumes w: "conn_wf w c tc ch" and k: "kernel_accepts ctl"
  shows "steps_well c w tc (Channel_remove ctl (m_channel tc) w)"
proof -
  obtain w' where w': "Channel_remove ctl (m_channel tc) w = Inr w'" "ep_inv w'" "refs w' = refs w"
    "channels w' (m_channel tc) = Some (ch\<lparr>m_index := kNew\<rparr>)" "poller.more w' = poller.more w"
    using remove_ok [OF conn_wf_at(5,4) [OF w] k] by auto
  have "conn_wf w' c tc (ch\<lparr>m_index := kNew\<rparr>)"
    using w w'(2-4) world_more [OF w'(5)]
    by (simp add: conn_wf_def conn_ok_def Channel_isReading_def Channel_isWriting_def)
  then show ?thesis using w'(1,3) world_more [OF w'(5)] by (auto simp: steps_well_def conn_next_def)
qed

lemma conn_ok_put:
  assumes "conn_ok w c tc ch" and "m_channel tc' = m_channel tc"
    and "Kfifo_ready (m_outputBuffer tc')" and "Kfifo_ready (m_inputBuffer tc')"
  shows "conn_ok (Conn_put c tc' w) c tc' ch"
  using assms by (simp add: conn_ok_def Kfifo_ready_def)

lemma conn_ok_ready: "conn_ok w c tc ch \<Longrightarrow> Kfifo_ready (m_outputBuffer tc) \<and> Kfifo_ready (m_inputBuffer tc)"
  by (simp add: conn_ok_def Kfifo_ready_def)

lemma setState_ok:
  assumes "conn_ok w c tc ch"
  shows "setState st c w = Inr (Conn_put c (tc\<lparr>m_state := st\<rparr>) w)"
    "conn_ok (Conn_put c (tc\<lparr>m_state := st\<rparr>) w) c (tc\<lparr>m_state := st\<rparr>) ch"
  using assms conn_ok_put [OF assms, of "tc\<lparr>m_state := st\<rparr>"] conn_ok_ready [OF assms]
  by (simp_all add: setState_def Conn_at_def conn_ok_def)

lemma shutdownInLoop_well:
  assumes w: "conn_wf w c tc ch"
  shows "steps_well c w tc (TcpConnection_shutdownInLoop c w)"
proof -
  have "steps_well c w tc (Inr w)" "steps_well c w tc (Inr (Socket_shutdownWrite fd w))" for fd
    by (rule steps_well_same [OF w]; simp add: Socket_shutdownWrite_def)+
  then show ?thesis using conn_wf_at [OF w] by (simp add: TcpConnection_shutdownInLoop_def)
qed

lemma shutdown_well:
  assumes w: "conn_wf w c tc ch"
  shows "steps_well c w tc (TcpConnection_shutdown tid c w)"
proof (cases "m_state tc = kConnected")
  case True
  let ?tc = "tc\<lparr>m_state := kDisconnecting\<rparr>"
  let ?w = "Conn_put c ?tc w"
  have ok: "conn_ok w c tc ch" using w by (simp add: conn_wf_def)
  note s = setState_ok [OF ok, of kDisconnecting]
  have w1: "conn_wf ?w c ?tc ch" using w True s(2) by (simp add: conn_wf_def)
  have "steps_well c ?w ?tc (Inr (EventLoop_queueInLoop tid f ?w))" for f
    by (rule steps_well_same [OF w1])
       (simp_all add: EventLoop_queueInLoop_def queue_push_def queue_notify_def EventLoop_wakeUp_def)
  then have "steps_well c ?w ?tc (if EventLoop_isInLoopThread tid ?w then TcpConnection_shutdownInLoop c ?w
      else Inr (EventLoop_queueInLoop tid (FShutdown c) ?w))" using shutdownInLoop_well [OF w1] by simp
  moreover have "conn_next c w tc ?w ?tc" using True by (simp add: conn_next_def)
  ultimately show ?thesis
    using steps_well_from s(1) conn_wf_at [OF w] True by (fastforce simp: TcpConnection_shutdown_def)
next
  case False
  have "steps_well c w tc (Inr w)" using w by (rule steps_well_Inr) simp
  then show ?thesis using False conn_wf_at [OF w] by (simp add: TcpConnection_shutdown_def)
qed

text \<open>What closing and destroying have in common: the state is set and all events are given up.\<close>

lemma disconnect_well:
  assumes w: "conn_wf w c tc ch" and k: "kernel_accepts ctl" and tc': "tc' = tc\<lparr>m_state := kDisconnected\<rparr>"
  shows "\<exists>w1 w2 ch2. setState kDisconnected c w = Inr w1 \<and> Conn_at w1 c = Inr tc' \<and>
    Channel_disableAll ctl (m_channel tc) w1 = Inr w2 \<and> conn_wf w2 c tc' ch2 \<and> conn_next c w tc w2 tc'"
proof -
  have ok: "conn_ok w c tc ch" using w by (simp add: conn_wf_def)
  note s = setState_ok [OF ok, of kDisconnected, folded tc']
  obtain w2 where w2: "Channel_disableAll ctl (m_channel tc') (Conn_put c tc' w) = Inr w2"
    "conn_ok w2 c tc' (ch\<lparr>m_events := 0, m_index := next_index ch 0\<rparr>)" "refs w2 = refs w" "m_threadId w2 = m_threadId w"
    using set_events_conn [OF s(2) k, of "\<lambda>_. kNoneEvent"] by (auto simp: Channel_disableAll_def kNoneEvent_def)
  have "conn_wf w2 c tc' (ch\<lparr>m_events := 0, m_index := next_index ch 0\<rparr>)"
    using w w2(2,3) by (simp add: conn_wf_def tc')
  moreover have "conn_next c w tc w2 tc'" using w2(3,4) by (simp add: conn_next_def tc')
  ultimately show ?thesis using s(1) w2(1) by (auto simp: tc' Conn_at_def)
qed

lemma connectEstablished_well:
  assumes w: "conn_wf w c tc ch" and st: "m_state tc = kConnecting" and k: "kernel_accepts ctl" and u: "callbacks_ok user c"
  shows "steps_well c w tc (TcpConnection_connectEstablished ctl user c w)"
proof -
  let ?tc = "tc\<lparr>m_state := kConnected\<rparr>" and ?ch = "ch\<lparr>m_tie := Some c, m_tied := True\<rparr>"
  have ok: "conn_ok w c tc ch" using w by (simp add: conn_wf_def)
  note s = setState_ok [OF ok, of kConnected]
  let ?w1 = "Conn_put c ?tc w"
  let ?w2 = "Channel_put (m_channel tc) ?ch ?w1"
  have "ep_inv ?w2" using s(2) by (intro ep_inv_put) (simp_all add: conn_ok_def)
  then have ok2: "conn_ok ?w2 c ?tc ?ch" "Channel_tie (m_channel tc) c ?w1 = Inr ?w2"
    using s(2) by (simp_all add: conn_ok_def Channel_tie_def Channel_at_def) (simp_all add: Channel_put_def)
  obtain w3 ch3 where w3: "Channel_enableReading ctl (m_channel tc) ?w2 = Inr w3" "conn_ok w3 c ?tc ch3"
    "Channel_isReading ch3" "refs w3 = refs w" "m_threadId w3 = m_threadId w"
    using set_events_conn [OF ok2(1) k, of "\<lambda>e. e OR kReadEvent"] event_bits(1) [of "m_events ch"]
    by (auto simp: Channel_enableReading_def Channel_isReading_def Channel_put_def)
  have wf: "conn_wf w3 c ?tc ch3" using w w3(2-4) st by (simp add: conn_wf_def)
  moreover have "conn_next c w tc w3 ?tc" using w3(4,5) st by (simp add: conn_next_def)
  ultimately have "steps_well c w tc (invoke user (m_connectionCallback ?tc) (UConnection c True) w3)"
    using invoke_well [OF u wf conn_wf_callbacks(1) [OF wf], of "UConnection c True"] steps_well_from by simp blast
  then show ?thesis using s(1) ok2(2) w3(1) by (simp add: TcpConnection_connectEstablished_def Conn_at_def)
qed

lemma connectDestroyed_well:
  assumes w: "conn_wf w c tc ch" and k: "kernel_accepts ctl" and u: "callbacks_ok user c"
  shows "steps_well c w tc (TcpConnection_connectDestroyed ctl user c w)"
proof -
  let ?tc = "tc\<lparr>m_state := kDisconnected\<rparr>"
  obtain w1 w2 ch2 where d: "setState kDisconnected c w = Inr w1" "Channel_disableAll ctl (m_channel tc) w1 = Inr w2"
    "conn_wf w2 c ?tc ch2" "conn_next c w tc w2 ?tc" using disconnect_well [OF w k refl] by blast
  have "steps_well c w2 ?tc (invoke user (m_connectionCallback tc) (UConnection c False) w2)"
    using invoke_well [OF u d(3) conn_wf_callbacks(1) [OF d(3)], of "UConnection c False"] by simp
  from steps_well_from [OF this d(4)]
  have "steps_well c w tc (if m_state tc = kConnected then
      rbind (setState kDisconnected c w) (\<lambda>w. rbind (Channel_disableAll ctl (m_channel tc) w) (\<lambda>w.
        invoke user (m_connectionCallback tc) (UConnection c False) w)) else Inr w)"
    using d(1,2) steps_well_Inr [OF w conn_next_refl] by simp
  then show ?thesis
    unfolding TcpConnection_connectDestroyed_def conn_wf_at(1) [OF w] rbind_Inr
    by (rule steps_well_bind) (simp add: conn_wf_at(1) remove_well [OF _ k])
qed

lemma handleClose_well:
  assumes w: "conn_wf w c tc ch" and k: "kernel_accepts ctl" and u: "callbacks_ok user c"
  shows "steps_well c w tc (TcpConnection_handleClose ctl user c w)"
proof -
  let ?tc = "tc\<lparr>m_state := kDisconnected\<rparr>"
  obtain w1 w2 ch2 where d: "setState kDisconnected c w = Inr w1" "Conn_at w1 c = Inr ?tc"
    "Channel_disableAll ctl (m_channel tc) w1 = Inr w2" "conn_wf w2 c ?tc ch2" "conn_next c w tc w2 ?tc"
    using disconnect_well [OF w k refl] by blast
  have a: "conn_wf (acquire c w2) c ?tc ch2" by (rule conn_wf_same [OF d(4)]) (simp_all add: acquire_def)
  obtain w3 tc3 ch3 where w3: "invoke user (m_connectionCallback ?tc) (UConnection c False) (acquire c w2) = Inr w3"
    "conn_wf w3 c tc3 ch3" "conn_next c (acquire c w2) ?tc w3 tc3"
    using invoke_well [OF u a conn_wf_callbacks(1) [OF a], of "UConnection c False", OF call_conn.simps(1)]
    unfolding steps_well_def by blast
  obtain w4 tc4 ch4 where w4: "invoke user (m_closeCallback tc3) (UClose c) w3 = Inr w4" "conn_wf w4 c tc4 ch4"
    "conn_next c w3 tc3 w4 tc4"
    using invoke_well [OF u w3(2) conn_wf_callbacks(3) [OF w3(2)], of "UClose c", OF call_conn.simps(5)]
    unfolding steps_well_def by blast
  let ?w5 = "w4\<lparr>refs := (refs w4)(c := refs w4 c - 1)\<rparr>"
  have n: "conn_next c (acquire c w2) ?tc w4 tc4" using conn_next_trans [OF w3(3) w4(3)] .
  then have r: "Suc (refs w2 c) \<le> refs w4 c" by (simp add: conn_next_def acquire_def)
  moreover have "0 < refs w2 c" using d(4) by (simp add: conn_wf_def)
  ultimately have "release_conn c w4 = Inr ?w5" by (simp add: release_conn_def)
  moreover have "conn_wf ?w5 c tc4 ch4"
    using w4(2) r \<open>0 < refs w2 c\<close> ep_inv_same [of ?w5 w4] by (simp add: conn_wf_def conn_ok_def)
  moreover have "conn_next c w2 ?tc ?w5 tc4" using n r by (simp add: conn_next_def acquire_def)
  ultimately have "steps_well c w tc (release_conn c w4)" using conn_next_trans [OF d(5)] by (auto simp: steps_well_def)
  then show ?thesis
    using d(1-3) w3(1) w4(1) conn_wf_at(1) [OF w3(2)] by (simp add: TcpConnection_handleClose_def)
qed

section \<open>Events\<close>

text \<open>What a read delivers fits into the input buffer.\<close>

definition read_fits :: "(int \<Rightarrow> nat list \<Rightarrow> int + byte list) \<Rightarrow> tcpconn \<Rightarrow> channel \<Rightarrow> bool" where
  "read_fits readv tc ch \<longleftrightarrow>
     (case readv (m_fd ch) (Kfifo_iov (m_inputBuffer tc)) of
        Inl e \<Rightarrow> True
      | Inr bytes \<Rightarrow> length bytes \<le> Kfifo_tail (m_inputBuffer tc) \<and> length bytes \<le> Kfifo_room (m_inputBuffer tc))"

lemma handleRead_well:
  assumes w: "conn_wf w c tc ch" and k: "kernel_accepts ctl" and u: "callbacks_ok user c" and r: "read_fits readv tc ch"
  shows "steps_well c w tc (TcpConnection_handleRead ctl mx readv user t c w)"
proof -
  note at = conn_wf_at [OF w]
  have ok: "conn_ok w c tc ch" "Kfifo_inv (m_inputBuffer tc)" "buffer (m_inputBuffer tc) \<noteq> None"
    using w by (simp_all add: conn_wf_def conn_ok_def)
  note eq = Kfifo_readFd_eq [OF ok(2,3), where readv = readv and fd = "m_fd ch" and mx = mx]
  show ?thesis
  proof (cases "readv (m_fd ch) (Kfifo_iov (m_inputBuffer tc))")
    case (Inl e)
    have "Conn_put c tc w = w" "Conn_channel w c = Inr ch" using at by (simp_all add: Conn_put_same Conn_channel_def)
    then have "TcpConnection_handleRead ctl mx readv user t c w = Inr w"
      using eq at unfolding Inl by (simp add: TcpConnection_handleRead_def TcpConnection_handleError_def)
    then show ?thesis using steps_well_Inr [OF w conn_next_refl] by simp
  next
    case (Inr bytes)
    then obtain k' where k': "Kfifo_readFd mx readv (m_inputBuffer tc) (m_fd ch) = Inr (int (length bytes), None, k')"
      "Kfifo_ready k'" using eq r by (auto simp: read_fits_def Kfifo_ready_def)
    let ?tc = "tc\<lparr>m_inputBuffer := k'\<rparr>"
    let ?w = "Conn_put c ?tc w"
    have "conn_ok ?w c ?tc ch" using conn_ok_put [OF ok(1), of ?tc] conn_ok_ready [OF ok(1)] k'(2) by simp
    then have wf: "conn_wf ?w c ?tc ch" using w by (simp add: conn_wf_def)
    have n: "conn_next c w tc ?w ?tc" by (simp add: conn_next_def)
    have "steps_well c ?w ?tc (invoke user (m_messageCallback tc) (UMessage c t) ?w)"
      using invoke_well [OF u wf conn_wf_callbacks(2) [OF wf], of "UMessage c t"] by simp
    then show ?thesis
      using steps_well_from [OF _ n] handleClose_well [OF wf k u] k'(1) at
      by (simp add: TcpConnection_handleRead_def Let_def)
  qed
qed

text \<open>A channel that waits for writability belongs to an established connection.\<close>

lemma writing_state:
  assumes "conn_wf w c tc ch" and "Channel_isWriting ch"
  shows "m_state tc = kConnected \<or> m_state tc = kDisconnecting"
  using assms by (cases "m_state tc") (auto simp: conn_wf_def Channel_isWriting_def)

lemma disableWriting_well:
  assumes w: "conn_wf w c tc ch" and o: "out_bytes tc = []" and k: "kernel_accepts ctl" and wr: "Channel_isWriting ch"
  shows "steps_well c w tc (Channel_disableWriting ctl (m_channel tc) w)"
proof -
  have ok: "conn_ok w c tc ch" using w by (simp add: conn_wf_def)
  obtain w' ch' where w': "Channel_disableWriting ctl (m_channel tc) w = Inr w'" "conn_ok w' c tc ch'"
    "Channel_isReading ch' = Channel_isReading ch" "refs w' = refs w" "m_threadId w' = m_threadId w"
    using set_events_conn [OF ok k, of "\<lambda>e. e AND NOT kWriteEvent"] event_bits(8) [of "m_events ch"]
    by (auto simp: Channel_disableWriting_def Channel_isReading_def)
  have "conn_wf w' c tc ch'" using w w'(2-4) o writing_state [OF w wr] by (auto simp: conn_wf_def)
  then show ?thesis using w'(1,4,5) by (auto simp: steps_well_def conn_next_def)
qed

lemma handleWrite_well:
  assumes w: "conn_wf w c tc ch" and k: "kernel_accepts ctl"
  shows "steps_well c w tc (TcpConnection_handleWrite ctl mx wr c w)"
proof (cases "Channel_isWriting ch")
  case True
  note at = conn_wf_at [OF w]
  have id: "steps_well c w tc (Inr w)" using w by (rule steps_well_Inr) simp
  have o: "Kfifo_inv (m_outputBuffer tc)" "buffer (m_outputBuffer tc) \<noteq> None" "kread (m_outputBuffer tc) = 0"
    using w by (simp_all add: conn_wf_def conn_ok_def)
  have "length (out_bytes tc) \<le> unat (bufferSize (m_outputBuffer tc))"
    using o(1,2) length_Kfifo_contents by (fastforce simp: Kfifo_inv_def)
  then have f: "Kfifo_writeFd mx wr (m_outputBuffer tc) (m_fd ch) =
      (case wr (m_fd ch) (out_bytes tc) of Inl e \<Rightarrow> Inr (- 1, Some e, m_outputBuffer tc)
       | Inr n \<Rightarrow> Inr (int n, None, m_outputBuffer tc))"
    using Kfifo_writeFd_eq [OF o(1,2), of mx wr "m_fd ch"] o(3) by simp
  have len: "readable_len mx c w = Inr (length (out_bytes tc), w)" "conn_set_out c (m_outputBuffer tc) w = Inr w"
    using readable_len_ok [OF at(3) o(1,2)] conn_set_out_same [OF at(3)] by simp_all
  have d: "steps_well c w tc (rbind (Channel_disableWriting ctl (m_channel tc) w) (\<lambda>w.
      let w = queue_writeComplete c tc w in
      if m_state tc = kDisconnecting then TcpConnection_shutdownInLoop c w else Inr w))" if "out_bytes tc = []"
  proof (rule steps_well_bind [OF disableWriting_well [OF w that k True]])
    fix w' tc' ch' assume w': "conn_wf w' c tc' ch'"
    have "steps_well c w' tc' (rbind (Inr (queue_writeComplete c tc w')) (\<lambda>w.
        if m_state tc = kDisconnecting then TcpConnection_shutdownInLoop c w else Inr w))"
      by (rule steps_well_bind [OF queue_writeComplete_well [OF w']]) (auto intro: shutdownInLoop_well steps_well_Inr)
    then show "steps_well c w' tc' (let w = queue_writeComplete c tc w' in
        if m_state tc = kDisconnecting then TcpConnection_shutdownInLoop c w else Inr w)" by (simp add: Let_def)
  qed
  show ?thesis
    using True at id d len f by (cases "wr (m_fd ch) (out_bytes tc)") (simp_all add: TcpConnection_handleWrite_def)
next
  case False
  then show ?thesis using conn_wf_at [OF w] steps_well_Inr [OF w conn_next_refl] by (simp add: TcpConnection_handleWrite_def)
qed

section \<open>The machine\<close>

text \<open>The operations of the class: the calls of the application and of the server, the events of the
  channel, and the functors bound to \<^verbatim>\<open>this\<close> that the loop runs later.\<close>

datatype conn_op =
    OpSend int nat
  | OpShutdown int
  | OpEstablish
  | OpDestroy
  | OpRead timestamp
  | OpWrite
  | OpClose
  | OpError
  | OpRunSend nat nat
  | OpRunShutdown

fun conn_exec ::
    "ctl \<Rightarrow> relock \<Rightarrow> write_call \<Rightarrow> (int \<Rightarrow> nat list \<Rightarrow> int + byte list) \<Rightarrow> 'a user \<Rightarrow> nat \<Rightarrow> conn_op \<Rightarrow>
      'a world_scheme \<Rightarrow> 'a world_scheme res" where
  "conn_exec ctl mx wr readv user c (OpSend tid ptr) w = TcpConnection_send ctl mx wr tid ptr c w"
| "conn_exec ctl mx wr readv user c (OpShutdown tid) w = TcpConnection_shutdown tid c w"
| "conn_exec ctl mx wr readv user c OpEstablish w = TcpConnection_connectEstablished ctl user c w"
| "conn_exec ctl mx wr readv user c OpDestroy w = TcpConnection_connectDestroyed ctl user c w"
| "conn_exec ctl mx wr readv user c (OpRead t) w = TcpConnection_handleRead ctl mx readv user t c w"
| "conn_exec ctl mx wr readv user c OpWrite w = TcpConnection_handleWrite ctl mx wr c w"
| "conn_exec ctl mx wr readv user c OpClose w = TcpConnection_handleClose ctl user c w"
| "conn_exec ctl mx wr readv user c OpError w = TcpConnection_handleError c w"
| "conn_exec ctl mx wr readv user c (OpRunSend ptr len) w = run_functor ctl mx wr user (\<lambda>_. Inr) (FSend c ptr len) w"
| "conn_exec ctl mx wr readv user c OpRunShutdown w = run_functor ctl mx wr user (\<lambda>_. Inr) (FShutdown c) w"

text \<open>When an operation may be called: strings that are sent are alive (also when a queued send runs) and
  shorter than 4 GiB, a connection is established once, nothing was sent before that, and reads fit.\<close>

definition sendable :: "'a world_scheme \<Rightarrow> nat \<Rightarrow> nat \<Rightarrow> bool" where
  "sendable w ptr len \<longleftrightarrow> len < 2 ^ 32 \<and> (\<exists>s. strings w ptr = Some s \<and> length s = len)"

fun conn_legal :: "(int \<Rightarrow> nat list \<Rightarrow> int + byte list) \<Rightarrow> 'a world_scheme \<Rightarrow> tcpconn \<Rightarrow> channel \<Rightarrow> conn_op \<Rightarrow> bool" where
  "conn_legal readv w tc ch (OpSend tid ptr) \<longleftrightarrow> (\<exists>len. sendable w ptr len)"
| "conn_legal readv w tc ch OpEstablish \<longleftrightarrow> m_state tc = kConnecting"
| "conn_legal readv w tc ch (OpRead t) \<longleftrightarrow> read_fits readv tc ch"
| "conn_legal readv w tc ch (OpRunSend ptr len) \<longleftrightarrow> m_state tc \<noteq> kConnecting \<and> sendable w ptr len"
| "conn_legal readv w tc ch op \<longleftrightarrow> True"

lemma conn_exec_well:
  assumes w: "conn_wf w c tc ch" and l: "conn_legal readv w tc ch op"
    and k: "kernel_accepts ctl" and wr: "write_ok wr" and u: "callbacks_ok user c"
  shows "steps_well c w tc (conn_exec ctl RelockProceeds wr readv user c op w)"
proof (cases op)
  case (OpSend tid ptr)
  then show ?thesis using send_well [OF w k wr] l by (auto simp: sendable_def)
next
  case OpEstablish
  then show ?thesis using connectEstablished_well [OF w _ k u] l by simp
next
  case (OpRead t)
  then show ?thesis using handleRead_well [OF w k u] l by simp
next
  case OpError
  then show ?thesis
    using steps_well_Inr [OF w conn_next_refl] conn_wf_at [OF w] by (simp add: TcpConnection_handleError_def Conn_channel_def)
next
  case (OpRunSend ptr len)
  then obtain s where s: "strings w ptr = Some s" "length s = len" "length s < 2 ^ 32" "m_state tc \<noteq> kConnecting"
    using l by (auto simp: sendable_def)
  show ?thesis
  proof (cases "m_state tc = kDisconnected")
    case True
    then show ?thesis using OpRunSend conn_wf_at [OF w] steps_well_Inr [OF w conn_next_refl]
      by (simp add: TcpConnection_sendInLoop_def)
  next
    case False
    then show ?thesis using OpRunSend s conn_wf_at [OF w] sendInLoop_well [OF w s(4) k wr s(3)] by (simp add: String_at_def)
  qed
qed (use assms in \<open>simp_all add: shutdown_well connectDestroyed_well handleWrite_well handleClose_well shutdownInLoop_well\<close>)

inductive conn_step ::
    "ctl \<Rightarrow> relock \<Rightarrow> write_call \<Rightarrow> (int \<Rightarrow> nat list \<Rightarrow> int + byte list) \<Rightarrow> 'a user \<Rightarrow> nat \<Rightarrow>
      'a world_scheme \<Rightarrow> 'a world_scheme \<Rightarrow> bool" for ctl mx wr readv user c where
  "conns w c = Some tc \<Longrightarrow> channels w (m_channel tc) = Some ch \<Longrightarrow> conn_legal readv w tc ch op \<Longrightarrow>
    conn_exec ctl mx wr readv user c op w = Inr w' \<Longrightarrow> conn_step ctl mx wr readv user c w w'"

lemma conn_reach_wf:
  assumes "(conn_step ctl RelockProceeds wr readv user c)\<^sup>*\<^sup>* w w'" and w: "conn_wf w c tc ch"
    and k: "kernel_accepts ctl" and wr: "write_ok wr" and u: "callbacks_ok user c"
  shows "\<exists>tc' ch'. conn_wf w' c tc' ch' \<and> conn_next c w tc w' tc'"
  using assms(1)
proof (induction rule: rtranclp_induct)
  case base
  then show ?case using w by (blast intro: conn_next_refl)
next
  case (step v v')
  then obtain tc1 ch1 where v: "conn_wf v c tc1 ch1" "conn_next c w tc v tc1" by blast
  from step.hyps(2) obtain op where "conn_legal readv v tc1 ch1 op" "conn_exec ctl RelockProceeds wr readv user c op v = Inr v'"
    using conn_wf_at [OF v(1)] by (cases rule: conn_step.cases) auto
  then show ?case using conn_exec_well [OF v(1) _ k wr u] conn_next_trans [OF v(2)] by (fastforce simp: steps_well_def)
qed

text \<open>\<^verbatim>\<open>ChatServer::onConnection\<close> of the example server (without its output).\<close>

definition ChatServer_onConnection :: "nat \<Rightarrow> 'a world_scheme \<Rightarrow> 'a world_scheme res" where
  "ChatServer_onConnection c w =
     rbind (Conn_at w c) (\<lambda>tc.
     if TcpConnection_connected tc then Inr w else TcpConnection_shutdown (m_threadId w) c w)"

definition chat_user :: "'a user" where
  "chat_user u w = (case u of UConnection c _ \<Rightarrow> ChatServer_onConnection c w | _ \<Rightarrow> Inr w)"

lemma chat_user_ok: "callbacks_ok chat_user c"
  unfolding callbacks_ok_def
proof (intro allI impI, elim conjE)
  fix u :: ucall and w :: "'a world_scheme" and tc ch
  assume u: "call_conn u = c" and w: "conn_wf w c tc ch"
  then show "steps_well c w tc (chat_user u w)"
    using shutdown_well [OF w] steps_well_Inr [OF w conn_next_refl] conn_wf_at(1) [OF w]
    by (cases u) (simp_all add: chat_user_def ChatServer_onConnection_def)
qed

section \<open>Property\<close>


text \<open>A fresh connection is established, its peer closes, and the example server's callback runs.\<close>

definition ex_new_conn :: tcpconn where
  "ex_new_conn = ex_conn\<lparr>m_state := kConnecting\<rparr>"

definition ex_new_world :: world where
  "ex_new_world = ex_world\<lparr>channels := [5 \<mapsto> Channel_new 3], m_channel_map := (\<lambda>_. None), ctlLog := [], conns := [9 \<mapsto> ex_new_conn]\<rparr>"

lemma ex_new_wf: "conn_wf ex_new_world 9 ex_new_conn (Channel_new 3)"
  by (simp add: conn_wf_def conn_ok_def ex_new_world_def ex_world_def ex_new_conn_def ex_conn_def ex_fifo_def ep_inv_def
      Channel_new_def Kfifo_inv_def is_power_of_two_def Kfifo_contents_def ring_view_def kNew_def kAdded_def)


end
