(* ===== verification/Loop_Pool.thy ===== *)
theory Loop_Pool
  imports Prelude Decimal
begin

text \<open>
  \<^verbatim>\<open>EventLoopThreadPool\<close>, \<^verbatim>\<open>EventLoopThread\<close>, \<^verbatim>\<open>Thread\<close> and \<^verbatim>\<open>CurrentThread\<close> of \<^verbatim>\<open>src/mymuduo\<close>. Loops are addresses
  (0 is \<^verbatim>\<open>nullptr\<close>). The start-up of a loop's thread, a hand-shake between two threads over a mutex and
  a condition variable, is a step relation; the pool is sequential code over its result.
\<close>

section \<open>Thread identities and names\<close>

text \<open>The cached thread id: \<open>gettid\<close> is what the system call returns.\<close>

definition CurrentThread_cacheTid :: "int \<Rightarrow> int \<Rightarrow> int" where
  "CurrentThread_cacheTid gettid cached = (if cached = 0 then gettid else cached)"

definition CurrentThread_getTid :: "int \<Rightarrow> int \<Rightarrow> int \<times> int" where
  "CurrentThread_getTid gettid cached =
     (let cached = (if cached = 0 then CurrentThread_cacheTid gettid cached else cached) in (cached, cached))"

record thread =
  t_started :: bool
  t_joined :: bool
  t_tid :: int
  t_name :: string

definition Thread_setDefaultName :: "u32 \<Rightarrow> string \<Rightarrow> u32 \<times> string" where
  "Thread_setDefaultName numCount name =
     (let num = numCount + 1 in
      (num, if name = [] then snprintf 32 (''Thread '' @ dec_int (sint num)) else name))"

definition Thread_new :: "u32 \<Rightarrow> string \<Rightarrow> u32 \<times> thread" where
  "Thread_new numCount name =
     (let (num, name) = Thread_setDefaultName numCount name in
      (num, \<lparr>t_started = False, t_joined = False, t_tid = 0, t_name = name\<rparr>))"

text \<open>\<^verbatim>\<open>start\<close> returns once the new thread has stored its id.\<close>

definition Thread_start :: "int \<Rightarrow> thread \<Rightarrow> thread" where
  "Thread_start tid t = t\<lparr>t_started := True, t_tid := tid\<rparr>"

definition Thread_join :: "thread \<Rightarrow> thread res" where
  "Thread_join t = rbind (check NullDeref (t_started t)) (\<lambda>_. Inr (t\<lparr>t_joined := True\<rparr>))"

text \<open>Whether the destructor detaches the thread.\<close>

definition Thread_dtor :: "thread \<Rightarrow> bool" where
  "Thread_dtor t \<longleftrightarrow> t_started t \<and> \<not> t_joined t"

section \<open>Starting a loop's thread\<close>

text \<open>
  Program counters: the starter is before \<^verbatim>\<open>Thread::start\<close>, waits for the semaphore, is about to take the
  mutex, sleeps on the condition variable, has been woken, or has returned a pointer; the new
  thread does not exist yet, has started, has posted the semaphore, has constructed its loop, has
  run the init callback, is in \<^verbatim>\<open>loop()\<close>, or has ended. \<open>inits\<close> logs the init callback, \<open>alive\<close> tells
  whether the thread's loop object exists.
\<close>

datatype spc = SBegin | SSem | SLock | SSleep | SDone addr
datatype tpc = TNone | TBegin | TPosted | TMade | TInited | TLooping | TEnded

record handshake =
  starter :: spc
  worker :: tpc
  m_loop :: addr
  m_tid :: int
  inits :: "addr list"
  alive :: bool

definition hs_init :: handshake where
  "hs_init = \<lparr>starter = SBegin, worker = TNone, m_loop = 0, m_tid = 0, inits = [], alive = False\<rparr>"

text \<open>\<open>loop\<close> is the address of the new thread's loop, \<open>tid\<close> its thread id, \<open>cb\<close> whether there is an init
  callback. Waking may be spurious; \<^verbatim>\<open>notify_one\<close> wakes a sleeping starter.\<close>

inductive hs_step :: "addr \<Rightarrow> int \<Rightarrow> bool \<Rightarrow> handshake \<Rightarrow> handshake \<Rightarrow> bool" for loop tid cb where
  s_start: "starter s = SBegin \<Longrightarrow> hs_step loop tid cb s (s\<lparr>starter := SSem, worker := TBegin\<rparr>)"
| w_post: "worker s = TBegin \<Longrightarrow> hs_step loop tid cb s (s\<lparr>worker := TPosted, m_tid := tid\<rparr>)"
| s_sem: "starter s = SSem \<Longrightarrow> worker s \<noteq> TBegin \<Longrightarrow> hs_step loop tid cb s (s\<lparr>starter := SLock\<rparr>)"
| w_make: "worker s = TPosted \<Longrightarrow> hs_step loop tid cb s (s\<lparr>worker := TMade, alive := True\<rparr>)"
| w_init: "worker s = TMade \<Longrightarrow>
    hs_step loop tid cb s (s\<lparr>worker := TInited, inits := inits s @ (if cb then [loop] else [])\<rparr>)"
| w_publish: "worker s = TInited \<Longrightarrow>
    hs_step loop tid cb s (s\<lparr>worker := TLooping, m_loop := loop, starter := (if starter s = SSleep then SLock else starter s)\<rparr>)"
| w_end: "worker s = TLooping \<Longrightarrow> hs_step loop tid cb s (s\<lparr>worker := TEnded, m_loop := 0, alive := False\<rparr>)"
| s_check: "starter s = SLock \<Longrightarrow>
    hs_step loop tid cb s (s\<lparr>starter := (if m_loop s = 0 then SSleep else SDone (m_loop s))\<rparr>)"
| s_spurious: "starter s = SSleep \<Longrightarrow> hs_step loop tid cb s (s\<lparr>starter := SLock\<rparr>)"

definition hs_inv :: "addr \<Rightarrow> int \<Rightarrow> bool \<Rightarrow> handshake \<Rightarrow> bool" where
  "hs_inv loop tid cb s \<longleftrightarrow>
     (m_loop s = (if worker s = TLooping then loop else 0)) \<and>
     (alive s \<longleftrightarrow> worker s \<in> {TMade, TInited, TLooping}) \<and>
     (worker s = TNone \<longleftrightarrow> starter s = SBegin) \<and>
     (worker s \<notin> {TNone, TBegin} \<longrightarrow> m_tid s = tid) \<and>
     (starter s \<in> {SLock, SSleep} \<or> (\<exists>l. starter s = SDone l) \<longrightarrow> worker s \<noteq> TBegin) \<and>
     (starter s = SSleep \<longrightarrow> worker s \<noteq> TLooping) \<and>
     inits s = (if cb \<and> worker s \<in> {TInited, TLooping, TEnded} then [loop] else []) \<and>
     (\<forall>l. starter s = SDone l \<longrightarrow> l = loop \<and> worker s \<in> {TLooping, TEnded})"

lemma hs_inv_step:
  assumes "hs_step loop tid cb s s'" and "loop \<noteq> 0" and "hs_inv loop tid cb s"
  shows "hs_inv loop tid cb s'"
  using assms by (induction rule: hs_step.induct) (auto simp: hs_inv_def)

lemma hs_inv_reach: "(hs_step loop tid cb)\<^sup>*\<^sup>* s s' \<Longrightarrow> loop \<noteq> 0 \<Longrightarrow> hs_inv loop tid cb s \<Longrightarrow> hs_inv loop tid cb s'"
  by (induction rule: rtranclp_induct) (auto intro: hs_inv_step)

lemma hs_inv_init: "hs_inv loop tid cb hs_init"
  by (simp add: hs_inv_def hs_init_def)

section \<open>The pool\<close>

record pool =
  m_baseLoop :: addr
  p_name :: string
  m_started :: bool
  m_numThread :: int
  m_next :: int
  m_eventLoopThreads :: "string list"
  m_eventloops :: "addr list"
  baseInits :: "addr list"

definition EventLoopThreadPool_new :: "addr \<Rightarrow> string \<Rightarrow> pool" where
  "EventLoopThreadPool_new baseLoop name =
     \<lparr>m_baseLoop = baseLoop, p_name = name, m_started = False, m_numThread = 0, m_next = 0,
      m_eventLoopThreads = [], m_eventloops = [], baseInits = []\<rparr>"

definition EventLoopThreadPool_setThreadNum :: "int \<Rightarrow> pool \<Rightarrow> pool" where
  "EventLoopThreadPool_setThreadNum num p = p\<lparr>m_numThread := num\<rparr>"

text \<open>\<open>startLoop i\<close> is the loop that the \<open>i\<close>-th thread's \<^verbatim>\<open>startLoop\<close> returns.\<close>

fun pool_start_from :: "(nat \<Rightarrow> addr) \<Rightarrow> nat \<Rightarrow> nat \<Rightarrow> pool \<Rightarrow> pool" where
  "pool_start_from startLoop i 0 p = p"
| "pool_start_from startLoop i (Suc n) p =
     (let buf = snprintf (length (p_name p) + 32) (p_name p @ dec_int (int i)) in
      pool_start_from startLoop (Suc i) n
        (p\<lparr>m_eventLoopThreads := m_eventLoopThreads p @ [buf], m_eventloops := m_eventloops p @ [startLoop i]\<rparr>))"

definition EventLoopThreadPool_start :: "(nat \<Rightarrow> addr) \<Rightarrow> bool \<Rightarrow> pool \<Rightarrow> pool" where
  "EventLoopThreadPool_start startLoop cb p =
     (let p = pool_start_from startLoop 0 (nat (m_numThread p)) (p\<lparr>m_started := True\<rparr>) in
      if m_numThread p = 0 \<and> cb then p\<lparr>baseInits := baseInits p @ [m_baseLoop p]\<rparr> else p)"

definition EventLoopThreadPool_getNextLoop :: "pool \<Rightarrow> (addr \<times> pool) res" where
  "EventLoopThreadPool_getNextLoop p =
     (if m_eventloops p = [] then Inr (m_baseLoop p, p)
      else
        rbind (check OutOfBounds (0 \<le> m_next p \<and> nat (m_next p) < length (m_eventloops p))) (\<lambda>_.
        let loop = m_eventloops p ! nat (m_next p) in
        rbind (to_int32 (m_next p + 1)) (\<lambda>next.
        Inr (loop, p\<lparr>m_next := (if length (m_eventloops p) \<le> nat next then 0 else next)\<rparr>))))"

definition EventLoopThreadPool_getAllLoops :: "pool \<Rightarrow> addr list" where
  "EventLoopThreadPool_getAllLoops p = (if m_eventloops p = [] then [m_baseLoop p] else m_eventloops p)"

section \<open>Properties\<close>

fun next_loops :: "nat \<Rightarrow> pool \<Rightarrow> (addr list \<times> pool) res" where
  "next_loops 0 p = Inr ([], p)"
| "next_loops (Suc k) p =
     rbind (next_loops k p) (\<lambda>(ls, p).
     rbind (EventLoopThreadPool_getNextLoop p) (\<lambda>(l, p).
     Inr (ls @ [l], p)))"

lemma pool_start_from_loops:
  "m_eventloops (pool_start_from startLoop i n p) = m_eventloops p @ map startLoop [i ..< i + n] \<and>
   m_next (pool_start_from startLoop i n p) = m_next p \<and> m_numThread (pool_start_from startLoop i n p) = m_numThread p \<and>
   length (m_eventLoopThreads (pool_start_from startLoop i n p)) = length (m_eventLoopThreads p) + n"
proof (induction n arbitrary: i p)
  case (Suc n)
  have "[i ..< i + Suc n] = i # [Suc i ..< Suc i + n]" by (simp add: upt_rec)
  then show ?case using Suc [of "Suc i"] by (simp add: Let_def)
qed simp

lemma next_loops_robin:
  assumes "m_eventloops p = ls" and "ls \<noteq> []" and "length ls < 2 ^ 31" and "m_next p = 0"
  shows "next_loops k p = Inr (map (\<lambda>i. ls ! (i mod length ls)) [0 ..< k], p\<lparr>m_next := int (k mod length ls)\<rparr>)"
proof (induction k)
  case 0
  then show ?case using assms by simp
next
  case (Suc k)
  have m: "k mod length ls < length ls" using assms by simp
  moreover have "k mod length ls < 2 ^ 31 - 1" using m assms(3) by linarith
  ultimately have "to_int32 (int (k mod length ls) + 1) = Inr (int (k mod length ls) + 1)"
    by (simp add: to_int32_def int32_ok_def)
  moreover have "Suc k mod length ls = (if length ls \<le> Suc (k mod length ls) then 0 else Suc (k mod length ls))"
    using m by (auto simp: mod_Suc)
  ultimately show ?case using Suc assms m
    by (auto simp: EventLoopThreadPool_getNextLoop_def nat_add_distrib)
qed

text \<open>A started pool hands out its loops in strict rotation: the \<open>k\<close>-th call returns the loop of thread
  \<open>k\<close> modulo the number of threads, so that connections are spread evenly; a pool without threads
  always returns the base loop.\<close>

lemma EventLoopThreadPool_round_robin:
  assumes "0 \<le> n" and "n < 2 ^ 31"
  shows "\<exists>p'. next_loops k (EventLoopThreadPool_start startLoop cb
      (EventLoopThreadPool_setThreadNum n (EventLoopThreadPool_new base name))) = Inr (
        if n = 0 then replicate k base else map (\<lambda>i. startLoop (i mod nat n)) [0 ..< k], p')"
proof (cases "n = 0")
  case True
  let ?p = "EventLoopThreadPool_start startLoop cb (EventLoopThreadPool_setThreadNum n (EventLoopThreadPool_new base name))"
  have p: "m_eventloops ?p = [] \<and> m_baseLoop ?p = base"
    using True by (simp add: EventLoopThreadPool_start_def EventLoopThreadPool_setThreadNum_def EventLoopThreadPool_new_def Let_def)
  have "next_loops k ?p = Inr (replicate k base, ?p)"
    by (induction k) (simp_all add: EventLoopThreadPool_getNextLoop_def p replicate_append_same)
  then show ?thesis using True by auto
next
  case False
  let ?p = "EventLoopThreadPool_start startLoop cb (EventLoopThreadPool_setThreadNum n (EventLoopThreadPool_new base name))"
  have p: "m_eventloops ?p = map startLoop [0 ..< nat n]" "m_next ?p = 0"
    using False pool_start_from_loops [of startLoop 0 "nat n"]
    by (simp_all add: EventLoopThreadPool_start_def EventLoopThreadPool_setThreadNum_def EventLoopThreadPool_new_def Let_def)
  have "map (\<lambda>i. map startLoop [0 ..< nat n] ! (i mod nat n)) [0 ..< k] = map (\<lambda>i. startLoop (i mod nat n)) [0 ..< k]"
    using assms(1) False by simp
  moreover have "nat n < 2 ^ 31" using assms by simp
  ultimately show ?thesis using next_loops_robin [OF p(1) _ _ p(2), of k] assms(1) False by simp
qed

text \<open>C25: However the two threads interleave, \<^verbatim>\<open>startLoop\<close> returns the new thread's loop and nothing else,
  after the init callback (if any) has run on it exactly once and the thread's id is known; and the
  starter sleeps on the condition variable only while the loop is not published: no wake-up is lost
  unless the loop has already ended.\<close>

theorem EventLoopThread_startLoop_handshake:
  assumes "loop \<noteq> 0" and "(hs_step loop tid cb)\<^sup>*\<^sup>* hs_init s"
  shows "(starter s = SDone l \<longrightarrow> l = loop \<and> m_tid s = tid \<and> inits s = (if cb then [loop] else []) \<and>
      (alive s \<or> worker s = TEnded)) \<and>
    (starter s = SSleep \<longrightarrow> m_loop s = 0 \<and> worker s \<noteq> TLooping)"
  using hs_inv_reach [OF assms(2,1) hs_inv_init] by (auto simp: hs_inv_def)

theorem EventLoopThread_startLoop_handshake_witness:
  "\<exists>s. (hs_step 5 9 True)\<^sup>*\<^sup>* hs_init s \<and> starter s = SSleep \<and> m_loop s = 0"
proof -
  let ?s1 = "hs_init\<lparr>starter := SSem, worker := TBegin\<rparr>"
  let ?s2 = "?s1\<lparr>worker := TPosted, m_tid := 9\<rparr>"
  let ?s3 = "?s2\<lparr>starter := SLock\<rparr>"
  let ?s4 = "?s3\<lparr>starter := SSleep\<rparr>"
  have "hs_step 5 9 True hs_init ?s1" using s_start [of hs_init 5 9 True] by (simp add: hs_init_def)
  moreover have "hs_step 5 9 True ?s1 ?s2" using w_post [of ?s1 5 9 True] by (simp add: hs_init_def)
  moreover have "hs_step 5 9 True ?s2 ?s3" using s_sem [of ?s2 5 9 True] by (simp add: hs_init_def)
  moreover have "hs_step 5 9 True ?s3 ?s4" using s_check [of ?s3 5 9 True] by (simp add: hs_init_def)
  ultimately have r: "(hs_step 5 9 True)\<^sup>*\<^sup>* hs_init ?s4"
    by (meson converse_rtranclp_into_rtranclp rtranclp.rtrancl_refl)
  then have "m_loop ?s4 = 0" using EventLoopThread_startLoop_handshake [OF _ r] by simp
  with r show ?thesis by (intro exI [of _ ?s4]) simp
qed

section \<open>Ending a loop's thread\<close>

text \<open>
  The destructor, run after \<^verbatim>\<open>startLoop\<close> has returned: it tests \<^verbatim>\<open>m_loop\<close> without the mutex, reads it again to call
  \<^verbatim>\<open>quit\<close> (\<open>DFault\<close> when it has become null meanwhile), and joins the thread; \<open>DEnd False\<close> is a return
  without joining. \<open>others\<close> tells whether anybody else may ask the loop to quit. The worker leaves the
  loop only after somebody has asked; then it clears \<^verbatim>\<open>m_loop\<close> and its loop is destroyed.
\<close>

datatype dpc = DBegin | DQuit | DJoin | DEnd bool | DFault

record closing = handshake +
  dtor :: dpc
  quitAsked :: bool

inductive dt_step :: "bool \<Rightarrow> closing \<Rightarrow> closing \<Rightarrow> bool" for others where
  d_test: "dtor s = DBegin \<Longrightarrow> dt_step others s (s\<lparr>dtor := (if m_loop s = 0 then DEnd False else DQuit)\<rparr>)"
| d_quit: "dtor s = DQuit \<Longrightarrow>
    dt_step others s (if m_loop s = 0 then s\<lparr>dtor := DFault\<rparr> else s\<lparr>quitAsked := True, dtor := DJoin\<rparr>)"
| d_join: "dtor s = DJoin \<Longrightarrow> worker s = TEnded \<Longrightarrow> dt_step others s (s\<lparr>dtor := DEnd True\<rparr>)"
| d_other: "others \<Longrightarrow> dt_step others s (s\<lparr>quitAsked := True\<rparr>)"
| d_leave: "worker s = TLooping \<Longrightarrow> quitAsked s \<Longrightarrow> dt_step others s (s\<lparr>worker := TEnded, m_loop := 0, alive := False\<rparr>)"

text \<open>The destructor starts when the thread's loop has been returned by \<^verbatim>\<open>startLoop\<close>.\<close>

definition closing_init :: "addr \<Rightarrow> handshake \<Rightarrow> closing" where
  "closing_init loop s = handshake.extend s (closing.fields DBegin False)"

definition dt_inv :: "addr \<Rightarrow> closing \<Rightarrow> bool" where
  "dt_inv loop s \<longleftrightarrow> dtor s \<noteq> DFault \<and> dtor s \<noteq> DEnd False \<and>
     (worker s = TLooping \<and> m_loop s = loop \<and> alive s \<or> worker s = TEnded \<and> m_loop s = 0 \<and> \<not> alive s) \<and>
     (quitAsked s \<longrightarrow> dtor s = DJoin \<or> dtor s = DEnd True) \<and> (worker s = TEnded \<longrightarrow> quitAsked s) \<and>
     (dtor s = DJoin \<longrightarrow> quitAsked s) \<and> (dtor s = DEnd True \<longrightarrow> worker s = TEnded)"

lemma dt_inv_step: "dt_step False s s' \<Longrightarrow> loop \<noteq> 0 \<Longrightarrow> dt_inv loop s \<Longrightarrow> dt_inv loop s'"
  by (induction rule: dt_step.induct) (auto simp: dt_inv_def)

lemma dt_inv_reach: "(dt_step False)\<^sup>*\<^sup>* s s' \<Longrightarrow> loop \<noteq> 0 \<Longrightarrow> dt_inv loop s \<Longrightarrow> dt_inv loop s'"
  by (induction rule: rtranclp_induct) (auto intro: dt_inv_step)

text \<open>Every step brings the destruction nearer to its end, and until then there is a step.\<close>

fun dpc_dist :: "dpc \<Rightarrow> nat" where
  "dpc_dist DBegin = 3"
| "dpc_dist DQuit = 2"
| "dpc_dist DJoin = 1"
| "dpc_dist d = 0"

definition dt_dist :: "closing \<Rightarrow> nat" where
  "dt_dist s = dpc_dist (dtor s) + (if worker s = TLooping then 1 else 0)"

lemma dt_dist_step: "dt_step False s s' \<Longrightarrow> dt_dist s' < dt_dist s"
  by (induction rule: dt_step.induct) (auto simp: dt_dist_def)

lemma dt_dist_reach: "(dt_step False ^^ n) s s' \<Longrightarrow> n + dt_dist s' \<le> dt_dist s"
proof (induction n arbitrary: s')
  case (Suc n)
  then obtain b where "(dt_step False ^^ n) s b" "dt_step False b s'" by auto
  then show ?case using Suc.IH [of b] dt_dist_step [of b s'] by simp
qed simp

lemma dt_progress:
  assumes "dt_inv loop s" and "dtor s \<noteq> DEnd True"
  shows "\<exists>s'. dt_step False s s'"
proof (cases "dtor s")
  case DJoin
  then show ?thesis
  proof (cases "worker s = TEnded")
    case False
    then have "worker s = TLooping" "quitAsked s" using assms DJoin by (auto simp: dt_inv_def)
    then show ?thesis using d_leave by blast
  qed (use d_join in blast)
next
  case (DEnd b)
  then show ?thesis using assms by (cases b) (auto simp: dt_inv_def)
next
  case DFault
  then show ?thesis using assms by (simp add: dt_inv_def)
qed (use d_test d_quit in blast)+

text \<open>A started thread is looping, or its loop has already ended.\<close>

definition looping :: "addr \<Rightarrow> handshake \<Rightarrow> bool" where
  "looping loop s \<longleftrightarrow> worker s = TLooping \<and> m_loop s = loop \<and> alive s"

lemma closing_init_sel [simp]:
  "dtor (closing_init loop s) = DBegin" "\<not> quitAsked (closing_init loop s)" "worker (closing_init loop s) = worker s"
  "m_loop (closing_init loop s) = m_loop s" "alive (closing_init loop s) = alive s"
  by (simp_all add: closing_init_def handshake.defs closing.defs)

lemma closing_init_inv: "looping loop s \<Longrightarrow> dt_inv loop (closing_init loop s)"
  by (simp add: dt_inv_def looping_def)



end
