(* ===== verification/Tcp_Server.thy ===== *)
theory Tcp_Server
  imports Tcp_Connection Loop_Pool
begin

text \<open>
  \<^verbatim>\<open>TcpServer\<close> and \<^verbatim>\<open>Acceptor\<close> of \<^verbatim>\<open>src/mymuduo\<close>. The server keeps one world (a loop and the objects it owns) for each
  loop of its pool; a connection lives in the world of its loop, \<open>home c\<close> (\<^verbatim>\<open>conn->getLoop()\<close>). \<open>enter L\<close>
  and \<open>leave L\<close> move between the server's state and the state of loop \<open>L\<close> with the server around it, so
  that the operations of the loop and of its connections run unchanged inside the server and can call
  back into it. The system calls, the allocator and the application's callbacks are the record \<open>env\<close>.
\<close>

section \<open>State\<close>

record srv =
  sv_connectionCallback :: "nat option"
  sv_messageCallback :: "nat option"
  sv_writeCompleteCallback :: "nat option"
  sv_threadInitCallback :: bool
  sv_ipPort :: string
  sv_name :: string
  m_started_n :: u32
  sv_baseLoop :: addr
  m_acceptSocket :: int
  m_acceptChannel :: addr
  m_listenning :: bool
  m_newConnectionCallback :: "nat option"
  sv_pool :: pool
  m_nextConnId :: int
  m_connections :: "string \<Rightarrow> nat option"
  home :: "nat \<Rightarrow> addr"
  loops :: "addr \<Rightarrow> world"

type_synonym sworld = "srv world_scheme"

text \<open>\<open>e_user\<close> is the application's code behind the callbacks; \<open>e_new\<close> gives the addresses of a new connection
  object and of its channel, \<open>e_alloc\<close> tells whether its buffers can be allocated; \<open>e_timers\<close> is the timer
  queue's read handler.\<close>

record env =
  e_ctl :: ctl
  e_mx :: relock
  e_write :: write_call
  e_readv :: "int \<Rightarrow> nat list \<Rightarrow> int + byte list"
  e_accept :: "int \<Rightarrow> int + (int \<times> sockaddr_in)"
  e_listen :: "int \<Rightarrow> int + unit"
  e_getsockname :: "int \<Rightarrow> int + sockaddr_in"
  e_alloc :: bool
  e_new :: "srv \<Rightarrow> nat \<times> addr"
  e_user :: "srv user"
  e_big :: bool
  e_inet_addr :: "string \<Rightarrow> u32"
  e_timers :: "sworld \<Rightarrow> sworld res"

definition enter :: "addr \<Rightarrow> srv \<Rightarrow> sworld" where
  "enter L s = world.extend (loops s L) s"

definition leave :: "addr \<Rightarrow> sworld \<Rightarrow> srv" where
  "leave L w = (world.more w)\<lparr>loops := (loops (world.more w))(L := world.truncate w)\<rparr>"

definition at_loop :: "addr \<Rightarrow> (sworld \<Rightarrow> sworld res) \<Rightarrow> srv \<Rightarrow> srv res" where
  "at_loop L g s = rbind (g (enter L s)) (\<lambda>w. Inr (leave L w))"

definition in_server :: "addr \<Rightarrow> (srv \<Rightarrow> srv res) \<Rightarrow> sworld \<Rightarrow> sworld res" where
  "in_server L g w = rbind (g (leave L w)) (\<lambda>s. Inr (enter L s))"

text \<open>Copying and dropping a \<^verbatim>\<open>shared_ptr\<close> to a connection.\<close>

definition srv_acquire :: "nat \<Rightarrow> srv \<Rightarrow> srv" where
  "srv_acquire c s = leave (home s c) (acquire c (enter (home s c) s))"

definition srv_release :: "nat \<Rightarrow> srv \<Rightarrow> srv res" where
  "srv_release c s = at_loop (home s c) (release_conn c) s"

definition srv_queue :: "addr \<Rightarrow> int \<Rightarrow> pfunctor \<Rightarrow> srv \<Rightarrow> srv" where
  "srv_queue L tid f s = leave L (EventLoop_queueInLoop tid f (enter L s))"

definition in_thread :: "addr \<Rightarrow> int \<Rightarrow> srv \<Rightarrow> bool" where
  "in_thread L tid s \<longleftrightarrow> EventLoop_isInLoopThread tid (loops s L)"

definition srv_conn :: "srv \<Rightarrow> nat \<Rightarrow> tcpconn res" where
  "srv_conn s c = Conn_at (loops s (home s c)) c"

section \<open>Removing connections\<close>

text \<open>\<^verbatim>\<open>m_connections.erase(name)\<close> drops the reference of the entry.\<close>

definition connections_erase :: "string \<Rightarrow> srv \<Rightarrow> srv res" where
  "connections_erase name s =
     (case m_connections s name of
        None \<Rightarrow> Inr s
      | Some c \<Rightarrow> srv_release c (s\<lparr>m_connections := (m_connections s)(name := None)\<rparr>))"

definition TcpServer_removeConnectionInLoop :: "int \<Rightarrow> nat \<Rightarrow> srv \<Rightarrow> srv res" where
  "TcpServer_removeConnectionInLoop tid c s =
     rbind (srv_conn s c) (\<lambda>tc.
     rbind (connections_erase (tc_name tc) s) (\<lambda>s.
     Inr (srv_queue (home s c) tid (FDestroyed c) (srv_acquire c s))))"

definition TcpServer_removeConnection :: "int \<Rightarrow> nat \<Rightarrow> srv \<Rightarrow> srv res" where
  "TcpServer_removeConnection tid c s =
     (let s = srv_acquire c s in
      if in_thread (sv_baseLoop s) tid s
      then rbind (TcpServer_removeConnectionInLoop tid c s) (srv_release c)
      else Inr (srv_queue (sv_baseLoop s) tid (FRemove c) s))"

section \<open>The acceptor's listening socket\<close>

definition createSockWithNonBlock :: "(int + int) \<Rightarrow> int res" where
  "createSockWithNonBlock socket = (case socket of Inl _ \<Rightarrow> Inl LogFatal | Inr fd \<Rightarrow> Inr fd)"

definition Socket_bindAddress :: "(int \<Rightarrow> sockaddr_in \<Rightarrow> int + unit) \<Rightarrow> int \<Rightarrow> sockaddr_in \<Rightarrow> unit res" where
  "Socket_bindAddress bind fd localaddr = (case bind fd localaddr of Inl _ \<Rightarrow> Inl LogFatal | Inr _ \<Rightarrow> Inr ())"

definition Socket_listen :: "(int \<Rightarrow> int + unit) \<Rightarrow> int \<Rightarrow> unit res" where
  "Socket_listen listen fd = (case listen fd of Inl _ \<Rightarrow> Inl LogFatal | Inr _ \<Rightarrow> Inr ())"

text \<open>The peer's address is set only when a connection was accepted.\<close>

definition Socket_accept :: "(int \<Rightarrow> int + (int \<times> sockaddr_in)) \<Rightarrow> int \<Rightarrow> sockaddr_in \<Rightarrow> int \<times> sockaddr_in" where
  "Socket_accept accept4 fd peeraddr =
     (case accept4 fd of Inl _ \<Rightarrow> (- 1, peeraddr) | Inr (connfd, addr) \<Rightarrow> (connfd, InetAddress_setSockAddr addr peeraddr))"

definition cb_accept :: nat where "cb_accept = 2"

text \<open>The argument \<open>reusePort\<close> is not used.\<close>

definition Acceptor_new ::
    "(int + int) \<Rightarrow> (int \<Rightarrow> sockaddr_in \<Rightarrow> int + unit) \<Rightarrow> sockaddr_in \<Rightarrow> bool \<Rightarrow> addr \<Rightarrow> 'a world_scheme \<Rightarrow>
      (int \<times> 'a world_scheme) res" where
  "Acceptor_new socket bind listenAddr reusePort a w =
     rbind (createSockWithNonBlock socket) (\<lambda>fd.
     let w = Socket_set_reusePort fd True (Socket_set_reuseAddr fd True (Channel_put a (Channel_new fd) w)) in
     rbind (Socket_bindAddress bind fd listenAddr) (\<lambda>_.
     rbind (Channel_at w a) (\<lambda>ch.
     Inr (fd, Channel_put a (Channel_setReadCallBack cb_accept ch) w))))"

definition Acceptor_dtor :: "ctl \<Rightarrow> addr \<Rightarrow> int \<Rightarrow> 'a world_scheme \<Rightarrow> 'a world_scheme res" where
  "Acceptor_dtor ctl a fd w =
     rbind (Channel_disableAll ctl a w) (\<lambda>w.
     rbind (Channel_remove ctl a w) (\<lambda>w.
     Inr (Socket_dtor fd (Channel_delete a w))))"

definition Acceptor_listen :: "env \<Rightarrow> srv \<Rightarrow> srv res" where
  "Acceptor_listen E s =
     (let s = s\<lparr>m_listenning := True\<rparr> in
      rbind (Socket_listen (e_listen E) (m_acceptSocket s)) (\<lambda>_.
      at_loop (sv_baseLoop s) (Channel_enableReading (e_ctl E) (m_acceptChannel s)) s))"

section \<open>Callbacks and functors inside the server\<close>

text \<open>A connection's close callback is bound to \<^verbatim>\<open>TcpServer::removeConnection\<close>, the others to the
  application's.\<close>

definition srv_user :: "env \<Rightarrow> addr \<Rightarrow> srv user" where
  "srv_user E L u w =
     (case u of UClose c \<Rightarrow> in_server L (TcpServer_removeConnection (m_threadId w) c) w | _ \<Rightarrow> e_user E u w)"

definition srv_functor :: "env \<Rightarrow> addr \<Rightarrow> pfunctor \<Rightarrow> sworld \<Rightarrow> sworld res" where
  "srv_functor E L f w =
     (case f of
        FRemove c \<Rightarrow> in_server L (TcpServer_removeConnectionInLoop (m_threadId w) c) w
      | FListen \<Rightarrow> in_server L (Acceptor_listen E) w
      | _ \<Rightarrow> Inr w)"

definition srv_run :: "env \<Rightarrow> addr \<Rightarrow> pfunctor \<Rightarrow> sworld \<Rightarrow> sworld res" where
  "srv_run E L = run_functor (e_ctl E) (e_mx E) (e_write E) (srv_user E L) (srv_functor E L)"

definition srv_drop :: "addr \<Rightarrow> pfunctor \<Rightarrow> sworld \<Rightarrow> sworld res" where
  "srv_drop L = drop_functor (\<lambda>c. in_server L (srv_release c))"

text \<open>\<^verbatim>\<open>loop->runInLoop(f)\<close> called by thread \<open>tid\<close>.\<close>

definition srv_runInLoop :: "env \<Rightarrow> addr \<Rightarrow> int \<Rightarrow> pfunctor \<Rightarrow> srv \<Rightarrow> srv res" where
  "srv_runInLoop E L tid f s =
     (if in_thread L tid s then at_loop L (\<lambda>w. rbind (srv_run E L f w) (srv_drop L f)) s
      else Inr (srv_queue L tid f s))"

section \<open>New connections\<close>

definition conn_name :: "string \<Rightarrow> string \<Rightarrow> int \<Rightarrow> string" where
  "conn_name name ipPort connId = name @ snprintf 64 (''-'' @ ipPort @ ''#'' @ dec_int connId)"

definition connections_put :: "string \<Rightarrow> nat \<Rightarrow> srv \<Rightarrow> srv res" where
  "connections_put name c s =
     (let s' = (srv_acquire c s)\<lparr>m_connections := (m_connections s)(name \<mapsto> c)\<rparr> in
      case m_connections s name of None \<Rightarrow> Inr s' | Some d \<Rightarrow> srv_release d s')"

definition conn_set_callbacks :: "srv \<Rightarrow> nat \<Rightarrow> 'a world_scheme \<Rightarrow> 'a world_scheme res" where
  "conn_set_callbacks s c w =
     rbind (Conn_at w c) (\<lambda>tc.
     let tc = TcpConnection_setConnectionCallback (sv_connectionCallback s) tc;
         tc = TcpConnection_setMessageCallback (sv_messageCallback s) tc;
         tc = TcpConnection_setWriteCompleteCallback (sv_writeCompleteCallback s) tc;
         tc = TcpConnection_setCloseCallback (Some 0) tc in
     Inr (Conn_put c tc w))"

definition TcpServer_newConnection :: "env \<Rightarrow> int \<Rightarrow> int \<Rightarrow> sockaddr_in \<Rightarrow> srv \<Rightarrow> srv res" where
  "TcpServer_newConnection E tid sockfd peerAddr s =
     rbind (EventLoopThreadPool_getNextLoop (sv_pool s)) (\<lambda>(ioLoop, pool).
     let connName = conn_name (sv_name s) (sv_ipPort s) (m_nextConnId s) in
     rbind (to_int32 (m_nextConnId s + 1)) (\<lambda>nextConnId.
     let localAddr = (case e_getsockname E sockfd of Inl _ \<Rightarrow> sockaddr_zero | Inr addr \<Rightarrow> addr);
         (c, a) = e_new E s;
         s = s\<lparr>sv_pool := pool, m_nextConnId := nextConnId, home := (home s)(c := ioLoop)\<rparr> in
     rbind (at_loop ioLoop (TcpConnection_new (e_mx E) (e_alloc E) ioLoop connName sockfd localAddr peerAddr c a) s) (\<lambda>s.
     rbind (connections_put connName c (srv_acquire c s)) (\<lambda>s.
     rbind (at_loop ioLoop (conn_set_callbacks s c) s) (\<lambda>s.
     rbind (srv_runInLoop E ioLoop tid (FEstablished c) (srv_acquire c s)) (\<lambda>s.
     srv_release c s))))))"

definition Acceptor_handleRead :: "env \<Rightarrow> int \<Rightarrow> srv \<Rightarrow> srv res" where
  "Acceptor_handleRead E tid s =
     (let (connfd, peerAddr) = Socket_accept (e_accept E) (m_acceptSocket s)
        (InetAddress_new (e_big E) (e_inet_addr E) ''127.0.0.1'' 6000) in
      if 0 \<le> connfd then
        (case m_newConnectionCallback s of
           Some _ \<Rightarrow> TcpServer_newConnection E tid connfd peerAddr s
         | None \<Rightarrow> at_loop (sv_baseLoop s) (\<lambda>w. Inr (Socket_dtor connfd w)) s)
      else Inr s)"

section \<open>The server\<close>

definition TcpServer_new ::
    "bool \<Rightarrow> (int + int) \<Rightarrow> (int \<Rightarrow> sockaddr_in \<Rightarrow> int + unit) \<Rightarrow> (addr \<Rightarrow> world) \<Rightarrow> addr \<Rightarrow> sockaddr_in \<Rightarrow> string \<Rightarrow> bool \<Rightarrow>
      addr \<Rightarrow> srv res" where
  "TcpServer_new big socket bind ls loop listenAddr name kReusePort a =
     rbind (check LogFatal (loop \<noteq> 0)) (\<lambda>_.
     rbind (Acceptor_new socket bind listenAddr kReusePort a (ls loop)) (\<lambda>(fd, w).
     Inr \<lparr>sv_connectionCallback = None, sv_messageCallback = None, sv_writeCompleteCallback = None,
          sv_threadInitCallback = False, sv_ipPort = InetAddress_toIpPort big listenAddr, sv_name = name,
          m_started_n = 0, sv_baseLoop = loop, m_acceptSocket = fd, m_acceptChannel = a, m_listenning = False,
          m_newConnectionCallback = Some 0, sv_pool = EventLoopThreadPool_new loop name, m_nextConnId = 1,
          m_connections = (\<lambda>_. None), home = (\<lambda>_. 0), loops = ls(loop := w)\<rparr>))"

definition TcpServer_setThreadInitcallback :: "bool \<Rightarrow> srv \<Rightarrow> srv" where
  "TcpServer_setThreadInitcallback cb s = s\<lparr>sv_threadInitCallback := cb\<rparr>"

definition TcpServer_setConnectionCallback :: "nat option \<Rightarrow> srv \<Rightarrow> srv" where
  "TcpServer_setConnectionCallback cb s = s\<lparr>sv_connectionCallback := cb\<rparr>"

definition TcpServer_setMessageCallback :: "nat option \<Rightarrow> srv \<Rightarrow> srv" where
  "TcpServer_setMessageCallback cb s = s\<lparr>sv_messageCallback := cb\<rparr>"

definition TcpServer_setWriteCompleteCallback :: "nat option \<Rightarrow> srv \<Rightarrow> srv" where
  "TcpServer_setWriteCompleteCallback cb s = s\<lparr>sv_writeCompleteCallback := cb\<rparr>"

definition TcpServer_setThreadNum :: "int \<Rightarrow> srv \<Rightarrow> srv" where
  "TcpServer_setThreadNum n s = s\<lparr>sv_pool := EventLoopThreadPool_setThreadNum n (sv_pool s)\<rparr>"

definition TcpServer_start :: "env \<Rightarrow> (nat \<Rightarrow> addr) \<Rightarrow> int \<Rightarrow> srv \<Rightarrow> srv res" where
  "TcpServer_start E startLoop tid s =
     (let first = (m_started_n s = 0); s = s\<lparr>m_started_n := m_started_n s + 1\<rparr> in
      if first then
        srv_runInLoop E (sv_baseLoop s) tid FListen
          (s\<lparr>sv_pool := EventLoopThreadPool_start startLoop (sv_threadInitCallback s) (sv_pool s)\<rparr>)
      else Inr s)"

text \<open>The destructor; \<open>names\<close> is the order in which the map is traversed. The acceptor goes last.\<close>

fun destroy_connections :: "env \<Rightarrow> int \<Rightarrow> string list \<Rightarrow> srv \<Rightarrow> srv res" where
  "destroy_connections E tid [] s = Inr s"
| "destroy_connections E tid (name # names) s =
     (case m_connections s name of
        None \<Rightarrow> destroy_connections E tid names s
      | Some c \<Rightarrow>
          let s = s\<lparr>m_connections := (m_connections s)(name := None)\<rparr> in
          rbind (srv_runInLoop E (home s c) tid (FDestroyed c) (srv_acquire c s)) (\<lambda>s.
          rbind (srv_release c s) (destroy_connections E tid names)))"

definition TcpServer_dtor :: "env \<Rightarrow> int \<Rightarrow> string list \<Rightarrow> srv \<Rightarrow> srv res" where
  "TcpServer_dtor E tid names s =
     rbind (destroy_connections E tid names s) (\<lambda>s.
     at_loop (sv_baseLoop s) (Acceptor_dtor (e_ctl E) (m_acceptChannel s) (m_acceptSocket s)) s)"

section \<open>The loops of the server\<close>

text \<open>What the callbacks of the channels do: the loop's wake-up, its timer queue, the acceptor, and the four
  handlers of each connection.\<close>

definition srv_cbs :: "env \<Rightarrow> addr \<Rightarrow> nat \<Rightarrow> timestamp \<Rightarrow> sworld \<Rightarrow> sworld res" where
  "srv_cbs E L n t w =
     (if n = cb_handRead then Inr (EventLoop_handRead w)
      else if n = cb_timerRead then e_timers E w
      else if n = cb_accept then in_server L (Acceptor_handleRead E (m_threadId w)) w
      else let c = (n - 3) div 4 in
        if n = cb_connRead c then
          TcpConnection_handleRead (e_ctl E) (e_mx E) (e_readv E) (srv_user E L) t c w
        else if n = cb_connWrite c then TcpConnection_handleWrite (e_ctl E) (e_mx E) (e_write E) c w
        else if n = cb_connClose c then TcpConnection_handleClose (e_ctl E) (srv_user E L) c w
        else TcpConnection_handleError c w)"

definition srv_event :: "env \<Rightarrow> addr \<Rightarrow> timestamp \<Rightarrow> addr \<Rightarrow> srv \<Rightarrow> srv res" where
  "srv_event E L t a = at_loop L (Channel_handleEvent (srv_cbs E L) release_conn t a)"

definition srv_pending :: "env \<Rightarrow> addr \<Rightarrow> srv \<Rightarrow> srv res" where
  "srv_pending E L = at_loop L (EventLoop_doPendingFunctors (srv_run E L) (srv_drop L))"

definition srv_round :: "env \<Rightarrow> (int \<Rightarrow> int + (u32 \<times> addr) list) \<Rightarrow> timestamp \<Rightarrow> addr \<Rightarrow> srv \<Rightarrow> srv res" where
  "srv_round E wait now L =
     at_loop L (EventLoop_round wait now (srv_cbs E L) release_conn (srv_run E L) (srv_drop L))"

section \<open>Moving between the server and a loop\<close>

lemma enter_sel [simp]:
  "channels (enter L s) = channels (loops s L)" "m_channel_map (enter L s) = m_channel_map (loops s L)"
  "ctlLog (enter L s) = ctlLog (loops s L)" "refs (enter L s) = refs (loops s L)"
  "m_pendingFunctors (enter L s) = m_pendingFunctors (loops s L)" "m_threadId (enter L s) = m_threadId (loops s L)"
  "conns (enter L s) = conns (loops s L)" "netlog (enter L s) = netlog (loops s L)" "world.more (enter L s) = s"
  by (simp_all add: enter_def world.defs)

lemma truncate_sel [simp]:
  "channels (world.truncate w) = channels w" "m_channel_map (world.truncate w) = m_channel_map w"
  "ctlLog (world.truncate w) = ctlLog w" "refs (world.truncate w) = refs w"
  "m_pendingFunctors (world.truncate w) = m_pendingFunctors w" "m_threadId (world.truncate w) = m_threadId w"
  "conns (world.truncate w) = conns w" "netlog (world.truncate w) = netlog w"
  by (simp_all add: world.defs)

lemma truncate_enter [simp]: "world.truncate (enter L s) = loops s L"
  by (simp add: enter_def world.defs)

lemma leave_enter [simp]: "leave L (enter L s) = s"
  by (simp add: leave_def)

lemma leave_sel [simp]:
  "loops (leave L w) = (loops (world.more w))(L := world.truncate w)" "home (leave L w) = home (world.more w)"
  "sv_baseLoop (leave L w) = sv_baseLoop (world.more w)" "m_connections (leave L w) = m_connections (world.more w)"
  "sv_name (leave L w) = sv_name (world.more w)" "sv_ipPort (leave L w) = sv_ipPort (world.more w)"
  "m_nextConnId (leave L w) = m_nextConnId (world.more w)"
  by (simp_all add: leave_def)

text \<open>Operations that do not look at the server act on the world of their loop.\<close>

lemma truncate_extend [simp]: "world.truncate (world.extend w m) = (w :: world)" "world.more (world.extend w m) = m"
  by (simp_all add: world.defs)

lemma acquire_extend: "acquire c (world.extend w m) = world.extend (acquire c (w :: world)) m"
  by (cases w) (simp add: acquire_def world.defs)

lemma queue_extend: "EventLoop_queueInLoop tid f (world.extend w m) = world.extend (EventLoop_queueInLoop tid f (w :: world)) m"
  by (cases w) (simp add: EventLoop_queueInLoop_def queue_notify_def queue_push_def EventLoop_wakeUp_def
      EventLoop_isInLoopThread_def world.defs)

lemma release_extend: "release_conn c (world.extend w m) = rbind (release_conn c (w :: world)) (\<lambda>w. Inr (world.extend w m))"
  by (cases w) (simp add: release_conn_def TcpConnection_dtor_def Conn_at_def Channel_delete_def Socket_dtor_def
      Let_def world.defs split: option.split)

lemma srv_acquire_eq: "srv_acquire c s = s\<lparr>loops := (loops s)(home s c := acquire c (loops s (home s c)))\<rparr>"
  by (simp add: srv_acquire_def leave_def enter_def acquire_extend)

lemma srv_queue_eq: "srv_queue L tid f s = s\<lparr>loops := (loops s)(L := EventLoop_queueInLoop tid f (loops s L))\<rparr>"
  by (simp add: srv_queue_def leave_def enter_def queue_extend)

lemma srv_release_eq:
  "srv_release c s = rbind (release_conn c (loops s (home s c))) (\<lambda>w. Inr (s\<lparr>loops := (loops s)(home s c := w)\<rparr>))"
  by (simp add: srv_release_def at_loop_def leave_def enter_def release_extend rbind_assoc)

section \<open>A connection in a world\<close>

text \<open>\<open>holds w c tc ch r nl pf\<close>: in \<open>w\<close> connection \<open>c\<close> is \<open>tc\<close> with channel \<open>ch\<close> and \<open>r\<close> references, the poller
  is in order, \<open>nl\<close> is the log and \<open>pf\<close> the queue. The rules follow the operations.\<close>

definition holds ::
    "'a world_scheme \<Rightarrow> nat \<Rightarrow> tcpconn \<Rightarrow> channel \<Rightarrow> nat \<Rightarrow> netev list \<Rightarrow> pfunctor list \<Rightarrow> bool" where
  "holds w c tc ch r nl pf \<longleftrightarrow> ep_inv w \<and> conns w c = Some tc \<and> channels w (m_channel tc) = Some ch \<and>
     refs w c = r \<and> netlog w = nl \<and> m_pendingFunctors w = pf"

lemma holds_same:
  assumes "channels w' = channels w" and "m_channel_map w' = m_channel_map w" and "ctlLog w' = ctlLog w"
    and "conns w' = conns w" and "refs w' = refs w" and "netlog w' = netlog w" and "m_pendingFunctors w' = m_pendingFunctors w"
  shows "holds w' c tc ch r nl pf \<longleftrightarrow> holds w c tc ch r nl pf"
  using assms ep_inv_same [of w' w] by (simp add: holds_def)

lemma holds_enter [simp]: "holds (enter L s) c tc ch r nl pf \<longleftrightarrow> holds (loops s L) c tc ch r nl pf"
  using ep_inv_same [of "enter L s" "loops s L"] by (simp add: holds_def)

lemma holds_truncate [simp]: "holds (world.truncate w) c tc ch r nl pf \<longleftrightarrow> holds w c tc ch r nl pf"
  using ep_inv_same [of "world.truncate w" w] by (simp add: holds_def)

lemma acquire_more [simp]: "world.more (acquire c w) = world.more w" "m_threadId (acquire c w) = m_threadId w"
  "m_pendingFunctors (acquire c w) = m_pendingFunctors w"
  by (simp_all add: acquire_def)

lemma holds_acquire: "holds w c tc ch r nl pf \<Longrightarrow> holds (acquire c w) c tc ch (Suc r) nl pf"
  by (simp add: holds_def) (simp add: acquire_def)

lemma holds_release:
  assumes "holds w c tc ch (Suc r) nl pf" and "0 < r"
  shows "\<exists>w'. release_conn c w = Inr w' \<and> holds w' c tc ch r nl pf \<and> world.more w' = world.more w \<and>
    m_threadId w' = m_threadId w"
proof -
  let ?w = "w\<lparr>refs := (refs w)(c := r)\<rparr>"
  have "release_conn c w = Inr ?w" using assms by (simp add: release_conn_def holds_def)
  moreover have "holds ?w c tc ch r nl pf" using assms ep_inv_same [of ?w w] by (simp add: holds_def)
  ultimately show ?thesis by simp
qed

lemma queue_more [simp]:
  "world.more (EventLoop_queueInLoop tid f w) = world.more w"
  "m_threadId (EventLoop_queueInLoop tid f w) = m_threadId w"
  "m_pendingFunctors (EventLoop_queueInLoop tid f w) = m_pendingFunctors w @ [f]"
  by (simp_all add: EventLoop_queueInLoop_def queue_push_def queue_notify_def EventLoop_wakeUp_def)

lemma holds_queue: "holds w c tc ch r nl pf \<Longrightarrow> holds (EventLoop_queueInLoop tid f w) c tc ch r nl (pf @ [f])"
  using ep_inv_same [of "EventLoop_queueInLoop tid f w" w] by (simp add: holds_def)

lemma holds_log: "holds w c tc ch r nl pf \<Longrightarrow> holds (w\<lparr>netlog := netlog w @ l\<rparr>) c tc ch r (nl @ l) pf"
  by (simp add: holds_def)

lemma holds_put: "holds w c tc ch r nl pf \<Longrightarrow> m_channel tc' = m_channel tc \<Longrightarrow> holds (Conn_put c tc' w) c tc' ch r nl pf"
  by (simp add: holds_def) (simp add: Conn_put_def)

lemma world_of_poller:
  assumes "poller.more w' = poller.more (w :: 'a world_scheme)"
  shows "world.more w' = world.more w"
  using assms by (cases w, cases w', simp)

lemma holds_poller:
  assumes "holds w c tc ch r nl pf" and "ep_inv w'" and "channels w' (m_channel tc) = Some ch'" and "refs w' = refs w"
    and "poller.more w' = poller.more w"
  shows "holds w' c tc ch' r nl pf \<and> world.more w' = world.more w \<and> m_threadId w' = m_threadId w"
  using assms(1-4) world_more [OF assms(5)] world_of_poller [OF assms(5)] by (simp add: holds_def)

lemma holds_set_events:
  assumes "holds w c tc ch r nl pf" and "kernel_accepts ctl"
  shows "\<exists>w'. Channel_set_events ctl f (m_channel tc) w = Inr w' \<and>
    holds w' c tc (ch\<lparr>m_events := f (m_events ch), m_index := next_index ch (f (m_events ch))\<rparr>) r nl pf \<and>
    world.more w' = world.more w \<and> m_threadId w' = m_threadId w"
proof -
  have h: "ep_inv w" "channels w (m_channel tc) = Some ch" using assms(1) by (simp_all add: holds_def)
  obtain w' where "Channel_set_events ctl f (m_channel tc) w = Inr w'" "ep_inv w'" "refs w' = refs w"
    "channels w' (m_channel tc) = Some (ch\<lparr>m_events := f (m_events ch), m_index := next_index ch (f (m_events ch))\<rparr>)"
    "poller.more w' = poller.more w"
    using set_events_ok [OF h assms(2), of f] by auto
  then show ?thesis using holds_poller [OF assms(1)] by auto
qed

lemma holds_remove:
  assumes "holds w c tc ch r nl pf" and "kernel_accepts ctl"
  shows "\<exists>w'. Channel_remove ctl (m_channel tc) w = Inr w' \<and> holds w' c tc (ch\<lparr>m_index := kNew\<rparr>) r nl pf \<and>
    world.more w' = world.more w \<and> m_threadId w' = m_threadId w"
proof -
  have h: "ep_inv w" "channels w (m_channel tc) = Some ch" using assms(1) by (simp_all add: holds_def)
  obtain w' where "Channel_remove ctl (m_channel tc) w = Inr w'" "ep_inv w'" "refs w' = refs w"
    "channels w' (m_channel tc) = Some (ch\<lparr>m_index := kNew\<rparr>)" "poller.more w' = poller.more w"
    using remove_ok [OF h assms(2)] by auto
  then show ?thesis using holds_poller [OF assms(1)] by auto
qed

lemma holds_setState:
  assumes "holds w c tc ch r nl pf"
  shows "\<exists>w'. setState st c w = Inr w' \<and> holds w' c (tc\<lparr>m_state := st\<rparr>) ch r nl pf \<and>
    world.more w' = world.more w \<and> m_threadId w' = m_threadId w"
proof -
  have "setState st c w = Inr (Conn_put c (tc\<lparr>m_state := st\<rparr>) w)"
    using assms by (simp add: setState_def Conn_at_def holds_def)
  then show ?thesis using holds_put [OF assms, of "tc\<lparr>m_state := st\<rparr>"] by (simp add: Conn_put_def)
qed

section \<open>Closing a connection\<close>

text \<open>Application callbacks that do not call back into the library: of its state they touch the strings they
  own only.\<close>

definition user_quiet :: "'a user \<Rightarrow> bool" where
  "user_quiet user \<longleftrightarrow> (\<forall>u w. \<exists>ss. user u w = Inr (w\<lparr>strings := ss\<rparr>))"

definition srv_keeps :: "srv \<Rightarrow> srv \<Rightarrow> bool" where
  "srv_keeps s s' \<longleftrightarrow> home s' = home s \<and> sv_baseLoop s' = sv_baseLoop s \<and> sv_name s' = sv_name s \<and>
     sv_ipPort s' = sv_ipPort s \<and> m_nextConnId s' = m_nextConnId s \<and> (\<forall>M. m_threadId (loops s' M) = m_threadId (loops s M))"

lemma srv_acquire_ok:
  assumes "holds (loops s L) c tc ch r nl pf" and "home s c = L"
  shows "holds (loops (srv_acquire c s) L) c tc ch (Suc r) nl pf" "srv_keeps s (srv_acquire c s)"
    "m_connections (srv_acquire c s) = m_connections s" "\<And>M. M \<noteq> L \<Longrightarrow> loops (srv_acquire c s) M = loops s M"
  using assms holds_acquire by (auto simp: srv_acquire_eq srv_keeps_def)

lemma srv_release_ok:
  assumes "holds (loops s L) c tc ch (Suc r) nl pf" and "home s c = L" and "0 < r"
  shows "\<exists>s'. srv_release c s = Inr s' \<and> holds (loops s' L) c tc ch r nl pf \<and> srv_keeps s s' \<and>
    m_connections s' = m_connections s \<and> (\<forall>M. M \<noteq> L \<longrightarrow> loops s' M = loops s M)"
  using holds_release [OF assms(1,3)] assms(2) by (auto simp: srv_release_eq srv_keeps_def)

lemma srv_keeps_trans: "srv_keeps s s' \<Longrightarrow> srv_keeps s' s'' \<Longrightarrow> srv_keeps s s''"
  by (simp add: srv_keeps_def)

lemma removeInLoop_ok:
  assumes h: "holds (loops s L) c tc ch (Suc r) nl pf" and L: "home s c = L" and r: "0 < r"
    and m: "m_connections s (tc_name tc) = Some c"
  shows "\<exists>s'. TcpServer_removeConnectionInLoop tid c s = Inr s' \<and> holds (loops s' L) c tc ch (Suc r) nl (pf @ [FDestroyed c]) \<and>
    srv_keeps s s' \<and> m_connections s' = (m_connections s)(tc_name tc := None) \<and> (\<forall>M. M \<noteq> L \<longrightarrow> loops s' M = loops s M)"
proof -
  let ?s = "s\<lparr>m_connections := (m_connections s)(tc_name tc := None)\<rparr>"
  have c: "srv_conn s c = Inr tc" using h L by (simp add: srv_conn_def Conn_at_def holds_def)
  obtain s1 where s1: "srv_release c ?s = Inr s1" "holds (loops s1 L) c tc ch r nl pf" "srv_keeps ?s s1"
    "m_connections s1 = m_connections ?s" "\<forall>M. M \<noteq> L \<longrightarrow> loops s1 M = loops ?s M"
    using srv_release_ok [of ?s L c tc ch r nl pf] h L r by auto
  have L1: "home s1 c = L" using s1(3) L by (simp add: srv_keeps_def)
  note a = srv_acquire_ok [OF s1(2) L1]
  let ?s' = "srv_queue L tid (FDestroyed c) (srv_acquire c s1)"
  have "TcpServer_removeConnectionInLoop tid c s = Inr ?s'"
    using c m s1(1) L1 by (simp add: TcpServer_removeConnectionInLoop_def connections_erase_def)
  moreover have "holds (loops ?s' L) c tc ch (Suc r) nl (pf @ [FDestroyed c])"
    using holds_queue [OF a(1)] by (simp add: srv_queue_eq)
  moreover have "srv_keeps s ?s'" using s1(3) a(2) by (auto simp: srv_queue_eq srv_keeps_def)
  moreover have "m_connections ?s' = (m_connections s)(tc_name tc := None)" using s1(4) a(3) by (simp add: srv_queue_eq)
  moreover have "\<forall>M. M \<noteq> L \<longrightarrow> loops ?s' M = loops s M" using s1(5) a(4) by (simp add: srv_queue_eq)
  ultimately show ?thesis by blast
qed

text \<open>What a close leaves behind: in a server that runs everything in one loop the entry is gone and the
  destruction is queued; otherwise the base loop has been asked to do that.\<close>

definition closed_by :: "srv \<Rightarrow> srv \<Rightarrow> int \<Rightarrow> addr \<Rightarrow> nat \<Rightarrow> tcpconn \<Rightarrow> channel \<Rightarrow> nat \<Rightarrow> netev list \<Rightarrow> pfunctor list \<Rightarrow> bool" where
  "closed_by s s' tid L c tc ch r nl pf \<longleftrightarrow> srv_keeps s s' \<and>
     (if sv_baseLoop s = L then
        holds (loops s' L) c tc ch r nl (pf @ [FDestroyed c]) \<and> m_connections s' = (m_connections s)(tc_name tc := None) \<and>
        (\<forall>M. M \<noteq> L \<longrightarrow> loops s' M = loops s M)
      else
        holds (loops s' L) c tc ch (Suc r) nl pf \<and> m_connections s' = m_connections s \<and>
        (\<forall>M. M \<noteq> L \<longrightarrow> loops s' M =
          (if M = sv_baseLoop s then EventLoop_queueInLoop tid (FRemove c) (loops s M) else loops s M)))"

lemma removeConnection_ok:
  assumes h: "holds (loops s L) c tc ch r nl pf" and L: "home s c = L" and r: "0 < r"
    and m: "m_connections s (tc_name tc) = Some c" and t: "m_threadId (loops s L) = tid"
    and b: "sv_baseLoop s \<noteq> L \<Longrightarrow> m_threadId (loops s (sv_baseLoop s)) \<noteq> tid"
  shows "\<exists>s'. TcpServer_removeConnection tid c s = Inr s' \<and> closed_by s s' tid L c tc ch r nl pf"
proof -
  note a = srv_acquire_ok [OF h L]
  let ?s = "srv_acquire c s"
  have k: "home ?s c = L" "sv_baseLoop ?s = sv_baseLoop s" "\<And>M. m_threadId (loops ?s M) = m_threadId (loops s M)"
    using a(2) L by (simp_all add: srv_keeps_def)
  show ?thesis
  proof (cases "sv_baseLoop s = L")
    case True
    obtain s1 where s1: "TcpServer_removeConnectionInLoop tid c ?s = Inr s1"
      "holds (loops s1 L) c tc ch (Suc r) nl (pf @ [FDestroyed c])" "srv_keeps ?s s1"
      "m_connections s1 = (m_connections ?s)(tc_name tc := None)" "\<forall>M. M \<noteq> L \<longrightarrow> loops s1 M = loops ?s M"
      using removeInLoop_ok [OF a(1) k(1) r, of tid] m a(3) by auto
    obtain s2 where s2: "srv_release c s1 = Inr s2" "holds (loops s2 L) c tc ch r nl (pf @ [FDestroyed c])" "srv_keeps s1 s2"
      "m_connections s2 = m_connections s1" "\<forall>M. M \<noteq> L \<longrightarrow> loops s2 M = loops s1 M"
      using srv_release_ok [OF s1(2) _ r] s1(3) k(1) by (auto simp: srv_keeps_def)
    have "TcpServer_removeConnection tid c s = Inr s2"
      using True k t s1(1) s2(1) by (simp add: TcpServer_removeConnection_def in_thread_def EventLoop_isInLoopThread_def)
    moreover have "srv_keeps s s2" using srv_keeps_trans a(2) s1(3) s2(3) by blast
    ultimately show ?thesis using True s1(4,5) s2(2,4,5) a(3,4) by (auto simp: closed_by_def)
  next
    case False
    then have "TcpServer_removeConnection tid c s = Inr (srv_queue (sv_baseLoop s) tid (FRemove c) ?s)"
      using b k by (simp add: TcpServer_removeConnection_def in_thread_def EventLoop_isInLoopThread_def)
    then show ?thesis using False a by (auto simp: closed_by_def srv_queue_eq srv_keeps_def)
  qed
qed

lemma invoke_user:
  assumes "holds w c tc ch r nl pf" and "user_quiet (e_user E)" and "\<And>d. u \<noteq> UClose d"
  shows "\<exists>w'. invoke (srv_user E L) (Some f) u w = Inr w' \<and> holds w' c tc ch r (nl @ [NetCall u]) pf \<and>
    world.more w' = world.more w \<and> m_threadId w' = m_threadId w"
proof -
  let ?w = "w\<lparr>netlog := netlog w @ [NetCall u]\<rparr>"
  obtain ss where "e_user E u ?w = Inr (?w\<lparr>strings := ss\<rparr>)" using assms(2) unfolding user_quiet_def by blast
  then have "invoke (srv_user E L) (Some f) u w = Inr (?w\<lparr>strings := ss\<rparr>)"
    using assms(3) by (cases u) (auto simp: invoke_def srv_user_def)
  moreover have "holds (?w\<lparr>strings := ss\<rparr>) c tc ch r (nl @ [NetCall u]) pf"
    using holds_log [OF assms(1), of "[NetCall u]"] holds_same [of "?w\<lparr>strings := ss\<rparr>" ?w] by simp
  ultimately show ?thesis by simp
qed

text \<open>A close seen by the loop \<open>L\<close>: \<open>w\<close> before and \<open>w'\<close> after, inside the loop.\<close>

abbreviation closed_in ::
    "sworld \<Rightarrow> sworld \<Rightarrow> addr \<Rightarrow> nat \<Rightarrow> tcpconn \<Rightarrow> channel \<Rightarrow> nat \<Rightarrow> netev list \<Rightarrow> pfunctor list \<Rightarrow> bool" where
  "closed_in w w' L c tc ch r nl pf \<equiv> closed_by (leave L w) (leave L w') (m_threadId w) L c tc ch r nl pf"

lemma closed_in_more:
  assumes "world.more v = world.more w" and "m_threadId v = m_threadId w"
  shows "closed_in v w' L c tc ch r nl pf \<longleftrightarrow> closed_in w w' L c tc ch r nl pf"
  using assms by (simp add: closed_by_def srv_keeps_def)

lemma closeCallback_ok:
  assumes h: "holds w c tc ch r nl pf" and r: "0 < r" and L: "home (world.more w) c = L"
    and m: "m_connections (world.more w) (tc_name tc) = Some c"
    and b: "sv_baseLoop (world.more w) \<noteq> L \<Longrightarrow> m_threadId (loops (world.more w) (sv_baseLoop (world.more w))) \<noteq> m_threadId w"
  shows "\<exists>w'. invoke (srv_user E L) (Some g) (UClose c) w = Inr w' \<and>
    closed_in w w' L c tc ch r (nl @ [NetCall (UClose c)]) pf"
proof -
  let ?w = "w\<lparr>netlog := netlog w @ [NetCall (UClose c)]\<rparr>"
  have "holds (loops (leave L ?w) L) c tc ch r (nl @ [NetCall (UClose c)]) pf" using holds_log [OF h] by simp
  then obtain s' where "TcpServer_removeConnection (m_threadId w) c (leave L ?w) = Inr s'"
    "closed_by (leave L ?w) s' (m_threadId w) L c tc ch r (nl @ [NetCall (UClose c)]) pf"
    using removeConnection_ok [of "leave L ?w" L c tc ch r _ pf "m_threadId w"] r L m b by auto
  then show ?thesis using closed_in_more [where v = ?w and w = w and w' = "enter L s'" and L = L]
    by (intro exI [of _ "enter L s'"]) (simp add: invoke_def srv_user_def in_server_def)
qed

lemma closed_in_holds:
  "closed_in w w' L c tc ch r nl pf \<Longrightarrow>
    holds w' c tc ch (if sv_baseLoop (world.more w) = L then r else Suc r) nl
      (if sv_baseLoop (world.more w) = L then pf @ [FDestroyed c] else pf)"
  by (simp add: closed_by_def split: if_splits)

lemma closed_in_release:
  assumes c: "closed_in w w1 L c tc ch (Suc r) nl pf" and r: "0 < r"
  shows "\<exists>w'. release_conn c w1 = Inr w' \<and> closed_in w w' L c tc ch r nl pf"
proof -
  obtain w' where "release_conn c w1 = Inr w'" "world.more w' = world.more w1" "m_threadId w' = m_threadId w1"
    "holds w' c tc ch (if sv_baseLoop (world.more w) = L then r else Suc r) nl
       (if sv_baseLoop (world.more w) = L then pf @ [FDestroyed c] else pf)"
    using holds_release [of w1 c tc ch "if sv_baseLoop (world.more w) = L then r else Suc r"] closed_in_holds [OF c] r
    by (auto split: if_splits)
  then show ?thesis using c by (auto simp: closed_by_def srv_keeps_def split: if_splits)
qed

lemma handleClose_ok:
  assumes h: "holds w c tc ch r nl pf" and k: "kernel_accepts (e_ctl E)" and q: "user_quiet (e_user E)"
    and cb: "m_connectionCallback tc = Some f" "m_closeCallback tc = Some g"
    and r: "0 < r" and L: "home (world.more w) c = L" and m: "m_connections (world.more w) (tc_name tc) = Some c"
    and b: "sv_baseLoop (world.more w) \<noteq> L \<Longrightarrow> m_threadId (loops (world.more w) (sv_baseLoop (world.more w))) \<noteq> m_threadId w"
  shows "\<exists>w'. TcpConnection_handleClose (e_ctl E) (srv_user E L) c w = Inr w' \<and>
    closed_in w w' L c (tc\<lparr>m_state := kDisconnected\<rparr>) (ch\<lparr>m_events := 0, m_index := next_index ch 0\<rparr>) r
      (nl @ [NetCall (UConnection c False), NetCall (UClose c)]) pf"
proof -
  let ?tc = "tc\<lparr>m_state := kDisconnected\<rparr>" and ?ch = "ch\<lparr>m_events := 0, m_index := next_index ch 0\<rparr>"
  obtain w1 where w1: "setState kDisconnected c w = Inr w1" "holds w1 c ?tc ch r nl pf"
    "world.more w1 = world.more w" "m_threadId w1 = m_threadId w" using holds_setState [OF h] by blast
  obtain w2 where w2: "Channel_disableAll (e_ctl E) (m_channel tc) w1 = Inr w2" "holds w2 c ?tc ?ch r nl pf"
    "world.more w2 = world.more w" "m_threadId w2 = m_threadId w"
    using holds_set_events [OF w1(2) k, of "\<lambda>_. kNoneEvent"] w1(3,4) by (auto simp: Channel_disableAll_def kNoneEvent_def)
  obtain w3 where w3: "invoke (srv_user E L) (Some f) (UConnection c False) (acquire c w2) = Inr w3"
    "holds w3 c ?tc ?ch (Suc r) (nl @ [NetCall (UConnection c False)]) pf"
    "world.more w3 = world.more w" "m_threadId w3 = m_threadId w"
    using invoke_user [OF holds_acquire [OF w2(2)] q, of "UConnection c False" L f] w2(3,4) by auto
  obtain w4 where w4: "invoke (srv_user E L) (Some g) (UClose c) w3 = Inr w4"
    "closed_in w3 w4 L c ?tc ?ch (Suc r) (nl @ [NetCall (UConnection c False), NetCall (UClose c)]) pf"
    using closeCallback_ok [OF w3(2), of L E g] L m b w3(3,4) by auto
  obtain w5 where w5: "release_conn c w4 = Inr w5"
    "closed_in w3 w5 L c ?tc ?ch r (nl @ [NetCall (UConnection c False), NetCall (UClose c)]) pf"
    using closed_in_release [OF w4(2) r] by blast
  have "Conn_at w1 c = Inr ?tc" "Conn_at w3 c = Inr ?tc" using w1(2) w3(2) by (simp_all add: Conn_at_def holds_def)
  then have "TcpConnection_handleClose (e_ctl E) (srv_user E L) c w = Inr w5"
    using w1(1) w2(1) w3(1) w4(1) w5(1) cb by (simp add: TcpConnection_handleClose_def)
  then show ?thesis using w5(2) closed_in_more [OF w3(3,4)] by auto
qed

lemma srv_cbs_conn:
  "srv_cbs E L (cb_connClose c) t w = TcpConnection_handleClose (e_ctl E) (srv_user E L) c w"
  "srv_cbs E L (cb_connRead c) t w = TcpConnection_handleRead (e_ctl E) (e_mx E) (e_readv E) (srv_user E L) t c w"
  "srv_cbs E L (cb_connError c) t w = TcpConnection_handleError c w"
proof -
  have "(4 * c + 5 - 3) div 4 = c" "(4 * c + 6 - 3) div 4 = c" by linarith+
  then show "srv_cbs E L (cb_connClose c) t w = TcpConnection_handleClose (e_ctl E) (srv_user E L) c w"
    "srv_cbs E L (cb_connRead c) t w = TcpConnection_handleRead (e_ctl E) (e_mx E) (e_readv E) (srv_user E L) t c w"
    "srv_cbs E L (cb_connError c) t w = TcpConnection_handleError c w"
    by (simp_all add: srv_cbs_def cb_connClose_def cb_connRead_def cb_connWrite_def cb_connError_def cb_handRead_def
        cb_timerRead_def cb_accept_def Let_def)
qed

text \<open>An event that ends a connection: the peer has closed and a read finds the end of the stream, or it
  has hung up and there is nothing to read. Errors may be reported along with it.\<close>

definition peer_gone :: "env \<Rightarrow> tcpconn \<Rightarrow> channel \<Rightarrow> bool" where
  "peer_gone E tc ch \<longleftrightarrow> m_revents ch AND EPOLLOUT = 0 \<and>
     (if m_revents ch AND EPOLLIN \<noteq> 0
      then Kfifo_ready (m_inputBuffer tc) \<and> e_readv E (m_fd ch) (Kfifo_iov (m_inputBuffer tc)) = Inr []
      else m_revents ch AND EPOLLHUP \<noteq> 0 \<and> m_revents ch AND EPOLLPRI = 0)"

lemma handleRead_eof:
  assumes "conns w c = Some tc" and "channels w (m_channel tc) = Some ch" and k: "Kfifo_ready (m_inputBuffer tc)"
    and r: "readv (m_fd ch) (Kfifo_iov (m_inputBuffer tc)) = Inr []"
  shows "TcpConnection_handleRead ctl mx readv user t c w = TcpConnection_handleClose ctl user c w"
proof -
  obtain bs where b: "Kfifo_inv (m_inputBuffer tc)" "buffer (m_inputBuffer tc) = Some bs"
    using k by (auto simp: Kfifo_ready_def)
  have "ring_put bs i [] = bs" for i by (simp add: ring_put_def)
  then have "Kfifo_readFd mx readv (m_inputBuffer tc) (m_fd ch) = Inr (0, None, m_inputBuffer tc)"
    using Kfifo_readFd_small [where readv = readv and fd = "m_fd ch" and bytes = "[]" and mx = mx, OF b] r b(2) by simp
  then show ?thesis
    using assms(1,2) by (simp add: TcpConnection_handleRead_def Conn_at_def Channel_at_def Conn_put_same)
qed

text \<open>The dispatch of such an event comes down to one call of \<^verbatim>\<open>handleClose\<close>.\<close>

lemma guard_close:
  assumes c: "conns w c = Some tc" and a: "channels w (m_channel tc) = Some ch" and g: "peer_gone E tc ch"
    and cb: "m_readCallBack ch = Some (cb_connRead c)" "m_closeCallBack ch = Some (cb_connClose c)"
      "m_errorCallBack ch = Some (cb_connError c)"
    and h: "TcpConnection_handleClose (e_ctl E) (srv_user E L) c w = Inr w'"
    and w': "conns w' c = Some tc'" "m_channel tc' = m_channel tc"
      "channels w' (m_channel tc) = Some (ch\<lparr>m_events := e, m_index := i\<rparr>)"
  shows "Channel_handleEventWithGuard (srv_cbs E L) t (m_channel tc) w = Inr w'"
proof -
  have err: "TcpConnection_handleError c w = Inr w" "TcpConnection_handleError c w' = Inr w'"
    using c a w' by (simp_all add: TcpConnection_handleError_def Conn_channel_def Conn_at_def Channel_at_def)
  have at: "Channel_at w (m_channel tc) = Inr ch" "Channel_at w' (m_channel tc) = Inr (ch\<lparr>m_events := e, m_index := i\<rparr>)"
    using a w'(3) by (simp_all add: Channel_at_def)
  have split: "m_revents ch AND (EPOLLIN OR EPOLLPRI) = 0 \<longleftrightarrow> m_revents ch AND EPOLLIN = 0 \<and> m_revents ch AND EPOLLPRI = 0"
    by (simp add: bit.conj_disj_distrib or_eq_0_iff)
  show ?thesis
  proof (cases "m_revents ch AND EPOLLIN = 0")
    case True
    then show ?thesis using g at cb h err split
      by (simp add: peer_gone_def Channel_handleEventWithGuard_def Channel_fire_def srv_cbs_conn)
  next
    case False
    then have "TcpConnection_handleRead (e_ctl E) (e_mx E) (e_readv E) (srv_user E L) t c w = Inr w'"
      using handleRead_eof [OF c a] g h by (simp add: peer_gone_def)
    then show ?thesis using False g at cb err split
      by (simp add: peer_gone_def Channel_handleEventWithGuard_def Channel_fire_def srv_cbs_conn)
  qed
qed

text \<open>Such an event on the channel of a connection that nothing but the server's map refers to.\<close>

lemma srv_event_close:
  assumes h: "holds (loops s L) c tc ch 1 nl pf" and k: "kernel_accepts (e_ctl E)" and q: "user_quiet (e_user E)"
    and cb: "m_connectionCallback tc = Some f" "m_closeCallback tc = Some g"
    and ch: "m_tied ch" "m_tie ch = Some c"
    and chcb: "m_readCallBack ch = Some (cb_connRead c)" "m_closeCallBack ch = Some (cb_connClose c)"
      "m_errorCallBack ch = Some (cb_connError c)" and ev: "peer_gone E tc ch"
    and L: "home s c = L" and m: "m_connections s (tc_name tc) = Some c"
    and b: "sv_baseLoop s \<noteq> L \<Longrightarrow> m_threadId (loops s (sv_baseLoop s)) \<noteq> m_threadId (loops s L)"
  shows "\<exists>s'. srv_event E L t (m_channel tc) s = Inr s' \<and>
    closed_by s s' (m_threadId (loops s L)) L c (tc\<lparr>m_state := kDisconnected\<rparr>) (ch\<lparr>m_events := 0, m_index := next_index ch 0\<rparr>) 1
      (nl @ [NetCall (UConnection c False), NetCall (UClose c)]) pf"
proof -
  let ?w = "enter L s" and ?tc = "tc\<lparr>m_state := kDisconnected\<rparr>" and ?ch = "ch\<lparr>m_events := 0, m_index := next_index ch 0\<rparr>"
  let ?nl = "nl @ [NetCall (UConnection c False), NetCall (UClose c)]"
  have w: "holds (acquire c ?w) c tc ch (Suc 1) nl pf" using holds_acquire [of ?w c tc ch 1 nl pf] h by simp
  obtain w1 where w1: "TcpConnection_handleClose (e_ctl E) (srv_user E L) c (acquire c ?w) = Inr w1"
    "closed_in (acquire c ?w) w1 L c ?tc ?ch (Suc 1) ?nl pf"
    using handleClose_ok [OF w k q cb] L m b by auto
  have at: "conns (acquire c ?w) c = Some tc" "channels (acquire c ?w) (m_channel tc) = Some ch"
    "conns w1 c = Some ?tc" "channels w1 (m_channel tc) = Some ?ch" "0 < refs ?w c" "Channel_at ?w (m_channel tc) = Inr ch"
    using w closed_in_holds [OF w1(2)] h by (simp_all add: Channel_at_def holds_def)
  have "Channel_handleEventWithGuard (srv_cbs E L) t (m_channel tc) (acquire c ?w) = Inr w1"
    by (rule guard_close [OF at(1,2) ev chcb w1(1) at(3) _ at(4)]) simp
  moreover obtain w2 where w2: "release_conn c w1 = Inr w2" "closed_in (acquire c ?w) w2 L c ?tc ?ch 1 ?nl pf"
    using closed_in_release [OF w1(2)] by auto
  ultimately have "srv_event E L t (m_channel tc) s = Inr (leave L w2)"
    using at(5,6) ch by (simp add: srv_event_def at_loop_def Channel_handleEvent_def acquire_def)
  moreover have "closed_in ?w w2 L c ?tc ?ch 1 ?nl pf"
    using w2(2) closed_in_more [where v = "acquire c ?w" and w = ?w and L = L] by simp
  ultimately show ?thesis by simp
qed

section \<open>Running the queued functors\<close>

abbreviation swapped :: "'a world_scheme \<Rightarrow> 'a world_scheme" where
  "swapped w \<equiv> w\<lparr>m_callingPendingFunctors := True, m_pendingFunctors := []\<rparr>"

lemma holds_swapped: "holds w c tc ch r nl pf \<Longrightarrow> holds (swapped w) c tc ch r nl []"
  using ep_inv_same [of "swapped w" w] by (simp add: holds_def)

lemma holds_idle: "holds (w\<lparr>m_callingPendingFunctors := x\<rparr>) c tc ch r nl pf \<longleftrightarrow> holds w c tc ch r nl pf"
  by (rule holds_same) simp_all

lemma srv_pending_one:
  assumes "m_pendingFunctors (loops s L) = [f]" and "srv_run E L f (swapped (enter L s)) = Inr w"
    and "srv_drop L f (w\<lparr>m_callingPendingFunctors := False\<rparr>) = Inr w'"
  shows "srv_pending E L s = Inr (leave L w')"
  using assms by (simp add: srv_pending_def at_loop_def EventLoop_doPendingFunctors_def pending_swap_def)

text \<open>The last reference: the connection, its channel and its socket are gone.\<close>

definition gone :: "world \<Rightarrow> nat \<Rightarrow> tcpconn \<Rightarrow> netev list \<Rightarrow> bool" where
  "gone w c tc nl \<longleftrightarrow> ep_inv w \<and> conns w c = None \<and> channels w (m_channel tc) = None \<and> refs w c = 0 \<and>
     m_pendingFunctors w = [] \<and> netlog w = nl @ [NetClose (tc_sockfd tc)]"

lemma release_last:
  assumes h: "holds w c tc ch 1 nl pf" and i: "m_index ch = kNew"
  shows "\<exists>w'. release_conn c w = Inr w' \<and> ep_inv w' \<and> conns w' c = None \<and> channels w' (m_channel tc) = None \<and>
    refs w' c = 0 \<and> m_pendingFunctors w' = pf \<and> netlog w' = nl @ [NetClose (tc_sockfd tc)] \<and>
    world.more w' = world.more w \<and> m_threadId w' = m_threadId w"
proof -
  let ?w = "w\<lparr>refs := (refs w)(c := 0)\<rparr>"
  let ?w' = "Socket_dtor (tc_sockfd tc) (Channel_delete (m_channel tc) (?w\<lparr>conns := (conns w)(c := None)\<rparr>))"
  have "ep_inv ?w'"
    using delete_ok [of w "m_channel tc" ch] h i ep_inv_same [of ?w' "Channel_delete (m_channel tc) w"]
    by (simp add: holds_def Channel_delete_def Socket_dtor_def)
  moreover have "release_conn c w = Inr ?w'"
    using h by (simp add: release_conn_def TcpConnection_dtor_def Conn_at_def holds_def)
  ultimately show ?thesis using h by (simp add: holds_def Channel_delete_def Socket_dtor_def)
qed

lemma srv_pending_destroyed:
  assumes h: "holds (loops s L) c tc ch 1 nl [FDestroyed c]" and k: "kernel_accepts (e_ctl E)"
    and st: "m_state tc \<noteq> kConnected"
  shows "\<exists>s'. srv_pending E L s = Inr s' \<and> gone (loops s' L) c tc nl \<and> srv_keeps s s' \<and> m_connections s' = m_connections s \<and>
    (\<forall>M. M \<noteq> L \<longrightarrow> loops s' M = loops s M)"
proof -
  let ?w = "swapped (enter L s)"
  have w: "holds ?w c tc ch 1 nl []" using h holds_swapped [of "enter L s"] by simp
  obtain w1 where w1: "Channel_remove (e_ctl E) (m_channel tc) ?w = Inr w1" "holds w1 c tc (ch\<lparr>m_index := kNew\<rparr>) 1 nl []"
    "world.more w1 = s" "m_threadId w1 = m_threadId (loops s L)"
    using holds_remove [OF w k] by auto
  have r: "srv_run E L (FDestroyed c) ?w = Inr w1"
    using w w1(1) st by (simp add: srv_run_def TcpConnection_connectDestroyed_def Conn_at_def holds_def)
  let ?w1 = "w1\<lparr>m_callingPendingFunctors := False\<rparr>"
  have "holds ?w1 c tc (ch\<lparr>m_index := kNew\<rparr>) 1 nl []" using w1(2) by (simp add: holds_idle)
  from release_last [OF this] obtain w2 where w2: "release_conn c ?w1 = Inr w2" "ep_inv w2" "conns w2 c = None"
    "channels w2 (m_channel tc) = None" "refs w2 c = 0" "m_pendingFunctors w2 = []"
    "netlog w2 = nl @ [NetClose (tc_sockfd tc)]" "world.more w2 = s" "m_threadId w2 = m_threadId (loops s L)"
    using w1(3,4) by auto
  have "srv_pending E L s = Inr (leave L w2)"
    using srv_pending_one [OF _ r, of w2] h w2(1) by (simp add: holds_def srv_drop_def)
  moreover have "gone (loops (leave L w2) L) c tc nl"
    using w2 ep_inv_same [of "world.truncate w2" w2] by (simp add: gone_def)
  ultimately show ?thesis using w2(8,9) by (auto simp: srv_keeps_def)
qed

text \<open>The base loop runs the removal: the entry goes and the connection's loop is asked to destroy it.\<close>

lemma srv_pending_remove:
  assumes h: "holds (loops s L) c tc ch (Suc 1) nl pf" and B: "B \<noteq> L" and L: "home s c = L"
    and p: "m_pendingFunctors (loops s B) = [FRemove c]" and m: "m_connections s (tc_name tc) = Some c"
  shows "\<exists>s'. srv_pending E B s = Inr s' \<and> holds (loops s' L) c tc ch 1 nl (pf @ [FDestroyed c]) \<and> srv_keeps s s' \<and>
    m_connections s' = (m_connections s)(tc_name tc := None) \<and> m_pendingFunctors (loops s' B) = []"
proof -
  let ?w = "swapped (enter B s)"
  let ?s = "leave B ?w"
  have s: "holds (loops ?s L) c tc ch (Suc 1) nl pf" "home ?s c = L" "m_connections ?s (tc_name tc) = Some c"
    using h L m B by simp_all
  obtain s1 where s1: "TcpServer_removeConnectionInLoop (m_threadId ?w) c ?s = Inr s1"
    "holds (loops s1 L) c tc ch (Suc 1) nl (pf @ [FDestroyed c])" "srv_keeps ?s s1"
    "m_connections s1 = (m_connections ?s)(tc_name tc := None)" "\<forall>M. M \<noteq> L \<longrightarrow> loops s1 M = loops ?s M"
    using removeInLoop_ok [OF s(1,2) _ s(3), of "m_threadId ?w"] by auto
  have r: "srv_run E B (FRemove c) ?w = Inr (enter B s1)"
    using s1(1) by (simp add: srv_run_def srv_functor_def in_server_def)
  let ?s1 = "leave B ((enter B s1)\<lparr>m_callingPendingFunctors := False\<rparr>)"
  have t: "holds (loops ?s1 L) c tc ch (Suc 1) nl (pf @ [FDestroyed c])" "home ?s1 c = L"
    using s1(2,3) B L by (simp_all add: srv_keeps_def)
  obtain s2 where s2: "srv_release c ?s1 = Inr s2" "holds (loops s2 L) c tc ch 1 nl (pf @ [FDestroyed c])" "srv_keeps ?s1 s2"
    "m_connections s2 = m_connections ?s1" "\<forall>M. M \<noteq> L \<longrightarrow> loops s2 M = loops ?s1 M"
    using srv_release_ok [OF t] by auto
  have "srv_pending E B s = Inr (leave B (enter B s2))"
    using srv_pending_one [OF p r] s2(1) by (simp add: srv_drop_def in_server_def)
  moreover have "srv_keeps s s2" using s1(3) s2(3) by (auto simp: srv_keeps_def split: if_splits)
  moreover have "m_pendingFunctors (loops s2 B) = []" using s1(5) s2(5) B by simp
  ultimately show ?thesis using s2 s1(4) by auto
qed

lemma srv_pending_idle:
  assumes "m_pendingFunctors (loops s L) = []"
  shows "\<exists>s'. srv_pending E L s = Inr s' \<and> srv_keeps s s' \<and> m_connections s' = m_connections s \<and>
    (\<forall>c tc nl. gone (loops s L) c tc nl \<longrightarrow> gone (loops s' L) c tc nl)"
proof -
  let ?w = "(enter L s)\<lparr>m_pendingFunctors := [], m_callingPendingFunctors := False\<rparr>"
  have "srv_pending E L s = Inr (leave L ?w)"
    using assms by (simp add: srv_pending_def at_loop_def EventLoop_doPendingFunctors_def pending_swap_def)
  moreover have "gone (loops (leave L ?w) L) c tc nl" if "gone (loops s L) c tc nl" for c tc nl
    using that ep_inv_same [of "world.truncate ?w" "loops s L"] by (simp add: gone_def)
  ultimately show ?thesis by (auto simp: srv_keeps_def)
qed

text \<open>An established connection: known to the server under its name, in the state \<^verbatim>\<open>kConnected\<close>, its channel
  watched for reading and tied to it, and referred to by the server's map only.\<close>

definition established :: "srv \<Rightarrow> nat \<Rightarrow> tcpconn \<Rightarrow> channel \<Rightarrow> bool" where
  "established s c tc ch \<longleftrightarrow>
     (let w = loops s (home s c) in
      ep_inv w \<and> conns w c = Some tc \<and> channels w (m_channel tc) = Some ch \<and> refs w c = 1 \<and>
      m_state tc = kConnected \<and> m_connectionCallback tc \<noteq> None \<and> m_closeCallback tc \<noteq> None \<and>
      m_connections s (tc_name tc) = Some c \<and> m_fd ch = tc_sockfd tc \<and>
      m_index ch = kAdded \<and> Channel_isReading ch \<and> m_tied ch \<and> m_tie ch = Some c \<and>
      m_readCallBack ch = Some (cb_connRead c) \<and> m_writeCallBack ch = Some (cb_connWrite c) \<and>
      m_closeCallBack ch = Some (cb_connClose c) \<and> m_errorCallBack ch = Some (cb_connError c))"

text \<open>Different loops run in different threads.\<close>

definition own_threads :: "srv \<Rightarrow> bool" where
  "own_threads s \<longleftrightarrow> (\<forall>L. L \<noteq> sv_baseLoop s \<longrightarrow> m_threadId (loops s L) \<noteq> m_threadId (loops s (sv_baseLoop s)))"

text \<open>The three steps that end a connection: its loop handles the event, the base loop and then the
  connection's loop run what is queued.\<close>

definition close_sequence :: "env \<Rightarrow> timestamp \<Rightarrow> nat \<Rightarrow> addr \<Rightarrow> srv \<Rightarrow> srv res" where
  "close_sequence E t c a s =
     rbind (srv_event E (home s c) t a s) (\<lambda>s1.
     rbind (srv_pending E (sv_baseLoop s) s1) (\<lambda>s2.
     srv_pending E (home s c) s2))"

lemma close_sequence_ok:
  assumes h: "holds (loops s L) c tc ch 1 nl []" and k: "kernel_accepts (e_ctl E)" and q: "user_quiet (e_user E)"
    and cb: "m_connectionCallback tc = Some f" "m_closeCallback tc = Some g"
    and ch: "m_tied ch" "m_tie ch = Some c"
    and chcb: "m_readCallBack ch = Some (cb_connRead c)" "m_closeCallBack ch = Some (cb_connClose c)"
      "m_errorCallBack ch = Some (cb_connError c)" and ev: "peer_gone E tc ch"
    and L: "home s c = L" and m: "m_connections s (tc_name tc) = Some c" and b: "own_threads s"
    and p: "m_pendingFunctors (loops s (sv_baseLoop s)) = []"
  shows "\<exists>s'. close_sequence E t c (m_channel tc) s = Inr s' \<and> m_connections s' = (m_connections s)(tc_name tc := None) \<and>
    gone (loops s' L) c tc (nl @ [NetCall (UConnection c False), NetCall (UClose c)])"
proof -
  let ?tc = "tc\<lparr>m_state := kDisconnected\<rparr>" and ?ch = "ch\<lparr>m_events := 0, m_index := next_index ch 0\<rparr>"
  let ?nl = "nl @ [NetCall (UConnection c False), NetCall (UClose c)]"
  let ?B = "sv_baseLoop s"
  have g: "gone w c ?tc ?nl \<longleftrightarrow> gone w c tc ?nl" for w by (simp add: gone_def)
  have b': "m_threadId (loops s ?B) \<noteq> m_threadId (loops s L)" if "?B \<noteq> L"
    using b that unfolding own_threads_def by metis
  obtain s1 where s1: "srv_event E L t (m_channel tc) s = Inr s1"
    "closed_by s s1 (m_threadId (loops s L)) L c ?tc ?ch 1 ?nl []"
    using srv_event_close [OF h k q cb ch chcb ev L m b'] by blast
  show ?thesis
  proof (cases "?B = L")
    case True
    then obtain s2 where s2: "srv_pending E L s1 = Inr s2" "gone (loops s2 L) c tc ?nl"
      "m_connections s2 = (m_connections s)(tc_name tc := None)"
      using srv_pending_destroyed [of s1 L c ?tc ?ch ?nl E] k s1(2) g by (auto simp: closed_by_def)
    obtain s3 where "srv_pending E L s2 = Inr s3" "m_connections s3 = m_connections s2" "gone (loops s3 L) c tc ?nl"
      using srv_pending_idle [of s2 L E] s2(2) by (auto simp: gone_def)
    then show ?thesis using True s1(1) s2 L by (simp add: close_sequence_def)
  next
    case False
    then have c1: "holds (loops s1 L) c ?tc ?ch (Suc 1) ?nl []" "m_pendingFunctors (loops s1 ?B) = [FRemove c]"
      "home s1 c = L" "m_connections s1 = m_connections s"
      using s1(2) p L by (auto simp: closed_by_def srv_keeps_def)
    obtain s2 where s2: "srv_pending E ?B s1 = Inr s2" "holds (loops s2 L) c ?tc ?ch 1 ?nl [FDestroyed c]"
      "m_connections s2 = (m_connections s)(tc_name tc := None)"
      using srv_pending_remove [OF c1(1) False c1(3,2), of E] c1(4) m by auto
    obtain s3 where "srv_pending E L s2 = Inr s3" "gone (loops s3 L) c tc ?nl" "m_connections s3 = m_connections s2"
      using srv_pending_destroyed [OF s2(2) k] g by auto
    then show ?thesis using s1(1) s2 L by (simp add: close_sequence_def)
  qed
qed

section \<open>Opening a connection\<close>

lemma length_dec_int: "int32_ok i \<Longrightarrow> length (dec_int i) \<le> 11"
proof -
  assume i: "int32_ok i"
  have "length (dec_nat (nat (abs i))) \<le> 10"
    using i by (intro length_dec_nat) (auto simp: int32_ok_def)
  then show ?thesis by (simp add: dec_int_def abs_if split: if_splits)
qed

lemma conn_name_full:
  assumes "length ip \<le> 22" and "int32_ok i"
  shows "conn_name n ip i = n @ ''-'' @ ip @ ''#'' @ dec_int i"
  using assms length_dec_int [OF assms(2)] by (simp add: conn_name_def snprintf_def)

lemma conn_name_inject:
  assumes "length ip \<le> 22" and "int32_ok i" and "int32_ok j"
  shows "conn_name n ip i = conn_name n ip j \<longleftrightarrow> i = j"
  using assms by (simp add: conn_name_full)

text \<open>The names in the map carry the numbers given out so far.\<close>

definition names_inv :: "srv \<Rightarrow> bool" where
  "names_inv s \<longleftrightarrow> 1 \<le> m_nextConnId s \<and> int32_ok (m_nextConnId s) \<and> length (sv_ipPort s) \<le> 22 \<and>
     (\<forall>n d. m_connections s n = Some d \<longrightarrow>
       (\<exists>i. 1 \<le> i \<and> i < m_nextConnId s \<and> n = conn_name (sv_name s) (sv_ipPort s) i))"

lemma names_inv_fresh:
  assumes "names_inv s"
  shows "m_connections s (conn_name (sv_name s) (sv_ipPort s) (m_nextConnId s)) = None"
proof (rule ccontr)
  assume "m_connections s (conn_name (sv_name s) (sv_ipPort s) (m_nextConnId s)) \<noteq> None"
  then obtain i where "1 \<le> i" "i < m_nextConnId s"
    "conn_name (sv_name s) (sv_ipPort s) (m_nextConnId s) = conn_name (sv_name s) (sv_ipPort s) i"
    using assms unfolding names_inv_def by blast
  moreover from this have "int32_ok i" using assms by (auto simp: names_inv_def int32_ok_def)
  ultimately show False using assms conn_name_inject by (auto simp: names_inv_def)
qed

lemma names_inv_put:
  assumes "names_inv s" and "int32_ok (m_nextConnId s + 1)"
    and "m_nextConnId s' = m_nextConnId s + 1" "sv_name s' = sv_name s" "sv_ipPort s' = sv_ipPort s"
    and "m_connections s' = (m_connections s)(conn_name (sv_name s) (sv_ipPort s) (m_nextConnId s) \<mapsto> c)"
  shows "names_inv s'"
  unfolding names_inv_def
proof (intro conjI allI impI)
  fix n d assume "m_connections s' n = Some d"
  then consider "n = conn_name (sv_name s) (sv_ipPort s) (m_nextConnId s)" | "m_connections s n = Some d"
    using assms(6) by (auto split: if_splits)
  then show "\<exists>i. 1 \<le> i \<and> i < m_nextConnId s' \<and> n = conn_name (sv_name s') (sv_ipPort s') i"
  proof cases
    case 1
    then show ?thesis using assms by (intro exI [of _ "m_nextConnId s"]) (simp add: names_inv_def)
  next
    case 2
    then obtain i where "1 \<le> i" "i < m_nextConnId s" "n = conn_name (sv_name s) (sv_ipPort s) i"
      using assms(1) unfolding names_inv_def by blast
    then show ?thesis using assms by (intro exI [of _ i]) simp
  qed
qed (use assms in \<open>auto simp: names_inv_def\<close>)

lemma holds_channel:
  assumes "holds w c tc ch r nl pf" and "m_fd dh = m_fd ch" "m_index dh = m_index ch" "m_events dh = m_events ch"
  shows "holds (Channel_put (m_channel tc) dh w) c tc dh r nl pf"
  using assms ep_inv_put [of w "m_channel tc" ch dh] by (simp add: holds_def) (simp add: Channel_put_def)

definition opened :: "channel \<Rightarrow> nat \<Rightarrow> channel" where
  "opened ch c = ch\<lparr>m_tie := Some c, m_tied := True, m_events := m_events ch OR kReadEvent,
     m_index := next_index ch (m_events ch OR kReadEvent)\<rparr>"

lemma next_index_tie [simp]: "next_index (ch\<lparr>m_tie := x, m_tied := y\<rparr>) e = next_index ch e"
  by (simp add: next_index_def)

lemma connectEstablished_ok:
  assumes h: "holds w c tc ch r nl pf" and k: "kernel_accepts (e_ctl E)" and q: "user_quiet (e_user E)"
    and cb: "m_connectionCallback tc = Some f"
  shows "\<exists>w'. TcpConnection_connectEstablished (e_ctl E) (srv_user E L) c w = Inr w' \<and>
    holds w' c (tc\<lparr>m_state := kConnected\<rparr>) (opened ch c) r (nl @ [NetCall (UConnection c True)]) pf \<and>
    world.more w' = world.more w \<and> m_threadId w' = m_threadId w"
proof -
  let ?tc = "tc\<lparr>m_state := kConnected\<rparr>" and ?ch = "ch\<lparr>m_tie := Some c, m_tied := True\<rparr>"
  obtain w1 where w1: "setState kConnected c w = Inr w1" "holds w1 c ?tc ch r nl pf"
    "world.more w1 = world.more w" "m_threadId w1 = m_threadId w" using holds_setState [OF h] by blast
  define w2 where "w2 = Channel_put (m_channel tc) ?ch w1"
  have w2: "Channel_tie (m_channel tc) c w1 = Inr w2" "holds w2 c ?tc ?ch r nl pf"
    "world.more w2 = world.more w" "m_threadId w2 = m_threadId w" "Conn_at w1 c = Inr ?tc"
    using w1 holds_channel [OF w1(2), of ?ch]
    by (simp_all add: w2_def Channel_tie_def Channel_at_def Conn_at_def holds_def Channel_put_def)
  obtain w3 where w3: "Channel_enableReading (e_ctl E) (m_channel tc) w2 = Inr w3" "holds w3 c ?tc (opened ch c) r nl pf"
    "world.more w3 = world.more w" "m_threadId w3 = m_threadId w"
    using holds_set_events [OF w2(2) k, of "\<lambda>e. e OR kReadEvent"] w2(3,4)
    by (auto simp: Channel_enableReading_def opened_def)
  show ?thesis
    using invoke_user [OF w3(2) q, of "UConnection c True" L f] w1(1) w2(1,5) w3 cb
    by (auto simp: TcpConnection_connectEstablished_def)
qed

text \<open>A freshly constructed connection.\<close>

definition fresh_conn :: "string \<Rightarrow> int \<Rightarrow> sockaddr_in \<Rightarrow> sockaddr_in \<Rightarrow> addr \<Rightarrow> kfifo \<Rightarrow> tcpconn" where
  "fresh_conn name sockfd local peer a k =
     \<lparr>tc_name = name, m_state = kConnecting, m_isReading = True, tc_sockfd = sockfd, m_channel = a,
      m_localAddr = local, m_peerAddr = peer, m_connectionCallback = None, m_messageCallback = None,
      m_writeCompleteCallback = None, m_highWaterMarkCallback = None, m_closeCallback = None,
      m_highWaterMark = kHighWaterMark, m_inputBuffer = k, m_outputBuffer = k\<rparr>"

definition fresh_channel :: "int \<Rightarrow> nat \<Rightarrow> channel" where
  "fresh_channel sockfd c = (Channel_new sockfd)\<lparr>m_readCallBack := Some (cb_connRead c),
     m_writeCallBack := Some (cb_connWrite c), m_closeCallBack := Some (cb_connClose c),
     m_errorCallBack := Some (cb_connError c)\<rparr>"

lemma TcpConnection_new_ok:
  assumes inv: "ep_inv w" and c: "refs w c = 0" and a: "channels w a = None"
    and fd: "\<forall>b dh. channels w b = Some dh \<longrightarrow> m_fd dh \<noteq> sockfd" and L: "L \<noteq> 0"
  shows "\<exists>w' k. TcpConnection_new mx True L name sockfd local peer c a w = Inr w' \<and> Kfifo_ready k \<and> Kfifo_contents k = [] \<and>
    holds w' c (fresh_conn name sockfd local peer a k) (fresh_channel sockfd c) 0
      (netlog w @ [NetOpt sockfd SOL_SOCKET SO_KEEPALIVE True]) (m_pendingFunctors w) \<and>
    world.more w' = world.more w \<and> m_threadId w' = m_threadId w"
proof -
  obtain k where k: "Kfifo_initBuffer mx True Kfifo_new 4096 = Inr (True, k)" "Kfifo_ready k" "Kfifo_contents k = []"
    using Kfifo_initBuffer_ok [of Kfifo_new 4096 mx] by (auto simp: Kfifo_new_def)
  let ?ch = "fresh_channel sockfd c" and ?tc = "fresh_conn name sockfd local peer a k"
  let ?w = "Socket_set_keepAlive sockfd True (Conn_put c ?tc (Channel_put a ?ch w))"
  have "ep_inv (Channel_put a ?ch (Channel_put a (Channel_new sockfd) w))"
    by (rule ep_inv_put [OF new_ok [OF inv a fd]]) (simp_all add: fresh_channel_def Channel_put_def)
  moreover have "Channel_put a ?ch (Channel_put a (Channel_new sockfd) w) = Channel_put a ?ch w" by (simp add: Channel_put_def)
  ultimately have "holds ?w c ?tc ?ch 0 (netlog w @ [NetOpt sockfd SOL_SOCKET SO_KEEPALIVE True]) (m_pendingFunctors w)"
    using c by (simp add: holds_def Socket_set_keepAlive_def Socket_setsockopt_def)
      (simp add: Conn_put_def Channel_put_def fresh_conn_def)
  moreover have "TcpConnection_new mx True L name sockfd local peer c a w = Inr ?w"
    using k(1) L by (simp add: TcpConnection_new_def CheckLoopNotNull_def fresh_channel_def fresh_conn_def)
  ultimately show ?thesis using k
    by (intro exI [of _ ?w] exI [of _ k]) (simp add: Socket_set_keepAlive_def Socket_setsockopt_def Conn_put_def Channel_put_def)
qed

text \<open>Running \<^verbatim>\<open>connectEstablished\<close>, at once or from the queue.\<close>

lemma run_established:
  assumes h: "holds w c tc ch (Suc r) nl pf" and r: "0 < r" and k: "kernel_accepts (e_ctl E)" and q: "user_quiet (e_user E)"
    and cb: "m_connectionCallback tc = Some f"
  shows "\<exists>w1. srv_run E L (FEstablished c) w = Inr w1 \<and>
    (\<forall>x. \<exists>w2. srv_drop L (FEstablished c) (w1\<lparr>m_callingPendingFunctors := x\<rparr>) = Inr w2 \<and>
      holds w2 c (tc\<lparr>m_state := kConnected\<rparr>) (opened ch c) r (nl @ [NetCall (UConnection c True)]) pf \<and>
      world.more w2 = world.more w \<and> m_threadId w2 = m_threadId w)"
proof -
  obtain w1 where w1: "TcpConnection_connectEstablished (e_ctl E) (srv_user E L) c w = Inr w1"
    "holds w1 c (tc\<lparr>m_state := kConnected\<rparr>) (opened ch c) (Suc r) (nl @ [NetCall (UConnection c True)]) pf"
    "world.more w1 = world.more w" "m_threadId w1 = m_threadId w" using connectEstablished_ok [OF h k q cb] by blast
  have "\<exists>w2. srv_drop L (FEstablished c) (w1\<lparr>m_callingPendingFunctors := x\<rparr>) = Inr w2 \<and>
      holds w2 c (tc\<lparr>m_state := kConnected\<rparr>) (opened ch c) r (nl @ [NetCall (UConnection c True)]) pf \<and>
      world.more w2 = world.more w \<and> m_threadId w2 = m_threadId w" for x
    using holds_release [of "w1\<lparr>m_callingPendingFunctors := x\<rparr>", OF _ r] w1 by (auto simp: srv_drop_def holds_idle)
  then show ?thesis using w1(1) by (auto simp: srv_run_def)
qed

text \<open>The connection after the server has set it up: \<open>r\<close> references, the callbacks set.\<close>

lemma newConnection_prepare:
  assumes inv: "ep_inv (loops s L)" and c: "refs (loops s L) c = 0" and a: "channels (loops s L) a = None"
    and fd: "\<forall>b dh. channels (loops s L) b = Some dh \<longrightarrow> m_fd dh \<noteq> sockfd" and L: "L \<noteq> 0" "home s c = L"
    and m: "m_connections s name = None"
  shows "\<exists>s1 s2 s3 tc. at_loop L (TcpConnection_new mx True L name sockfd local peer c a) s = Inr s1 \<and>
    connections_put name c (srv_acquire c s1) = Inr s2 \<and> at_loop L (conn_set_callbacks s2 c) s2 = Inr s3 \<and>
    holds (loops s3 L) c tc (fresh_channel sockfd c) (Suc 1)
      (netlog (loops s L) @ [NetOpt sockfd SOL_SOCKET SO_KEEPALIVE True]) (m_pendingFunctors (loops s L)) \<and>
    tc_name tc = name \<and> tc_sockfd tc = sockfd \<and> m_peerAddr tc = peer \<and> m_channel tc = a \<and>
    m_connectionCallback tc = sv_connectionCallback s \<and> m_closeCallback tc \<noteq> None \<and>
    srv_keeps s s3 \<and> m_connections s3 = (m_connections s)(name \<mapsto> c) \<and> (\<forall>M. M \<noteq> L \<longrightarrow> loops s3 M = loops s M)"
proof -
  let ?nl = "netlog (loops s L) @ [NetOpt sockfd SOL_SOCKET SO_KEEPALIVE True]" and ?pf = "m_pendingFunctors (loops s L)"
  let ?ch = "fresh_channel sockfd c"
  have "ep_inv (enter L s)" using inv ep_inv_same [of "enter L s" "loops s L"] by simp
  then obtain w k where w: "TcpConnection_new mx True L name sockfd local peer c a (enter L s) = Inr w"
    "holds w c (fresh_conn name sockfd local peer a k) ?ch 0 ?nl ?pf"
    "world.more w = s" "m_threadId w = m_threadId (loops s L)"
    using TcpConnection_new_ok [of "enter L s" c a sockfd L mx name local peer] c a fd L(1) by auto
  let ?tc = "fresh_conn name sockfd local peer a k"
  let ?s1 = "leave L w"
  have s1: "holds (loops ?s1 L) c ?tc ?ch 0 ?nl ?pf" "home ?s1 c = L" "m_connections ?s1 = m_connections s" "srv_keeps s ?s1"
    "sv_connectionCallback ?s1 = sv_connectionCallback s"
    using w L(2) by (auto simp: srv_keeps_def leave_def)
  note a1 = srv_acquire_ok [OF s1(1,2)]
  have h1: "home (srv_acquire c ?s1) c = L" using a1(2) s1(2) by (simp add: srv_keeps_def)
  note a2 = srv_acquire_ok [OF a1(1) h1]
  define s2 where "s2 = (srv_acquire c (srv_acquire c ?s1))\<lparr>m_connections := (m_connections s)(name \<mapsto> c)\<rparr>"
  have s2: "connections_put name c (srv_acquire c ?s1) = Inr s2" "holds (loops s2 L) c ?tc ?ch (Suc 1) ?nl ?pf" "srv_keeps s s2"
    "sv_connectionCallback s2 = sv_connectionCallback s" "m_connections s2 = (m_connections s)(name \<mapsto> c)"
    "\<forall>M. M \<noteq> L \<longrightarrow> loops s2 M = loops s M"
    using m a1 a2 s1(3-5) w(3) by (auto simp: connections_put_def s2_def srv_keeps_def srv_acquire_eq)
  let ?tc' = "?tc\<lparr>m_connectionCallback := sv_connectionCallback s2, m_messageCallback := sv_messageCallback s2,
      m_writeCompleteCallback := sv_writeCompleteCallback s2, m_closeCallback := Some 0\<rparr>"
  let ?w3 = "Conn_put c ?tc' (enter L s2)"
  have "at_loop L (conn_set_callbacks s2 c) s2 = Inr (leave L ?w3)"
    using s2(2) by (simp add: at_loop_def conn_set_callbacks_def conn_setters Conn_at_def holds_def Let_def)
  moreover have "holds (loops (leave L ?w3) L) c ?tc' ?ch (Suc 1) ?nl ?pf"
    using holds_put [of "enter L s2" c ?tc ?ch "Suc 1" ?nl ?pf ?tc'] s2(2) by (simp add: fresh_conn_def)
  ultimately show ?thesis
    using w(1) s2 by (intro exI [of _ ?s1] exI [of _ s2] exI [of _ "leave L ?w3"] exI [of _ ?tc'])
      (auto simp: at_loop_def fresh_conn_def srv_keeps_def Conn_put_def)
qed

lemma opened_fresh:
  "m_index (opened (fresh_channel fd c) c) = kAdded" "Channel_isReading (opened (fresh_channel fd c) c)"
  "m_fd (opened (fresh_channel fd c) c) = fd"
  by (simp_all add: opened_def fresh_channel_def Channel_new_def Channel_isReading_def next_index_def kReadEvent_def
      EPOLLIN_def EPOLLPRI_def kAdded_def)

lemma established_of_holds:
  assumes "holds (loops s L) c (tc\<lparr>m_state := kConnected\<rparr>) (opened (fresh_channel (tc_sockfd tc) c) c) 1 nl pf"
    and "home s c = L" and "m_connections s (tc_name tc) = Some c"
    and "m_connectionCallback tc \<noteq> None" and "m_closeCallback tc \<noteq> None"
  shows "established s c (tc\<lparr>m_state := kConnected\<rparr>) (opened (fresh_channel (tc_sockfd tc) c) c)"
  using assms opened_fresh [of "tc_sockfd tc" c]
  by (simp add: established_def holds_def) (simp add: opened_def fresh_channel_def)

text \<open>Handing the connection to its loop: at once in the loop's thread, through its queue otherwise.\<close>

lemma hand_over_now:
  assumes h: "holds (loops s L) c tc ch (Suc (Suc 1)) nl pf" and L: "home s c = L" and t: "in_thread L tid s"
    and k: "kernel_accepts (e_ctl E)" and q: "user_quiet (e_user E)" and cb: "m_connectionCallback tc = Some f"
  shows "\<exists>s1. rbind (srv_runInLoop E L tid (FEstablished c) s) (srv_release c) = Inr s1 \<and>
    srv_keeps s s1 \<and> m_connections s1 = m_connections s \<and>
    holds (loops s1 L) c (tc\<lparr>m_state := kConnected\<rparr>) (opened ch c) 1 (nl @ [NetCall (UConnection c True)]) pf"
proof -
  let ?tc = "tc\<lparr>m_state := kConnected\<rparr>" and ?nl = "nl @ [NetCall (UConnection c True)]"
  have e: "holds (enter L s) c tc ch (Suc (Suc 1)) nl pf" using h by simp
  from run_established [OF e _ k q cb, of L] obtain w1 where w1: "srv_run E L (FEstablished c) (enter L s) = Inr w1"
    "\<forall>x. \<exists>w2. srv_drop L (FEstablished c) (w1\<lparr>m_callingPendingFunctors := x\<rparr>) = Inr w2 \<and>
      holds w2 c ?tc (opened ch c) (Suc 1) ?nl pf \<and> world.more w2 = s \<and> m_threadId w2 = m_threadId (loops s L)"
    by auto
  from w1(2) [rule_format, of "m_callingPendingFunctors w1"] obtain w2 where
    w: "srv_drop L (FEstablished c) w1 = Inr w2" "holds w2 c ?tc (opened ch c) (Suc 1) ?nl pf"
      "world.more w2 = s" "m_threadId w2 = m_threadId (loops s L)" by auto
  have r: "srv_runInLoop E L tid (FEstablished c) s = Inr (leave L w2)"
    using t w1(1) w(1) by (simp add: srv_runInLoop_def at_loop_def)
  have "holds (loops (leave L w2) L) c ?tc (opened ch c) (Suc 1) ?nl pf" "home (leave L w2) c = L"
    using w(2,3) L by simp_all
  from srv_release_ok [OF this] obtain s1 where s1: "srv_release c (leave L w2) = Inr s1"
    "holds (loops s1 L) c ?tc (opened ch c) 1 ?nl pf" "srv_keeps (leave L w2) s1" "m_connections s1 = m_connections (leave L w2)"
    by auto
  moreover have "srv_keeps s (leave L w2)" using w(3,4) by (auto simp: srv_keeps_def)
  ultimately show ?thesis using r w(3) srv_keeps_trans by (intro exI [of _ s1]) auto
qed

lemma hand_over_later:
  assumes h: "holds (loops s L) c tc ch (Suc (Suc 1)) nl []" and L: "home s c = L" and t: "\<not> in_thread L tid s"
    and k: "kernel_accepts (e_ctl E)" and q: "user_quiet (e_user E)" and cb: "m_connectionCallback tc = Some f"
  shows "\<exists>s1 s2. rbind (srv_runInLoop E L tid (FEstablished c) s) (srv_release c) = Inr s1 \<and>
    srv_keeps s s1 \<and> m_connections s1 = m_connections s \<and> srv_pending E L s1 = Inr s2 \<and> srv_keeps s s2 \<and> m_connections s2 = m_connections s \<and>
    holds (loops s2 L) c (tc\<lparr>m_state := kConnected\<rparr>) (opened ch c) 1 (nl @ [NetCall (UConnection c True)]) []"
proof -
  let ?tc = "tc\<lparr>m_state := kConnected\<rparr>" and ?nl = "nl @ [NetCall (UConnection c True)]"
  let ?s' = "srv_queue L tid (FEstablished c) s"
  have r: "srv_runInLoop E L tid (FEstablished c) s = Inr ?s'" using t by (simp add: srv_runInLoop_def)
  have "holds (loops ?s' L) c tc ch (Suc (Suc 1)) nl [FEstablished c]" "home ?s' c = L"
    using holds_queue [OF h] L by (simp_all add: srv_queue_eq)
  from srv_release_ok [OF this] obtain s1 where s1: "srv_release c ?s' = Inr s1"
    "holds (loops s1 L) c tc ch (Suc 1) nl [FEstablished c]" "srv_keeps ?s' s1" "m_connections s1 = m_connections ?s'"
    by auto
  have k1: "srv_keeps s s1" "m_connections s1 = m_connections s"
    using s1(3,4) by (auto simp: srv_keeps_def srv_queue_eq split: if_splits)
  have e: "holds (swapped (enter L s1)) c tc ch (Suc 1) nl []" using s1(2) holds_swapped [of "enter L s1"] by simp
  from run_established [OF e _ k q cb, of L] obtain w1 where
    w1: "srv_run E L (FEstablished c) (swapped (enter L s1)) = Inr w1"
    "\<forall>x. \<exists>w2. srv_drop L (FEstablished c) (w1\<lparr>m_callingPendingFunctors := x\<rparr>) = Inr w2 \<and>
      holds w2 c ?tc (opened ch c) 1 ?nl [] \<and> world.more w2 = s1 \<and> m_threadId w2 = m_threadId (loops s1 L)"
    by auto
  from w1(2) [rule_format, of False] obtain w2 where
    w: "srv_drop L (FEstablished c) (w1\<lparr>m_callingPendingFunctors := False\<rparr>) = Inr w2"
    "holds w2 c ?tc (opened ch c) 1 ?nl []" "world.more w2 = s1" "m_threadId w2 = m_threadId (loops s1 L)" by auto
  have "m_pendingFunctors (loops s1 L) = [FEstablished c]" using s1(2) by (simp add: holds_def)
  from srv_pending_one [OF this w1(1) w(1)] have "srv_pending E L s1 = Inr (leave L w2)" .
  moreover have "srv_keeps s (leave L w2)" using k1(1) w(3,4) by (auto simp: srv_keeps_def)
  ultimately show ?thesis using r s1(1) k1 w(2,3) by simp
qed

lemma newConnection_unfold:
  assumes pool: "EventLoopThreadPool_getNextLoop (sv_pool s) = Inr (L, pool)" and id: "int32_ok (m_nextConnId s + 1)"
    and new: "e_new E s = (c, a)"
    and s0: "s0 = s\<lparr>sv_pool := pool, m_nextConnId := m_nextConnId s + 1, home := (home s)(c := L)\<rparr>"
    and nm: "name = conn_name (sv_name s) (sv_ipPort s) (m_nextConnId s)"
    and s1: "at_loop L (TcpConnection_new (e_mx E) (e_alloc E) L name sockfd
      (case e_getsockname E sockfd of Inl _ \<Rightarrow> sockaddr_zero | Inr addr \<Rightarrow> addr) peer c a) s0 = Inr s1"
    and s2: "connections_put name c (srv_acquire c s1) = Inr s2" and s3: "at_loop L (conn_set_callbacks s2 c) s2 = Inr s3"
  shows "TcpServer_newConnection E tid sockfd peer s =
    rbind (srv_runInLoop E L tid (FEstablished c) (srv_acquire c s3)) (srv_release c)"
  unfolding TcpServer_newConnection_def pool rbind_Inr case_prod_conv Let_def to_int32_def new
  using id s1 s2 s3 by (simp add: s0 nm)

section \<open>Properties\<close>

text \<open>C14: Accepting a connection in the base loop's thread chooses the next loop of the pool and enters the new
  connection in the server's map under a name that no other connection has, without replacing
  anything. When the chosen loop is the base loop the connection is established on return;
  otherwise it is once that loop has run its queue: connected, its descriptor watched for reading,
  its channel tied to it, referred to by the map only, and the application told once.\<close>

theorem TcpServer_newConnection_establishes:
  assumes names: "names_inv s" and id: "int32_ok (m_nextConnId s + 1)"
    and pool: "EventLoopThreadPool_getNextLoop (sv_pool s) = Inr (L, pool)" and L: "L \<noteq> 0"
    and new: "e_new E s = (c, a)" "e_alloc E" "refs (loops s L) c = 0" "channels (loops s L) a = None"
    and fd: "\<forall>b dh. channels (loops s L) b = Some dh \<longrightarrow> m_fd dh \<noteq> sockfd"
    and inv: "ep_inv (loops s L)" and q: "user_quiet (e_user E)" and k: "kernel_accepts (e_ctl E)"
    and cb: "sv_connectionCallback s = Some f"
    and idle: "in_thread L tid s \<or> m_pendingFunctors (loops s L) = []"
  shows "m_connections s (conn_name (sv_name s) (sv_ipPort s) (m_nextConnId s)) = None \<and>
    (\<exists>s1 s2 tc ch. TcpServer_newConnection E tid sockfd peer s = Inr s1 \<and> names_inv s1 \<and>
      m_connections s1 = (m_connections s)(conn_name (sv_name s) (sv_ipPort s) (m_nextConnId s) \<mapsto> c) \<and>
      (if in_thread L tid s then Inr s1 else srv_pending E L s1) = Inr s2 \<and> m_connections s2 = m_connections s1 \<and>
      home s2 c = L \<and> established s2 c tc ch \<and> tc_sockfd tc = sockfd \<and> m_peerAddr tc = peer \<and> m_channel tc = a \<and>
      netlog (loops s2 L) =
        netlog (loops s L) @ [NetOpt sockfd SOL_SOCKET SO_KEEPALIVE True, NetCall (UConnection c True)])"
proof -
  define name where "name = conn_name (sv_name s) (sv_ipPort s) (m_nextConnId s)"
  define s0 where "s0 = s\<lparr>sv_pool := pool, m_nextConnId := m_nextConnId s + 1, home := (home s)(c := L)\<rparr>"
  have n: "m_connections s name = None" unfolding name_def using names by (rule names_inv_fresh)
  let ?local = "case e_getsockname E sockfd of Inl _ \<Rightarrow> sockaddr_zero | Inr addr \<Rightarrow> addr"
  let ?nl = "netlog (loops s L) @ [NetOpt sockfd SOL_SOCKET SO_KEEPALIVE True]" and ?pf = "m_pendingFunctors (loops s L)"
  have "ep_inv (loops s0 L)" "refs (loops s0 L) c = 0" "channels (loops s0 L) a = None" "home s0 c = L"
    "\<forall>b dh. channels (loops s0 L) b = Some dh \<longrightarrow> m_fd dh \<noteq> sockfd" "m_connections s0 name = None"
    using inv new fd n by (simp_all add: s0_def)
  from newConnection_prepare [OF this(1-3,5) L this(4,6), of "e_mx E" ?local peer] obtain s1 s2 s3 tc where
    p: "at_loop L (TcpConnection_new (e_mx E) (e_alloc E) L name sockfd ?local peer c a) s0 = Inr s1"
    "connections_put name c (srv_acquire c s1) = Inr s2" "at_loop L (conn_set_callbacks s2 c) s2 = Inr s3"
    "holds (loops s3 L) c tc (fresh_channel sockfd c) (Suc 1) ?nl ?pf"
    "tc_name tc = name" "tc_sockfd tc = sockfd" "m_peerAddr tc = peer" "m_channel tc = a"
    "m_connectionCallback tc = Some f" "m_closeCallback tc \<noteq> None"
    "srv_keeps s0 s3" "m_connections s3 = (m_connections s)(name \<mapsto> c)"
    using new(2) cb by (auto simp: s0_def)
  have h3: "home s3 c = L" using p(11) by (simp add: srv_keeps_def s0_def)
  note a = srv_acquire_ok [OF p(4) h3]
  let ?s = "srv_acquire c s3"
  have t: "home ?s c = L" "in_thread L tid ?s = in_thread L tid s" "srv_keeps s0 ?s"
    using a(2) h3 p(11) srv_keeps_trans by (auto simp: srv_keeps_def s0_def in_thread_def EventLoop_isInLoopThread_def)
  let ?tc = "tc\<lparr>m_state := kConnected\<rparr>" and ?ch = "opened (fresh_channel sockfd c) c"
  obtain s4 s5 where s: "rbind (srv_runInLoop E L tid (FEstablished c) ?s) (srv_release c) = Inr s4"
    "srv_keeps ?s s4" "m_connections s4 = m_connections ?s" "(if in_thread L tid s then Inr s4 else srv_pending E L s4) = Inr s5"
    "srv_keeps ?s s5" "m_connections s5 = m_connections ?s"
    "holds (loops s5 L) c ?tc ?ch 1 (?nl @ [NetCall (UConnection c True)]) ?pf"
  proof (cases "in_thread L tid s")
    case True
    then show ?thesis using hand_over_now [OF a(1) t(1) _ k q p(9), of tid] t(2) that by auto
  next
    case False
    then have "?pf = []" using idle by simp
    then show ?thesis using hand_over_later [OF a(1) [unfolded \<open>?pf = []\<close>] t(1) _ k q p(9), of tid] t(2) that False by auto
  qed
  have "TcpServer_newConnection E tid sockfd peer s = Inr s4"
    using newConnection_unfold [OF pool id new(1) s0_def name_def p(1-3)] s(1) by simp
  moreover have "names_inv s4"
    using srv_keeps_trans [OF t(3) s(2)] s(3) a(3) p(12)
    by (intro names_inv_put [OF names id, of s4 c]) (auto simp: srv_keeps_def s0_def name_def)
  moreover have "home s5 c = L" using s(5) t(1) by (simp add: srv_keeps_def)
  moreover have "established s5 c ?tc ?ch"
    using established_of_holds [of s5 L c tc] s(6,7) p(5,6,9,10,12) a(3) \<open>home s5 c = L\<close> by auto
  ultimately show ?thesis
    using n s(3,4,6,7) a(3) p(6-8,12) unfolding name_def [symmetric]
    by (intro conjI exI [of _ s4] exI [of _ s5] exI [of _ ?tc] exI [of _ ?ch]) (simp_all add: holds_def)
qed

text \<open>A server with a base loop 1 and one pool loop 2, for the witnesses.\<close>

definition idle_world :: "int \<Rightarrow> world" where
  "idle_world tid = \<lparr>channels = (\<lambda>_. None), m_channel_map = (\<lambda>_. None), m_reventList = 16, ctlLog = [], refs = (\<lambda>_. 0),
     m_pendingFunctors = [], m_callingPendingFunctors = False, m_looping = True, m_quit = False, m_threadId = tid,
     m_activeChannels = [], m_pollReturnTime = 0, wakeCount = 0, conns = (\<lambda>_. None), strings = (\<lambda>_. None), netlog = []\<rparr>"

definition ex_env :: env where
  "ex_env = \<lparr>e_ctl = ex_ctl, e_mx = RelockBlocks, e_write = (\<lambda>_ bs. Inr (length bs)), e_readv = (\<lambda>_ _. Inr []),
     e_accept = (\<lambda>_. Inr (7, sockaddr_zero)), e_listen = (\<lambda>_. Inr ()), e_getsockname = (\<lambda>_. Inl 9), e_alloc = True,
     e_new = (\<lambda>_. (9, 5)), e_user = (\<lambda>_. Inr), e_big = False, e_inet_addr = (\<lambda>_. 0), e_timers = Inr\<rparr>"

definition ex_srv :: srv where
  "ex_srv = \<lparr>sv_connectionCallback = Some 0, sv_messageCallback = Some 0, sv_writeCompleteCallback = None,
     sv_threadInitCallback = False, sv_ipPort = ''127.0.0.1:80'', sv_name = ''s'', m_started_n = 1, sv_baseLoop = 1,
     m_acceptSocket = 4, m_acceptChannel = 3, m_listenning = True, m_newConnectionCallback = Some 0,
     sv_pool = (EventLoopThreadPool_new 1 ''s'')\<lparr>m_started := True, m_eventloops := [2]\<rparr>, m_nextConnId = 1,
     m_connections = (\<lambda>_. None), home = (\<lambda>_. 0), loops = (\<lambda>L. idle_world (int L))\<rparr>"

lemma ex_env_ok: "kernel_accepts (e_ctl ex_env)" "user_quiet (e_user ex_env)"
proof -
  show "kernel_accepts (e_ctl ex_env)" using ex_ctl_accepts by (simp add: ex_env_def)
  have "\<exists>ss. Inr w = (Inr (w\<lparr>strings := ss\<rparr>) :: sworld res)" for w by (rule exI [of _ "strings w"]) simp
  then show "user_quiet (e_user ex_env)" by (simp add: user_quiet_def ex_env_def)
qed

lemma ex_srv_facts:
  "names_inv ex_srv" "int32_ok (m_nextConnId ex_srv + 1)" "ep_inv (loops ex_srv 2)" "\<not> in_thread 2 1 ex_srv"
  "EventLoopThreadPool_getNextLoop (sv_pool ex_srv) = Inr (2, sv_pool ex_srv)"
  by (simp_all add: ex_srv_def names_inv_def int32_ok_def idle_world_def ep_inv_def EventLoopThreadPool_getNextLoop_def
      EventLoopThreadPool_new_def to_int32_def in_thread_def EventLoop_isInLoopThread_def)

theorem TcpServer_newConnection_establishes_witness:
  "\<exists>s1 s2 tc ch. TcpServer_newConnection ex_env 1 7 sockaddr_zero ex_srv = Inr s1 \<and> srv_pending ex_env 2 s1 = Inr s2 \<and>
     established s2 9 tc ch \<and> netlog (loops s2 2) = [NetOpt 7 SOL_SOCKET SO_KEEPALIVE True, NetCall (UConnection 9 True)]"
proof -
  have n: "e_new ex_env ex_srv = (9, 5)" "e_alloc ex_env" "refs (loops ex_srv 2) 9 = 0" "channels (loops ex_srv 2) 5 = None"
    "\<forall>b dh. channels (loops ex_srv 2) b = Some dh \<longrightarrow> m_fd dh \<noteq> 7" "sv_connectionCallback ex_srv = Some 0"
    "m_pendingFunctors (loops ex_srv 2) = []" "netlog (loops ex_srv 2) = []"
    by (simp_all add: ex_env_def ex_srv_def idle_world_def)
  show ?thesis
    using TcpServer_newConnection_establishes [OF ex_srv_facts(1,2,5) _ n(1-5) ex_srv_facts(3) ex_env_ok(2,1) n(6),
        of 1 sockaddr_zero] n ex_srv_facts(4) by auto
qed

text \<open>C6: When the peer closes or hangs up, an established connection is taken apart completely, whether its loop is
  the base loop or another: after its loop has handled the event and the base loop and its own loop have
  run what was queued, the server has forgotten its name, the object and its channel are destroyed
  with no pointer to the channel left in the kernel, the socket is closed, and the application and
  the server have each been told once, in that order.\<close>

theorem TcpServer_close_destroys:
  assumes e: "established s c tc ch" and ev: "peer_gone E tc ch" and t: "own_threads s"
    and k: "kernel_accepts (e_ctl E)" and q: "user_quiet (e_user E)"
    and p: "m_pendingFunctors (loops s (home s c)) = []" "m_pendingFunctors (loops s (sv_baseLoop s)) = []"
  shows "\<exists>s' w. close_sequence E time c (m_channel tc) s = Inr s' \<and> m_connections s' = (m_connections s)(tc_name tc := None) \<and>
    w = loops s' (home s c) \<and> conns w c = None \<and> refs w c = 0 \<and> channels w (m_channel tc) = None \<and>
    (\<forall>fd evs. interest (ctlLog w) fd \<noteq> Some (evs, m_channel tc)) \<and> m_pendingFunctors w = [] \<and>
    netlog w = netlog (loops s (home s c)) @
      [NetCall (UConnection c False), NetCall (UClose c), NetClose (tc_sockfd tc)]"
proof -
  let ?nl = "netlog (loops s (home s c))"
  have h: "holds (loops s (home s c)) c tc ch 1 ?nl []" using e p(1) by (simp add: established_def holds_def Let_def)
  obtain f g where cb: "m_connectionCallback tc = Some f" "m_closeCallback tc = Some g"
    and ch: "m_tied ch" "m_tie ch = Some c"
    and chcb: "m_readCallBack ch = Some (cb_connRead c)" "m_closeCallBack ch = Some (cb_connClose c)"
      "m_errorCallBack ch = Some (cb_connError c)"
    and m: "m_connections s (tc_name tc) = Some c" using e by (auto simp: established_def Let_def)
  obtain s' where s': "close_sequence E time c (m_channel tc) s = Inr s'"
    "m_connections s' = (m_connections s)(tc_name tc := None)"
    "gone (loops s' (home s c)) c tc (?nl @ [NetCall (UConnection c False), NetCall (UClose c)])"
    using close_sequence_ok [OF h k q cb ch chcb ev refl m t p(2)] by blast
  have "interest (ctlLog (loops s' (home s c))) fd \<noteq> Some (evs, m_channel tc)" for fd evs
    using s'(3) ep_inv_interest_iff [of "loops s' (home s c)" fd evs "m_channel tc"] by (simp add: gone_def)
  then show ?thesis using s' by (simp add: gone_def)
qed

definition ex_open_conn :: tcpconn where
  "ex_open_conn = (fresh_conn ''s-1'' 7 sockaddr_zero sockaddr_zero 5 Kfifo_new)\<lparr>m_state := kConnected,
     m_connectionCallback := Some 0, m_messageCallback := Some 0, m_closeCallback := Some 0\<rparr>"

definition ex_hup_channel :: channel where
  "ex_hup_channel = (opened (fresh_channel 7 9) 9)\<lparr>m_revents := EPOLLHUP OR EPOLLERR\<rparr>"

definition ex_open_srv :: srv where
  "ex_open_srv = ex_srv\<lparr>m_nextConnId := 2, m_connections := [''s-1'' \<mapsto> 9], home := (\<lambda>_. 2),
     loops := (\<lambda>L. idle_world (int L))(2 := (idle_world 2)\<lparr>channels := [5 \<mapsto> ex_hup_channel], m_channel_map := [7 \<mapsto> 5],
       ctlLog := [(EPOLL_CTL_ADD, 7, 3, 5)], refs := (\<lambda>_. 0)(9 := 1), conns := [9 \<mapsto> ex_open_conn]\<rparr>)\<rparr>"

lemma ex_open_srv_ok: "established ex_open_srv 9 ex_open_conn ex_hup_channel"
proof -
  have c: "m_fd ex_hup_channel = 7" "m_index ex_hup_channel = kAdded" "m_events ex_hup_channel = 3"
    "Channel_isReading ex_hup_channel"
    using opened_fresh [of 7 9] by (simp_all add: ex_hup_channel_def Channel_isReading_def)
      (simp add: opened_def fresh_channel_def Channel_new_def kReadEvent_def EPOLLIN_def EPOLLPRI_def)
  have i: "ep_inv ((idle_world 2)\<lparr>channels := [5 \<mapsto> ex_hup_channel], m_channel_map := [7 \<mapsto> 5],
       ctlLog := [(EPOLL_CTL_ADD, 7, 3, 5)], refs := (\<lambda>_. 0)(9 := 1), conns := [9 \<mapsto> ex_open_conn]\<rparr>)"
    using c by (auto simp: ep_inv_def idle_world_def interest_def)
  show ?thesis using c i
    by (simp add: established_def ex_open_srv_def ex_srv_def ex_open_conn_def fresh_conn_def Let_def)
      (simp add: ex_hup_channel_def opened_def fresh_channel_def)
qed

theorem TcpServer_close_destroys_witness:
  "\<exists>s'. close_sequence ex_env 0 9 5 ex_open_srv = Inr s' \<and> m_connections s' = (\<lambda>_. None) \<and> conns (loops s' 2) 9 = None \<and>
     netlog (loops s' 2) = [NetCall (UConnection 9 False), NetCall (UClose 9), NetClose 7]"
proof -
  have n: "own_threads ex_open_srv" "peer_gone ex_env ex_open_conn ex_hup_channel" "m_channel ex_open_conn = 5"
    "m_pendingFunctors (loops ex_open_srv (home ex_open_srv 9)) = []" "netlog (loops ex_open_srv 2) = []"
    "m_pendingFunctors (loops ex_open_srv (sv_baseLoop ex_open_srv)) = []" "home ex_open_srv 9 = 2"
    "(m_connections ex_open_srv)(tc_name ex_open_conn := None) = (\<lambda>_. None)" "tc_sockfd ex_open_conn = 7"
    by (simp_all add: own_threads_def ex_open_srv_def ex_srv_def idle_world_def ex_hup_channel_def ex_open_conn_def
        fresh_conn_def fun_eq_iff peer_gone_def EPOLLHUP_def EPOLLERR_def EPOLLIN_def EPOLLPRI_def EPOLLOUT_def)
  show ?thesis
    using TcpServer_close_destroys [OF ex_open_srv_ok n(2,1) ex_env_ok n(4,6), of 0] n by auto
qed

text \<open>The acceptor's read handler ignores a failing \<^verbatim>\<open>accept\<close>, running out of descriptors included: nothing changes, so
  the listening socket stays readable.\<close>

lemma Acceptor_handleRead_failed: "e_accept E (m_acceptSocket s) = Inl e \<Longrightarrow> Acceptor_handleRead E tid s = Inr s"
  by (simp add: Acceptor_handleRead_def Socket_accept_def)

lemma length_toIpPort: "length (InetAddress_toIpPort big addr) \<le> 22"
proof -
  let ?p = "InetAddress_toPort big addr"
  have "- 32768 \<le> ?p" "?p < 65536"
    using sint_ge [of "networkToHost16 big (sin_port addr)"] sint_lt [of "networkToHost16 big (sin_port addr)"]
    by (simp_all add: InetAddress_toPort_def)
  then have "length (dec_nat (nat (abs ?p))) \<le> 5" by (intro length_dec_nat) auto
  then have "length (dec_int ?p) \<le> 6" by (simp add: dec_int_def abs_if split: if_splits)
  then show ?thesis using length_inet_ntop [of big "s_addr addr"]
    by (simp add: InetAddress_toIpPort_def InetAddress_toIp_def)
qed

lemma Acceptor_new_ok:
  assumes "ep_inv w" and "channels w a = None" and "\<forall>b dh. channels w b = Some dh \<longrightarrow> m_fd dh \<noteq> fd"
    and "bind fd addr = Inr ()"
  shows "\<exists>w'. Acceptor_new (Inr fd) bind addr opt a w = Inr (fd, w') \<and> ep_inv w' \<and>
    channels w' a = Some ((Channel_new fd)\<lparr>m_readCallBack := Some cb_accept\<rparr>) \<and> m_threadId w' = m_threadId w"
proof -
  let ?ch = "(Channel_new fd)\<lparr>m_readCallBack := Some cb_accept\<rparr>"
  let ?w = "Socket_set_reusePort fd True (Socket_set_reuseAddr fd True (Channel_put a (Channel_new fd) w))"
  have "ep_inv ?w" "channels ?w a = Some (Channel_new fd)"
    using new_ok [OF assms(1-3)]
    by (simp_all add: Socket_set_reusePort_def Socket_set_reuseAddr_def Socket_setsockopt_def) (simp add: Channel_put_def)
  from ep_inv_put [OF this, of ?ch] this(2) have "ep_inv (Channel_put a ?ch ?w)" by simp
  moreover have "Acceptor_new (Inr fd) bind addr opt a w = Inr (fd, Channel_put a ?ch ?w)"
    using assms(4) \<open>channels ?w a = _\<close>
    by (simp add: Acceptor_new_def createSockWithNonBlock_def Socket_bindAddress_def Channel_at_def)
  ultimately show ?thesis
    by (simp add: Channel_put_def Socket_set_reusePort_def Socket_set_reuseAddr_def Socket_setsockopt_def)
qed

text \<open>A server constructed on a working loop with a fresh, bindable socket starts listening with the first
  \<^verbatim>\<open>start\<close> in the loop's thread: the accept channel is watched for reading; further calls only count.\<close>

lemma TcpServer_start_listens:
  assumes w: "ep_inv (ls loop)" "channels (ls loop) a = None" "\<forall>b dh. channels (ls loop) b = Some dh \<longrightarrow> m_fd dh \<noteq> fd"
    and b: "bind fd addr = Inr ()" and l: "loop \<noteq> 0" "m_threadId (ls loop) = tid"
    and k: "kernel_accepts (e_ctl E)" and li: "e_listen E fd = Inr ()"
  shows "\<exists>s s1. TcpServer_new big (Inr fd) bind ls loop addr name opt a = Inr s \<and> names_inv s \<and> \<not> m_listenning s \<and>
    TcpServer_start E startLoop tid s = Inr s1 \<and> m_listenning s1 \<and> names_inv s1 \<and>
    interest (ctlLog (loops s1 loop)) fd = Some (kReadEvent, a) \<and>
    TcpServer_start E startLoop tid s1 = Inr (s1\<lparr>m_started_n := 2\<rparr>)"
proof -
  let ?ch = "(Channel_new fd)\<lparr>m_readCallBack := Some cb_accept\<rparr>"
  obtain w0 where w0: "Acceptor_new (Inr fd) bind addr opt a (ls loop) = Inr (fd, w0)" "ep_inv w0"
    "channels w0 a = Some ?ch" "m_threadId w0 = tid" using Acceptor_new_ok [of "ls loop" a fd bind addr opt, OF w b] l(2) by auto
  obtain s where s: "TcpServer_new big (Inr fd) bind ls loop addr name opt a = Inr s" "loops s loop = w0"
    "sv_baseLoop s = loop" "m_acceptSocket s = fd" "m_acceptChannel s = a" "m_started_n s = 0" "\<not> m_listenning s"
    "names_inv s" using w0(1) l(1) length_toIpPort [of big addr]
    by (simp add: TcpServer_new_def names_inv_def int32_ok_def)
  let ?s = "s\<lparr>m_started_n := 1, sv_pool := EventLoopThreadPool_start startLoop (sv_threadInitCallback s) (sv_pool s), m_listenning := True\<rparr>"
  let ?ch' = "?ch\<lparr>m_events := kReadEvent, m_index := kAdded\<rparr>"
  have e: "ep_inv (enter loop ?s)" "channels (enter loop ?s) a = Some ?ch"
    using w0(2,3) s(2) ep_inv_same [of "enter loop ?s" w0] by simp_all
  have "next_index ?ch kReadEvent = kAdded" by (simp add: next_index_def Channel_new_def kAdded_def)
  then obtain w1 where w1: "Channel_enableReading (e_ctl E) a (enter loop ?s) = Inr w1" "ep_inv w1"
    "channels w1 a = Some ?ch'" "world.more w1 = ?s"
    using set_events_ok [OF e k, of "\<lambda>e. e OR kReadEvent"] world_of_poller [of _ "enter loop ?s"]
    by (auto simp: Channel_enableReading_def Channel_new_def)
  let ?s1 = "leave loop w1"
  have r: "Acceptor_listen E (s\<lparr>m_started_n := 1, sv_pool := EventLoopThreadPool_start startLoop (sv_threadInitCallback s) (sv_pool s)\<rparr>) = Inr ?s1"
    using w1(1) s(3-5) li by (simp add: Acceptor_listen_def Socket_listen_def at_loop_def)
  have "TcpServer_start E startLoop tid s = Inr ?s1"
    using r s(2,3,6) w0(4)
    by (simp add: TcpServer_start_def srv_runInLoop_def in_thread_def EventLoop_isInLoopThread_def at_loop_def srv_run_def
        srv_functor_def in_server_def srv_drop_def Let_def)
  moreover have "interest (ctlLog (loops ?s1 loop)) fd = Some (kReadEvent, a)"
    using ep_inv_interest [OF w1(2,3)] by (simp add: Channel_new_def)
  moreover have "m_listenning ?s1" "m_started_n ?s1 = 1" "names_inv ?s1"
    using w1(4) s(8) by (simp_all add: leave_def names_inv_def)
  moreover from this(2) have "TcpServer_start E startLoop tid ?s1 = Inr (?s1\<lparr>m_started_n := 2\<rparr>)"
    by (simp add: TcpServer_start_def)
  ultimately show ?thesis using s by blast
qed

end
