(* ===== verification/Server_Dtor.thy ===== *)
theory Server_Dtor
  imports Tcp_Server
begin

text \<open>
  The end of a server: \<^verbatim>\<open>~TcpServer\<close> of \<^verbatim>\<open>src/mymuduo/TcpServer.cpp\<close> with any number of connections, spread over any
  number of loops. Connections of the base loop are destroyed on the spot, the others by their own
  loops, which find the destruction in their queues.
\<close>

section \<open>Destroying one connection, with its frame\<close>

text \<open>What the application sees of a connection that is destroyed: it is told only when it was connected.\<close>

definition farewell :: "nat \<Rightarrow> tcpconn \<Rightarrow> netev list" where
  "farewell c tc = (if m_state tc = kConnected then [NetCall (UConnection c False)] else [])"

definition down :: "tcpconn \<Rightarrow> tcpconn" where
  "down tc = tc\<lparr>m_state := if m_state tc = kConnected then kDisconnected else m_state tc\<rparr>"

lemma down_sel [simp]: "m_channel (down tc) = m_channel tc" "tc_sockfd (down tc) = tc_sockfd tc"
  by (simp_all add: down_def)

text \<open>The parts of the world that destroying a connection leaves alone.\<close>

definition same_rest :: "'a world_scheme \<Rightarrow> 'a world_scheme \<Rightarrow> bool" where
  "same_rest w w' \<longleftrightarrow> m_pendingFunctors w' = m_pendingFunctors w \<and> m_threadId w' = m_threadId w \<and> world.more w' = world.more w"

lemma same_rest_poller: "poller.more w' = poller.more (w :: 'a world_scheme) \<Longrightarrow> same_rest w w'"
  using world_more [of w' w] world_of_poller [of w' w] by (simp add: same_rest_def)

lemma same_rest_trans: "same_rest w w' \<Longrightarrow> same_rest w' w'' \<Longrightarrow> same_rest w w''"
  by (simp add: same_rest_def)

lemma connectDestroyed_connected:
  assumes inv: "ep_inv w" and c: "conns w c = Some tc" and a: "channels w (m_channel tc) = Some ch"
    and k: "kernel_accepts ctl" and st: "m_state tc = kConnected" "m_connectionCallback tc = Some f"
    and u: "\<And>w. \<exists>ss. user (UConnection c False) w = Inr (w\<lparr>strings := ss\<rparr>)"
  shows "\<exists>w' ch'. TcpConnection_connectDestroyed ctl user c w = Inr w' \<and> ep_inv w' \<and> conns w' = (conns w)(c \<mapsto> down tc) \<and>
    channels w' = (channels w)(m_channel tc \<mapsto> ch') \<and> m_index ch' = kNew \<and> refs w' = refs w \<and>
    netlog w' = netlog w @ farewell c tc \<and> same_rest w w'"
proof -
  let ?w1 = "Conn_put c (down tc) w"
  have w1: "setState kDisconnected c w = Inr ?w1" "ep_inv ?w1" "channels ?w1 (m_channel tc) = Some ch"
    using c a inv st by (simp_all add: setState_def Conn_at_def down_def)
  obtain w2 ch2 where w2: "Channel_disableAll ctl (m_channel tc) ?w1 = Inr w2" "ep_inv w2"
    "channels w2 = (channels ?w1)(m_channel tc \<mapsto> ch2)" "refs w2 = refs ?w1" "poller.more w2 = poller.more ?w1"
    using set_events_ok [OF w1(2,3) k, of "\<lambda>_. kNoneEvent"] by (auto simp: Channel_disableAll_def)
  note m2 = world_more [OF w2(5)]
  let ?w3 = "w2\<lparr>netlog := netlog w2 @ [NetCall (UConnection c False)]\<rparr>"
  obtain ss where ss: "user (UConnection c False) ?w3 = Inr (?w3\<lparr>strings := ss\<rparr>)" using u by blast
  let ?w4 = "?w3\<lparr>strings := ss\<rparr>"
  have w4: "ep_inv ?w4" "channels ?w4 (m_channel tc) = Some ch2" using w2(2,3) ep_inv_same [of ?w4 w2] by simp_all
  obtain w5 where w5: "Channel_remove ctl (m_channel tc) ?w4 = Inr w5" "ep_inv w5"
    "channels w5 = (channels ?w4)(m_channel tc \<mapsto> ch2\<lparr>m_index := kNew\<rparr>)" "refs w5 = refs ?w4" "poller.more w5 = poller.more ?w4"
    using remove_ok [OF w4 k] by auto
  note m5 = world_more [OF w5(5)]
  have "TcpConnection_connectDestroyed ctl user c w = Inr w5"
    using c st w1(1) w2(1) ss w5(1) m2(1) by (simp add: TcpConnection_connectDestroyed_def Conn_at_def invoke_def)
  moreover have "same_rest w w5"
  proof -
    have "same_rest w ?w1" by (simp add: same_rest_def Conn_put_def)
    moreover have "same_rest w2 ?w4" by (simp add: same_rest_def)
    ultimately show ?thesis using same_rest_poller [OF w2(5)] same_rest_poller [OF w5(5)] same_rest_trans by blast
  qed
  ultimately show ?thesis using w2 w5 m2 m5 st
    by (intro exI [of _ w5] exI [of _ "ch2\<lparr>m_index := kNew\<rparr>"]) (simp add: farewell_def)
qed

lemma connectDestroyed_other:
  assumes inv: "ep_inv w" and c: "conns w c = Some tc" and a: "channels w (m_channel tc) = Some ch"
    and k: "kernel_accepts ctl" and st: "m_state tc \<noteq> kConnected"
  shows "\<exists>w'. TcpConnection_connectDestroyed ctl user c w = Inr w' \<and> ep_inv w' \<and> conns w' = (conns w)(c \<mapsto> down tc) \<and>
    channels w' = (channels w)(m_channel tc \<mapsto> ch\<lparr>m_index := kNew\<rparr>) \<and> refs w' = refs w \<and>
    netlog w' = netlog w @ farewell c tc \<and> same_rest w w'"
proof -
  obtain w' where w': "Channel_remove ctl (m_channel tc) w = Inr w'" "ep_inv w'"
    "channels w' = (channels w)(m_channel tc \<mapsto> ch\<lparr>m_index := kNew\<rparr>)" "refs w' = refs w" "poller.more w' = poller.more w"
    using remove_ok [OF inv a k] by auto
  have "TcpConnection_connectDestroyed ctl user c w = Inr w'"
    using c st w'(1) by (simp add: TcpConnection_connectDestroyed_def Conn_at_def)
  moreover have "(conns w)(c \<mapsto> down tc) = conns w" using c st by (auto simp: down_def fun_eq_iff)
  ultimately show ?thesis using w' world_more [OF w'(5)] same_rest_poller [OF w'(5)] st by (simp add: farewell_def)
qed

section \<open>Connections that can be destroyed\<close>

abbreviation conn_channel :: "'a world_scheme \<Rightarrow> nat \<Rightarrow> addr" where
  "conn_channel w c \<equiv> m_channel (the (conns w c))"

text \<open>The connections \<open>cs\<close> of one loop: alive, each with a channel of its own for which \<open>P\<close> holds.\<close>

definition owns_conns :: "(tcpconn \<Rightarrow> channel \<Rightarrow> bool) \<Rightarrow> 'a world_scheme \<Rightarrow> nat list \<Rightarrow> bool" where
  "owns_conns P w cs \<longleftrightarrow> ep_inv w \<and> distinct cs \<and> inj_on (conn_channel w) (set cs) \<and>
     (\<forall>c\<in>set cs. \<exists>tc ch. conns w c = Some tc \<and> channels w (m_channel tc) = Some ch \<and> P tc ch)"

definition callable :: "tcpconn \<Rightarrow> channel \<Rightarrow> bool" where
  "callable tc ch \<longleftrightarrow> (m_state tc = kConnected \<longrightarrow> m_connectionCallback tc \<noteq> None)"

definition removed :: "tcpconn \<Rightarrow> channel \<Rightarrow> bool" where
  "removed tc ch \<longleftrightarrow> m_index ch = kNew"

lemma owns_conns_Nil [simp]: "owns_conns P w [] \<longleftrightarrow> ep_inv w"
  by (simp add: owns_conns_def)

lemma owns_conns_ep: "owns_conns P w cs \<Longrightarrow> ep_inv w"
  by (simp add: owns_conns_def)

lemma owns_connsD:
  "owns_conns P w cs \<Longrightarrow> c \<in> set cs \<Longrightarrow> \<exists>tc ch. conns w c = Some tc \<and> channels w (m_channel tc) = Some ch \<and> P tc ch"
  by (simp add: owns_conns_def)

lemma owns_conns_Cons:
  "owns_conns P w (c # cs) \<longleftrightarrow> c \<notin> set cs \<and> (\<forall>d\<in>set cs. conn_channel w d \<noteq> conn_channel w c) \<and>
     (\<exists>tc ch. conns w c = Some tc \<and> channels w (m_channel tc) = Some ch \<and> P tc ch) \<and> owns_conns P w cs"
proof (cases "c \<in> set cs")
  case False
  then have "inj_on (conn_channel w) (set (c # cs)) \<longleftrightarrow>
      inj_on (conn_channel w) (set cs) \<and> (\<forall>d\<in>set cs. conn_channel w d \<noteq> conn_channel w c)"
    by (auto simp: image_iff)
  moreover define Q where "Q d \<longleftrightarrow> (\<exists>tc ch. conns w d = Some tc \<and> channels w (m_channel tc) = Some ch \<and> P tc ch)" for d
  ultimately show ?thesis using False unfolding owns_conns_def Q_def [symmetric] by auto
qed (simp add: owns_conns_def)

lemma owns_conns_one: "owns_conns P w (c # cs) \<Longrightarrow> owns_conns P w [c]"
  by (auto simp: owns_conns_def)

text \<open>Only the worlds' connections and channels matter, and only those of \<open>cs\<close>.\<close>

lemma owns_conns_frame:
  assumes "owns_conns P w cs" and "ep_inv w'" and "\<And>c. c \<in> set cs \<Longrightarrow> conns w' c = conns w c"
    and "\<And>c. c \<in> set cs \<Longrightarrow> channels w' (conn_channel w c) = channels w (conn_channel w c)"
  shows "owns_conns P w' cs"
proof -
  have "inj_on (conn_channel w') (set cs) \<longleftrightarrow> inj_on (conn_channel w) (set cs)"
    by (rule inj_on_cong) (simp add: assms(3))
  moreover have "\<exists>tc ch. conns w' c = Some tc \<and> channels w' (m_channel tc) = Some ch \<and> P tc ch" if d: "c \<in> set cs" for c
  proof -
    obtain tc ch where "conns w c = Some tc" "channels w (m_channel tc) = Some ch" "P tc ch"
      using owns_connsD [OF assms(1) d] by blast
    then show ?thesis using assms(3,4) [OF d] by simp
  qed
  ultimately show ?thesis using assms(1,2) by (simp add: owns_conns_def)
qed

text \<open>\<open>wiped w cs l w'\<close>: the connections \<open>cs\<close> of \<open>w\<close> are gone in \<open>w'\<close> with their channels and references, \<open>l\<close> is what the
  outside saw, and everything else is as it was.\<close>

definition wiped :: "'a world_scheme \<Rightarrow> nat list \<Rightarrow> netev list \<Rightarrow> 'b world_scheme \<Rightarrow> bool" where
  "wiped w cs l w' \<longleftrightarrow> ep_inv w' \<and> conns w' = (\<lambda>d. if d \<in> set cs then None else conns w d) \<and>
     channels w' = (\<lambda>a. if a \<in> conn_channel w ` set cs then None else channels w a) \<and>
     refs w' = (\<lambda>d. if d \<in> set cs then 0 else refs w d) \<and> netlog w' = netlog w @ l \<and>
     m_pendingFunctors w' = m_pendingFunctors w \<and> m_threadId w' = m_threadId w"

lemma wiped_Nil: "ep_inv w \<Longrightarrow> wiped w [] [] w"
  by (simp add: wiped_def)

lemma wiped_Cons:
  assumes w1: "wiped w [c] l w1" and w2: "wiped w1 cs l' w2" and c: "c \<notin> set cs"
  shows "wiped w (c # cs) (l @ l') w2"
proof -
  have "conn_channel w1 d = conn_channel w d" if "d \<in> set cs" for d using w1 c that by (auto simp: wiped_def)
  then have "conn_channel w1 ` set cs = conn_channel w ` set cs" by (intro image_cong) simp_all
  then show ?thesis using w1 w2 by (auto simp: wiped_def fun_eq_iff)
qed

lemma owns_conns_wiped:
  assumes "owns_conns P w (c # cs)" and "wiped w [c] l w'"
  shows "owns_conns P w' cs"
proof (rule owns_conns_frame)
  show "owns_conns P w cs" using assms(1) by (simp add: owns_conns_Cons)
  show "ep_inv w'" using assms(2) by (simp add: wiped_def)
  have "c \<notin> set cs" "\<forall>d\<in>set cs. conn_channel w d \<noteq> conn_channel w c" using assms(1) by (simp_all add: owns_conns_Cons)
  then show "conns w' d = conns w d" "channels w' (conn_channel w d) = channels w (conn_channel w d)"
    if "d \<in> set cs" for d
    using assms(2) that by (auto simp: wiped_def)
qed

lemma release_shared:
  assumes "refs w c = Suc (Suc r)"
  shows "release_conn c w = Inr (w\<lparr>refs := (refs w)(c := Suc r)\<rparr>)"
  using assms by (simp add: release_conn_def)

lemma release_wiped:
  assumes o: "owns_conns removed w [c]" and r: "refs w c = 1"
  shows "\<exists>w'. release_conn c w = Inr w' \<and> wiped w [c] [NetClose (tc_sockfd (the (conns w c)))] w' \<and> world.more w' = world.more w"
proof -
  obtain tc ch where c: "conns w c = Some tc" "channels w (m_channel tc) = Some ch" "m_index ch = kNew" "ep_inv w"
    using o owns_conns_ep [OF o] by (auto simp: owns_conns_Cons removed_def)
  let ?w = "w\<lparr>refs := (refs w)(c := 0)\<rparr>"
  let ?w' = "Socket_dtor (tc_sockfd tc) (Channel_delete (m_channel tc) (?w\<lparr>conns := (conns w)(c := None)\<rparr>))"
  have "ep_inv ?w'"
    using delete_ok [OF c(4,2,3)] ep_inv_same [of ?w' "Channel_delete (m_channel tc) w"]
    by (simp add: Channel_delete_def Socket_dtor_def)
  moreover have "release_conn c w = Inr ?w'" using c r by (simp add: release_conn_def TcpConnection_dtor_def Conn_at_def)
  ultimately show ?thesis using c(1)
    by (intro exI [of _ ?w']) (auto simp: wiped_def Channel_delete_def Socket_dtor_def fun_eq_iff)
qed

section \<open>The functors of one loop\<close>

lemma run_destroyed:
  assumes o: "owns_conns callable w [c]" and k: "kernel_accepts (e_ctl E)" and q: "user_quiet (e_user E)"
  shows "\<exists>w' ch'. srv_run E L (FDestroyed c) w = Inr w' \<and> ep_inv w' \<and>
    conns w' = (conns w)(c \<mapsto> down (the (conns w c))) \<and> channels w' = (channels w)(conn_channel w c \<mapsto> ch') \<and>
    m_index ch' = kNew \<and> refs w' = refs w \<and> netlog w' = netlog w @ farewell c (the (conns w c)) \<and> same_rest w w'"
proof -
  obtain tc ch where c: "conns w c = Some tc" "channels w (m_channel tc) = Some ch" "ep_inv w"
    "m_state tc = kConnected \<Longrightarrow> m_connectionCallback tc \<noteq> None"
    using o owns_conns_ep [OF o] by (auto simp: owns_conns_Cons callable_def)
  have u: "\<exists>ss. srv_user E L (UConnection c False) w = Inr (w\<lparr>strings := ss\<rparr>)" for w
    using q by (simp add: srv_user_def user_quiet_def)
  have r: "srv_run E L (FDestroyed c) = TcpConnection_connectDestroyed (e_ctl E) (srv_user E L) c"
    by (simp add: srv_run_def fun_eq_iff)
  show ?thesis
  proof (cases "m_state tc = kConnected")
    case True
    then obtain f where "m_connectionCallback tc = Some f" using c(4) by blast
    then show ?thesis
      using connectDestroyed_connected [OF c(3,1,2) k True, where f = f and user = "srv_user E L"] u c(1) by (simp add: r)
  next
    case False
    then show ?thesis using connectDestroyed_other [OF c(3,1,2) k False, of "srv_user E L"] c(1)
      by (auto simp: r intro!: exI [of _ "ch\<lparr>m_index := kNew\<rparr>"])
  qed
qed

lemma run_all_destroyed:
  assumes "owns_conns callable w cs" and k: "kernel_accepts (e_ctl E)" and q: "user_quiet (e_user E)"
  shows "\<exists>w'. run_functors (srv_run E L) (map FDestroyed cs) w = Inr w' \<and> owns_conns removed w' cs \<and> refs w' = refs w \<and>
    conns w' = (\<lambda>d. if d \<in> set cs then map_option down (conns w d) else conns w d) \<and>
    (\<forall>a. a \<notin> conn_channel w ` set cs \<longrightarrow> channels w' a = channels w a) \<and>
    netlog w' = netlog w @ concat (map (\<lambda>c. farewell c (the (conns w c))) cs) \<and> same_rest w w'"
  using assms(1)
proof (induction cs arbitrary: w)
  case Nil
  then show ?case by (simp add: same_rest_def)
next
  case (Cons c cs)
  then obtain tc ch where c: "conns w c = Some tc" "channels w (m_channel tc) = Some ch" "c \<notin> set cs"
    "\<forall>d\<in>set cs. conn_channel w d \<noteq> m_channel tc" "owns_conns callable w cs" by (auto simp: owns_conns_Cons)
  from run_destroyed [OF owns_conns_one [OF Cons.prems] k q, of L] obtain w1 ch1 where w1: "srv_run E L (FDestroyed c) w = Inr w1" "ep_inv w1"
    "conns w1 = (conns w)(c \<mapsto> down tc)" "channels w1 = (channels w)(m_channel tc \<mapsto> ch1)" "m_index ch1 = kNew"
    "refs w1 = refs w" "netlog w1 = netlog w @ farewell c tc" "same_rest w w1" using c(1) by auto
  have ch: "conn_channel w1 ` set cs = conn_channel w ` set cs" using w1(3) c(3) by (intro image_cong) auto
  have o1: "owns_conns callable w1 cs"
    using c(3,4) w1(3,4) by (intro owns_conns_frame [OF c(5) w1(2)]) auto
  from Cons.IH [OF o1] obtain w2 where w2: "run_functors (srv_run E L) (map FDestroyed cs) w1 = Inr w2"
    "owns_conns removed w2 cs" "refs w2 = refs w1" "conns w2 = (\<lambda>d. if d \<in> set cs then map_option down (conns w1 d) else conns w1 d)"
    "\<forall>a. a \<notin> conn_channel w1 ` set cs \<longrightarrow> channels w2 a = channels w1 a"
    "netlog w2 = netlog w1 @ concat (map (\<lambda>c. farewell c (the (conns w1 c))) cs)" "same_rest w1 w2" by blast
  have ch2: "conn_channel w2 d = conn_channel w d" if d: "d \<in> set cs" for d
  proof -
    obtain td where "conns w d = Some td" using owns_connsD [OF c(5) d] by blast
    moreover have "d \<noteq> c" using d c(3) by blast
    ultimately show ?thesis using w2(4) w1(3) d by simp
  qed
  have f: "map (\<lambda>c. farewell c (the (conns w1 c))) cs = map (\<lambda>c. farewell c (the (conns w c))) cs" using w1(3) c(3) by auto
  have "m_channel tc \<notin> conn_channel w ` set cs"
  proof
    assume "m_channel tc \<in> conn_channel w ` set cs"
    then obtain d where "d \<in> set cs" "conn_channel w d = m_channel tc" by (elim imageE) simp
    then show False using c(4) by simp
  qed
  then have "channels w2 (m_channel tc) = channels w1 (m_channel tc)" using spec [OF w2(5), of "m_channel tc"] unfolding ch by blast
  then have cc: "conns w2 c = Some (down tc)" "channels w2 (m_channel tc) = Some ch1" using w1(3,4) w2(4) c(3) by simp_all
  have "\<forall>d\<in>set cs. conn_channel w2 d \<noteq> m_channel tc" using ch2 c(4) by simp
  then have "owns_conns removed w2 (c # cs)" using w1(5) w2(2) c(3) cc by (simp add: owns_conns_Cons removed_def)
  moreover have "conns w2 = (\<lambda>d. if d \<in> set (c # cs) then map_option down (conns w d) else conns w d)"
    using w1(3) w2(4) c by (auto simp: fun_eq_iff)
  moreover have "netlog w2 = netlog w @ concat (map (\<lambda>c. farewell c (the (conns w c))) (c # cs))"
    using w2(6) w1(7) c(1) unfolding f by simp
  moreover have "\<forall>a. a \<notin> conn_channel w ` set (c # cs) \<longrightarrow> channels w2 a = channels w a" using w2(5) w1(4) c(1) unfolding ch by simp
  ultimately show ?case using w1(1,6) w2(1,3) same_rest_trans [OF w1(8) w2(7)] by simp
qed

lemma drop_all_destroyed:
  assumes "owns_conns removed w cs" and "\<forall>c\<in>set cs. refs w c = 1"
  shows "\<exists>w'. run_functors (srv_drop L) (map FDestroyed cs) w = Inr w' \<and> world.more w' = world.more w \<and>
    wiped w cs (map (\<lambda>c. NetClose (tc_sockfd (the (conns w c)))) cs) w'"
  using assms
proof (induction cs arbitrary: w)
  case Nil
  then show ?case by (simp add: wiped_Nil)
next
  case (Cons c cs)
  have c: "owns_conns removed w [c]" "c \<notin> set cs" "refs w c = 1"
    using Cons.prems owns_conns_one [OF Cons.prems(1)] by (simp_all add: owns_conns_def)
  obtain w1 where w1: "release_conn c w = Inr w1" "wiped w [c] [NetClose (tc_sockfd (the (conns w c)))] w1"
    "world.more w1 = world.more w" using release_wiped [OF c(1,3)] by blast
  have "\<forall>d\<in>set cs. refs w1 d = 1" using w1(2) Cons.prems(2) c(2) by (auto simp: wiped_def)
  with Cons.IH [OF owns_conns_wiped [OF Cons.prems(1) w1(2)]] obtain w2 where w2:
    "run_functors (srv_drop L) (map FDestroyed cs) w1 = Inr w2" "world.more w2 = world.more w1"
    "wiped w1 cs (map (\<lambda>c. NetClose (tc_sockfd (the (conns w1 c)))) cs) w2" by blast
  have "map (\<lambda>c. NetClose (tc_sockfd (the (conns w1 c)))) cs = map (\<lambda>c. NetClose (tc_sockfd (the (conns w c)))) cs"
    using w1(2) c(2) by (auto simp: wiped_def)
  then have "wiped w (c # cs) (map (\<lambda>c. NetClose (tc_sockfd (the (conns w c)))) (c # cs)) w2"
    using wiped_Cons [OF w1(2) w2(3) c(2)] unfolding list.map append_Cons append_Nil by metis
  then show ?case using w1 w2 by (simp add: srv_drop_def)
qed

text \<open>A loop whose queue holds just the destruction of its connections.\<close>

lemma srv_pending_wipes:
  assumes o: "owns_conns callable (loops s L) cs" and r: "\<forall>c\<in>set cs. refs (loops s L) c = 1"
    and p: "m_pendingFunctors (loops s L) = map FDestroyed cs"
    and k: "kernel_accepts (e_ctl E)" and q: "user_quiet (e_user E)"
  shows "\<exists>s' w. srv_pending E L s = Inr s' \<and> w = loops s' L \<and> ep_inv w \<and> m_pendingFunctors w = [] \<and>
    (\<forall>c\<in>set cs. conns w c = None \<and> refs w c = 0 \<and> channels w (conn_channel (loops s L) c) = None) \<and>
    netlog w = netlog (loops s L) @ concat (map (\<lambda>c. farewell c (the (conns (loops s L) c))) cs) @
      map (\<lambda>c. NetClose (tc_sockfd (the (conns (loops s L) c)))) cs"
proof -
  let ?v = "loops s L" and ?w = "swapped (enter L s)"
  have "owns_conns callable ?w cs"
    using ep_inv_same [of ?w ?v] owns_conns_ep [OF o] by (intro owns_conns_frame [OF o]) simp_all
  from run_all_destroyed [OF this k q, of L] obtain w1 where w1:
    "run_functors (srv_run E L) (map FDestroyed cs) ?w = Inr w1" "owns_conns removed w1 cs" "refs w1 = refs ?v"
    "conns w1 = (\<lambda>d. if d \<in> set cs then map_option down (conns ?v d) else conns ?v d)"
    "netlog w1 = netlog ?v @ concat (map (\<lambda>c. farewell c (the (conns ?v c))) cs)" "same_rest ?w w1"
    by (auto cong: if_cong)
  let ?w1 = "w1\<lparr>m_callingPendingFunctors := False\<rparr>"
  have "owns_conns removed ?w1 cs"
    using ep_inv_same [of ?w1 w1] owns_conns_ep [OF w1(2)] by (intro owns_conns_frame [OF w1(2)]) simp_all
  from drop_all_destroyed [OF this, of L] obtain w2 where w2:
    "run_functors (srv_drop L) (map FDestroyed cs) ?w1 = Inr w2" "world.more w2 = world.more w1"
    "wiped ?w1 cs (map (\<lambda>c. NetClose (tc_sockfd (the (conns w1 c)))) cs) w2" using r w1(3) by auto
  have d: "tc_sockfd (the (conns w1 c)) = tc_sockfd (the (conns ?v c)) \<and> conn_channel w1 c = conn_channel ?v c"
    if c: "c \<in> set cs" for c
  proof -
    obtain tc where "conns ?v c = Some tc" using owns_connsD [OF o c] by blast
    then show ?thesis using w1(4) c by simp
  qed
  have "srv_pending E L s = Inr (leave L w2)"
    using p w1(1) w2(1) by (simp add: srv_pending_def at_loop_def EventLoop_doPendingFunctors_def pending_swap_def)
  moreover have "\<forall>c\<in>set cs. conns w2 c = None \<and> refs w2 c = 0 \<and> channels w2 (conn_channel ?v c) = None"
  proof
    fix c assume c: "c \<in> set cs"
    then have "conn_channel ?v c \<in> conn_channel ?w1 ` set cs" using d [OF c] by (intro image_eqI [of _ _ c]) simp_all
    then show "conns w2 c = None \<and> refs w2 c = 0 \<and> channels w2 (conn_channel ?v c) = None"
      using w2(3) c unfolding wiped_def by simp
  qed
  moreover have "netlog w2 = netlog ?v @ concat (map (\<lambda>c. farewell c (the (conns ?v c))) cs) @
      map (\<lambda>c. NetClose (tc_sockfd (the (conns ?v c)))) cs"
    using w2(3) w1(5) d by (simp add: wiped_def)
  moreover have "ep_inv (world.truncate w2)" "m_pendingFunctors w2 = []"
    using w2(3) w1(6) ep_inv_same [of "world.truncate w2" w2] by (simp_all add: wiped_def same_rest_def)
  ultimately show ?thesis by (intro exI [of _ "leave L w2"] exI [of _ "world.truncate w2"]) simp
qed

section \<open>The server's destructor\<close>

text \<open>One round of the destructor's loop, as the code has it.\<close>

definition destroy_one :: "env \<Rightarrow> int \<Rightarrow> string \<Rightarrow> nat \<Rightarrow> srv \<Rightarrow> srv res" where
  "destroy_one E tid name c s =
     (let s = s\<lparr>m_connections := (m_connections s)(name := None)\<rparr> in
      rbind (srv_runInLoop E (home s c) tid (FDestroyed c) (srv_acquire c s)) (srv_release c))"

lemma destroy_connections_step:
  "m_connections s name = Some c \<Longrightarrow>
    destroy_connections E tid (name # names) s = rbind (destroy_one E tid name c s) (destroy_connections E tid names)"
  by (simp add: destroy_one_def Let_def rbind_assoc)

lemma destroy_one_elsewhere:
  assumes L: "home s c = L" and t: "\<not> in_thread L tid s" and r: "refs (loops s L) c = 1"
  shows "destroy_one E tid name c s = Inr (s\<lparr>m_connections := (m_connections s)(name := None),
    loops := (loops s)(L := EventLoop_queueInLoop tid (FDestroyed c) (loops s L))\<rparr>)"
proof -
  let ?w = "EventLoop_queueInLoop tid (FDestroyed c) (acquire c (loops s L))"
  have "refs ?w c = Suc (Suc 0)" using r by (simp add: acquire_def)
  moreover have "?w\<lparr>refs := (refs ?w)(c := Suc 0)\<rparr> = EventLoop_queueInLoop tid (FDestroyed c) (loops s L)"
  proof -
    have "(refs (loops s L))(c := Suc 0) = refs (loops s L)" using r by (auto simp: fun_eq_iff)
    then show ?thesis
      by (simp add: acquire_def EventLoop_queueInLoop_def queue_push_def queue_notify_def EventLoop_wakeUp_def
          EventLoop_isInLoopThread_def)
  qed
  ultimately show ?thesis using L t
    by (simp add: destroy_one_def srv_runInLoop_def in_thread_def EventLoop_isInLoopThread_def srv_acquire_eq srv_queue_eq
        srv_release_eq release_shared)
qed

lemma destroy_one_here:
  assumes o: "owns_conns callable (loops s L) [c]" and r: "refs (loops s L) c = 1" and L: "home s c = L"
    and t: "in_thread L tid s" and k: "kernel_accepts (e_ctl E)" and q: "user_quiet (e_user E)"
  shows "\<exists>w'. destroy_one E tid name c s = Inr (s\<lparr>m_connections := (m_connections s)(name := None), loops := (loops s)(L := w')\<rparr>) \<and>
    wiped (loops s L) [c] (farewell c (the (conns (loops s L) c)) @ [NetClose (tc_sockfd (the (conns (loops s L) c)))]) w'"
proof -
  let ?v = "loops s L" and ?s = "srv_acquire c (s\<lparr>m_connections := (m_connections s)(name := None)\<rparr>)"
  have s: "loops ?s = (loops s)(L := acquire c ?v)" "home ?s c = L" using L by (simp_all add: srv_acquire_eq)
  have "owns_conns callable (enter L ?s) [c]"
    using ep_inv_same [of "enter L ?s" ?v] owns_conns_ep [OF o] s(1) by (intro owns_conns_frame [OF o]) simp_all
  from run_destroyed [OF this k q, of L] obtain w1 ch1 where w1: "srv_run E L (FDestroyed c) (enter L ?s) = Inr w1" "ep_inv w1"
    "conns w1 = (conns ?v)(c \<mapsto> down (the (conns ?v c)))" "channels w1 = (channels ?v)(conn_channel ?v c \<mapsto> ch1)"
    "m_index ch1 = kNew" "refs w1 = refs (acquire c ?v)" "netlog w1 = netlog ?v @ farewell c (the (conns ?v c))"
    "same_rest (enter L ?s) w1" using s(1) by auto
  let ?w1 = "w1\<lparr>refs := refs ?v\<rparr>"
  have rel: "release_conn c w1 = Inr ?w1"
  proof -
    have "(refs w1)(c := Suc 0) = refs ?v" using w1(6) r by (auto simp: acquire_def fun_eq_iff)
    then show ?thesis using release_shared [of w1 c 0] w1(6) r by (simp add: acquire_def)
  qed
  have more: "world.more w1 = ?s" "m_pendingFunctors w1 = m_pendingFunctors ?v" "m_threadId w1 = m_threadId ?v"
    using w1(8) s(1) by (simp_all add: same_rest_def)
  let ?u = "world.truncate ?w1"
  have "owns_conns removed ?u [c]" "refs ?u c = 1"
    using w1 r ep_inv_same [of ?u w1] by (simp_all add: owns_conns_Cons removed_def)
  from release_wiped [OF this] obtain w2 where w2: "release_conn c ?u = Inr w2"
    "wiped ?u [c] [NetClose (tc_sockfd (the (conns ?u c)))] w2" by blast
  have "srv_runInLoop E L tid (FDestroyed c) ?s = Inr (?s\<lparr>loops := (loops ?s)(L := ?u)\<rparr>)"
    using t s(1) w1(1) rel more(1)
    by (simp add: srv_runInLoop_def in_thread_def EventLoop_isInLoopThread_def at_loop_def srv_drop_def leave_def)
  then have "destroy_one E tid name c s = Inr (s\<lparr>m_connections := (m_connections s)(name := None), loops := (loops s)(L := w2)\<rparr>)"
    using L w2(1) s by (simp add: destroy_one_def srv_release_eq srv_acquire_eq)
  moreover have "wiped ?v [c] (farewell c (the (conns ?v c)) @ [NetClose (tc_sockfd (the (conns ?v c)))]) w2"
    using w2(2) w1(3,4,7) more(2,3) by (auto simp: wiped_def fun_eq_iff)
  ultimately show ?thesis by blast
qed

text \<open>What the destructor says of the connections it destroys itself.\<close>

definition closing_log :: "'a world_scheme \<Rightarrow> nat list \<Rightarrow> netev list" where
  "closing_log w cs = concat (map (\<lambda>c. farewell c (the (conns w c)) @ [NetClose (tc_sockfd (the (conns w c)))]) cs)"

definition queue_destroyed :: "int \<Rightarrow> nat list \<Rightarrow> 'a world_scheme \<Rightarrow> 'a world_scheme" where
  "queue_destroyed tid cs = fold (\<lambda>c. EventLoop_queueInLoop tid (FDestroyed c)) cs"

lemma queue_destroyed_simps [simp]:
  "queue_destroyed tid [] w = w"
  "queue_destroyed tid (c # cs) w = queue_destroyed tid cs (EventLoop_queueInLoop tid (FDestroyed c) w)"
  by (simp_all add: queue_destroyed_def)

lemma queue_destroyed_sel [simp]:
  "conns (queue_destroyed tid cs w) = conns w" "channels (queue_destroyed tid cs w) = channels w"
  "m_channel_map (queue_destroyed tid cs w) = m_channel_map w" "ctlLog (queue_destroyed tid cs w) = ctlLog w"
  "refs (queue_destroyed tid cs w) = refs w" "netlog (queue_destroyed tid cs w) = netlog w"
  "m_pendingFunctors (queue_destroyed tid cs w) = m_pendingFunctors w @ map FDestroyed cs"
  by (induction cs arbitrary: w) simp_all

lemma owns_conns_same:
  assumes "owns_conns P w cs" and "channels w' = channels w" and "m_channel_map w' = m_channel_map w"
    and "ctlLog w' = ctlLog w" and "conns w' = conns w"
  shows "owns_conns P w' cs"
  using owns_conns_frame [OF assms(1), of w'] owns_conns_ep [OF assms(1)] ep_inv_same [of w' w] assms(2-5) by simp

text \<open>A server with the connections \<open>cs\<close> under \<open>names\<close>: each is alive in its loop, with a channel of its own, and
  referred to by the map only.\<close>

definition serves :: "srv \<Rightarrow> string list \<Rightarrow> nat list \<Rightarrow> bool" where
  "serves s names cs \<longleftrightarrow> distinct names \<and> distinct cs \<and> map (m_connections s) names = map Some cs \<and>
     (\<forall>L. owns_conns callable (loops s L) (filter (\<lambda>c. home s c = L) cs)) \<and> (\<forall>c\<in>set cs. refs (loops s (home s c)) c = 1)"

abbreviation of_loop :: "srv \<Rightarrow> addr \<Rightarrow> nat list \<Rightarrow> nat list" where
  "of_loop s L \<equiv> filter (\<lambda>c. home s c = L)"

lemma serves_Cons:
  assumes "serves s (name # names) (c # cs)"
  shows "m_connections s name = Some c" "c \<notin> set cs" "name \<notin> set names" "refs (loops s (home s c)) c = 1"
    "owns_conns callable (loops s (home s c)) (c # of_loop s (home s c) cs)"
  using assms by (auto simp: serves_def dest: spec [of _ "home s c"])

text \<open>One round: the connection is wiped out of the base loop or its destruction is queued in its own.\<close>

lemma destroy_one_ok:
  assumes s: "serves s (name # names) (c # cs)" and t: "in_thread B tid s" "\<And>L. L \<noteq> B \<Longrightarrow> \<not> in_thread L tid s"
    and k: "kernel_accepts (e_ctl E)" and q: "user_quiet (e_user E)"
  shows "\<exists>s' w. destroy_one E tid name c s = Inr s' \<and> serves s' names cs \<and>
    s' = s\<lparr>m_connections := (m_connections s)(name := None), loops := (loops s)(home s c := w)\<rparr> \<and>
    m_threadId w = m_threadId (loops s (home s c)) \<and>
    (if home s c = B then wiped (loops s B) [c] (closing_log (loops s B) [c]) w
     else w = EventLoop_queueInLoop tid (FDestroyed c) (loops s (home s c)))"
proof -
  let ?L = "home s c"
  note c = serves_Cons [OF s]
  obtain w where w: "destroy_one E tid name c s = Inr (s\<lparr>m_connections := (m_connections s)(name := None), loops := (loops s)(?L := w)\<rparr>)"
    "if ?L = B then wiped (loops s B) [c] (closing_log (loops s B) [c]) w else w = EventLoop_queueInLoop tid (FDestroyed c) (loops s ?L)"
    using destroy_one_here [OF owns_conns_one [OF c(5)] c(4) refl _ k q, of tid name]
      destroy_one_elsewhere [OF refl _ c(4), of tid E name] t by (cases "?L = B") (auto simp: closing_log_def)
  have o: "owns_conns callable (loops s ?L) (of_loop s ?L cs)" using c(5) by (simp add: owns_conns_Cons)
  have W: "owns_conns callable w (of_loop s ?L cs)" "\<And>d. d \<noteq> c \<Longrightarrow> refs w d = refs (loops s ?L) d" "m_threadId w = m_threadId (loops s ?L)"
    using w(2) owns_conns_wiped [OF c(5), of "closing_log (loops s B) [c]" w] owns_conns_same [OF o, of w]
    by (auto simp: wiped_def split: if_splits)
  let ?s = "s\<lparr>m_connections := (m_connections s)(name := None), loops := (loops s)(?L := w)\<rparr>"
  have "owns_conns callable (loops ?s M) (of_loop ?s M cs)" for M
    using W(1) s by (cases "M = ?L") (auto simp: serves_def dest: spec [of _ M])
  moreover have "map (m_connections ?s) names = map Some cs" using s c(3) by (auto simp: serves_def)
  moreover have "\<forall>d\<in>set cs. refs (loops ?s (home ?s d)) d = 1"
  proof
    fix d assume d: "d \<in> set cs"
    then have "d \<noteq> c" "refs (loops s (home s d)) d = 1" using c(2) s by (auto simp: serves_def)
    then show "refs (loops ?s (home ?s d)) d = 1" using W(2) by (cases "home s d = ?L") simp_all
  qed
  ultimately have "serves ?s names cs" using s by (simp add: serves_def)
  then show ?thesis using w W(3) by auto
qed

lemma closing_log_Cons: "closing_log w (c # cs) = closing_log w [c] @ closing_log w cs"
  by (simp add: closing_log_def)

lemma closing_log_cong: "(\<And>c. c \<in> set cs \<Longrightarrow> conns w' c = conns w c) \<Longrightarrow> closing_log w' cs = closing_log w cs"
  unfolding closing_log_def by (intro arg_cong [of _ _ concat] map_cong) simp_all

lemma destroy_connections_ok:
  assumes "serves s names cs" and "in_thread B tid s" and "\<And>L. L \<noteq> B \<Longrightarrow> \<not> in_thread L tid s"
    and k: "kernel_accepts (e_ctl E)" and q: "user_quiet (e_user E)"
  shows "\<exists>ls. destroy_connections E tid names s =
      Inr (s\<lparr>m_connections := (\<lambda>n. if n \<in> set names then None else m_connections s n), loops := ls\<rparr>) \<and>
    wiped (loops s B) (of_loop s B cs) (closing_log (loops s B) (of_loop s B cs)) (ls B) \<and>
    (\<forall>L. L \<noteq> B \<longrightarrow> ls L = queue_destroyed tid (of_loop s L cs) (loops s L))"
  using assms(1-3)
proof (induction names arbitrary: cs s)
  case Nil
  then have "ep_inv (loops s B)" "cs = []" using owns_conns_ep by (auto simp: serves_def)
  then show ?case by (intro exI [of _ "loops s"]) (simp add: closing_log_def wiped_Nil)
next
  case (Cons name names)
  then obtain c cs' where cs: "cs = c # cs'" by (cases cs) (auto simp: serves_def)
  let ?L = "home s c"
  note c = serves_Cons [OF Cons.prems(1) [unfolded cs]]
  obtain s' w where s': "destroy_one E tid name c s = Inr s'" "serves s' names cs'"
    "s' = s\<lparr>m_connections := (m_connections s)(name := None), loops := (loops s)(?L := w)\<rparr>"
    "m_threadId w = m_threadId (loops s ?L)"
    "if ?L = B then wiped (loops s B) [c] (closing_log (loops s B) [c]) w
     else w = EventLoop_queueInLoop tid (FDestroyed c) (loops s ?L)"
    using destroy_one_ok [OF Cons.prems(1) [unfolded cs] Cons.prems(2,3) k q] by blast
  have th: "in_thread M tid s' \<longleftrightarrow> in_thread M tid s" for M
    using s'(3,4) by (simp add: in_thread_def EventLoop_isInLoopThread_def)
  obtain ls where ls: "destroy_connections E tid names s' =
      Inr (s'\<lparr>m_connections := (\<lambda>n. if n \<in> set names then None else m_connections s' n), loops := ls\<rparr>)"
    "wiped (loops s' B) (of_loop s B cs') (closing_log (loops s' B) (of_loop s B cs')) (ls B)"
    "\<forall>L. L \<noteq> B \<longrightarrow> ls L = queue_destroyed tid (of_loop s L cs') (loops s' L)"
    using Cons.IH [OF s'(2)] Cons.prems(2,3) th s'(3) by auto
  have "destroy_connections E tid (name # names) s =
      Inr (s\<lparr>m_connections := (\<lambda>n. if n \<in> set (name # names) then None else m_connections s n), loops := ls\<rparr>)"
  proof -
    have "(\<lambda>n. if n \<in> set names then None else m_connections s' n) =
        (\<lambda>n. if n \<in> set (name # names) then None else m_connections s n)" using s'(3) by auto
    then show ?thesis using ls(1) s'(1,3) unfolding destroy_connections_step [OF c(1)] by simp
  qed
  moreover have "wiped (loops s B) (of_loop s B cs) (closing_log (loops s B) (of_loop s B cs)) (ls B)"
  proof (cases "?L = B")
    case True
    then have w: "wiped (loops s B) [c] (closing_log (loops s B) [c]) w" using s'(5) by simp
    have "closing_log w (of_loop s B cs') = closing_log (loops s B) (of_loop s B cs')"
      using w c(2) by (intro closing_log_cong) (auto simp: wiped_def)
    then show ?thesis using wiped_Cons [OF w, of "of_loop s B cs'"] ls(2) True c(2) s'(3)
        closing_log_Cons [of "loops s B" c "of_loop s B cs'"] by (simp add: cs)
  next
    case False
    then show ?thesis using ls(2) s'(3) by (simp add: cs)
  qed
  moreover have "\<forall>L. L \<noteq> B \<longrightarrow> ls L = queue_destroyed tid (of_loop s L cs) (loops s L)"
    using ls(3) s'(3,5) by (auto simp: cs)
  ultimately show ?case by blast
qed

lemma Acceptor_dtor_ok:
  assumes inv: "ep_inv w" and a: "channels w a = Some ch" and k: "kernel_accepts ctl"
  shows "\<exists>w'. Acceptor_dtor ctl a fd w = Inr w' \<and> ep_inv w' \<and> channels w' = (channels w)(a := None) \<and> conns w' = conns w \<and>
    refs w' = refs w \<and> netlog w' = netlog w @ [NetClose fd] \<and> same_rest w w'"
proof -
  obtain w1 ch1 where w1: "Channel_disableAll ctl a w = Inr w1" "ep_inv w1" "channels w1 = (channels w)(a \<mapsto> ch1)"
    "refs w1 = refs w" "poller.more w1 = poller.more w"
    using set_events_ok [OF inv a k, of "\<lambda>_. kNoneEvent"] by (auto simp: Channel_disableAll_def)
  then have "channels w1 a = Some ch1" by simp
  then obtain w2 where w2: "Channel_remove ctl a w1 = Inr w2" "ep_inv w2" "channels w2 = (channels w1)(a \<mapsto> ch1\<lparr>m_index := kNew\<rparr>)"
    "refs w2 = refs w1" "poller.more w2 = poller.more w1"
    using remove_ok [OF w1(2) _ k] by blast
  let ?w3 = "Channel_delete a w2" and ?w4 = "Socket_dtor fd (Channel_delete a w2)"
  have "ep_inv ?w4"
    using delete_ok [OF w2(2), of a] w2(3) ep_inv_same [of ?w4 ?w3] by (simp add: Socket_dtor_def)
  moreover have "same_rest w ?w4"
    using same_rest_poller [of w2 w] w1(5) w2(5) by (simp add: same_rest_def Socket_dtor_def Channel_delete_def)
  ultimately show ?thesis
    using w1 w2 world_more [OF w1(5)] world_more [OF w2(5)]
    by (intro exI [of _ ?w4]) (simp add: Acceptor_dtor_def Socket_dtor_def Channel_delete_def)
qed

text \<open>No pointer in the kernel to a channel that is gone.\<close>

definition no_dangling :: "'a world_scheme \<Rightarrow> bool" where
  "no_dangling w \<longleftrightarrow> (\<forall>fd ev a. interest (ctlLog w) fd = Some (ev, a) \<longrightarrow> channels w a \<noteq> None)"

lemma ep_inv_no_dangling: "ep_inv w \<Longrightarrow> no_dangling w"
  by (auto simp: no_dangling_def ep_inv_interest_iff)

text \<open>What is left of the connections \<open>cs\<close> of the loop \<open>w\<close> in \<open>w'\<close>: nothing.\<close>

definition all_gone :: "world \<Rightarrow> nat list \<Rightarrow> world \<Rightarrow> bool" where
  "all_gone w cs w' \<longleftrightarrow> no_dangling w' \<and>
     (\<forall>c\<in>set cs. conns w' c = None \<and> refs w' c = 0 \<and> channels w' (conn_channel w c) = None)"

text \<open>A loop that finds the destruction of its connections in its queue.\<close>

lemma dtor_elsewhere:
  assumes s: "serves s names cs" and w: "loops s' L = queue_destroyed tid (of_loop s L cs) (loops s L)"
    and p: "m_pendingFunctors (loops s L) = []" and k: "kernel_accepts (e_ctl E)" and q: "user_quiet (e_user E)"
  shows "\<exists>s''. srv_pending E L s' = Inr s'' \<and> all_gone (loops s L) (of_loop s L cs) (loops s'' L) \<and>
    netlog (loops s'' L) = netlog (loops s L) @
      concat (map (\<lambda>c. farewell c (the (conns (loops s L) c))) (of_loop s L cs)) @
      map (\<lambda>c. NetClose (tc_sockfd (the (conns (loops s L) c)))) (of_loop s L cs)"
proof -
  have "owns_conns callable (loops s L) (of_loop s L cs)" using s by (simp add: serves_def)
  then have o: "owns_conns callable (loops s' L) (of_loop s L cs)" unfolding w by (rule owns_conns_same) simp_all
  have r: "\<forall>c\<in>set (of_loop s L cs). refs (loops s' L) c = 1" "m_pendingFunctors (loops s' L) = map FDestroyed (of_loop s L cs)"
    using s p unfolding w by (auto simp: serves_def)
  show ?thesis using srv_pending_wipes [OF o r k q] ep_inv_no_dangling unfolding w by (auto simp: all_gone_def)
qed


text \<open>A server with a connected client in its base loop and a half-closed one in the other loop.\<close>

definition ex_channel :: "int \<Rightarrow> nat \<Rightarrow> channel" where
  "ex_channel fd c = opened (fresh_channel fd c) c"

definition ex_conn :: "string \<Rightarrow> int \<Rightarrow> addr \<Rightarrow> StateE \<Rightarrow> tcpconn" where
  "ex_conn name fd a st = (fresh_conn name fd sockaddr_zero sockaddr_zero a Kfifo_new)\<lparr>m_state := st,
     m_connectionCallback := Some 0, m_messageCallback := Some 0, m_closeCallback := Some 0\<rparr>"

definition ex_base_world :: world where
  "ex_base_world = (idle_world 1)\<lparr>channels := [3 \<mapsto> Channel_new 4, 5 \<mapsto> ex_channel 7 9], m_channel_map := [7 \<mapsto> 5],
     ctlLog := [(EPOLL_CTL_ADD, 7, 3, 5)], refs := (\<lambda>_. 0)(9 := 1), conns := [9 \<mapsto> ex_conn ''s-1'' 7 5 kConnected]\<rparr>"

definition ex_other_world :: world where
  "ex_other_world = (idle_world 2)\<lparr>channels := [6 \<mapsto> ex_channel 8 10], m_channel_map := [8 \<mapsto> 6],
     ctlLog := [(EPOLL_CTL_ADD, 8, 3, 6)], refs := (\<lambda>_. 0)(10 := 1), conns := [10 \<mapsto> ex_conn ''s-2'' 8 6 kDisconnecting]\<rparr>"

definition ex_busy_srv :: srv where
  "ex_busy_srv = ex_srv\<lparr>m_nextConnId := 3, m_connections := [''s-1'' \<mapsto> 9, ''s-2'' \<mapsto> 10],
     home := (\<lambda>c. if c = 9 then 1 else 2),
     loops := (\<lambda>L. idle_world (int L))(1 := ex_base_world, 2 := ex_other_world)\<rparr>"

lemma ex_channel_sel [simp]:
  "m_fd (ex_channel fd c) = fd" "m_index (ex_channel fd c) = kAdded" "m_events (ex_channel fd c) = 3"
  using opened_fresh [of fd c] by (simp_all add: ex_channel_def)
    (simp add: opened_def fresh_channel_def Channel_new_def kReadEvent_def EPOLLIN_def EPOLLPRI_def)

lemma ex_worlds_inv: "ep_inv ex_base_world" "ep_inv ex_other_world" "ep_inv (idle_world tid)"
proof -
  have n: "m_index (Channel_new fd) = kNew" "m_fd (Channel_new fd) = fd" for fd by (simp_all add: Channel_new_def kNew_def)
  show "ep_inv ex_base_world" by (auto simp: ex_base_world_def ep_inv_def idle_world_def interest_def n)
  show "ep_inv ex_other_world" by (auto simp: ex_other_world_def ep_inv_def idle_world_def interest_def)
  show "ep_inv (idle_world tid)" by (simp add: idle_world_def ep_inv_def)
qed

lemma ex_busy_srv_serves: "serves ex_busy_srv [''s-1'', ''s-2''] [9, 10]"
proof -
  have c: "conns ex_base_world 9 = Some (ex_conn ''s-1'' 7 5 kConnected)" "channels ex_base_world 5 = Some (ex_channel 7 9)"
    "conns ex_other_world 10 = Some (ex_conn ''s-2'' 8 6 kDisconnecting)" "channels ex_other_world 6 = Some (ex_channel 8 10)"
    "refs ex_base_world 9 = 1" "refs ex_other_world 10 = 1"
    by (simp_all add: ex_base_world_def ex_other_world_def)
  have o: "owns_conns callable ex_base_world [9]" "owns_conns callable ex_other_world [10]"
    using c ex_worlds_inv by (simp_all add: owns_conns_Cons callable_def ex_conn_def fresh_conn_def)
  have "owns_conns callable (loops ex_busy_srv L) (of_loop ex_busy_srv L [9, 10])" for L
    using o ex_worlds_inv by (simp add: ex_busy_srv_def)
  then show ?thesis using c by (simp add: serves_def) (simp add: ex_busy_srv_def)
qed


end
