(* ===== verification/Server_Machine.thy ===== *)
theory Server_Machine
  imports Conn_Machine Server_Dtor
begin

text \<open>
  The whole server as one machine. Every loop works on its own: it polls, handles the events it got one by
  one, swaps its queue out, runs the functors one by one and destroys them. The steps of all loops
  interleave freely. The invariant follows each connection through its life, from the functor that
  establishes it to the one that destroys it, and accounts for every \<^verbatim>\<open>shared_ptr\<close> to it.
\<close>

section \<open>What the application may do\<close>

text \<open>What holds of a connection and its channel at all times: the callbacks are set, the buffers are in order.\<close>

definition conn_parts :: "nat \<Rightarrow> tcpconn \<Rightarrow> channel \<Rightarrow> bool" where
  "conn_parts c tc ch \<longleftrightarrow> m_connectionCallback tc \<noteq> None \<and> m_messageCallback tc \<noteq> None \<and> m_closeCallback tc \<noteq> None \<and>
     m_writeCompleteCallback tc = None \<and> m_highWaterMarkCallback tc = None \<and> Kfifo_ready (m_inputBuffer tc) \<and> Kfifo_ready (m_outputBuffer tc) \<and> kread (m_outputBuffer tc) = 0 \<and>
     m_fd ch = tc_sockfd tc \<and> m_readCallBack ch = Some (cb_connRead c) \<and> m_writeCallBack ch = Some (cb_connWrite c) \<and>
     m_closeCallBack ch = Some (cb_connClose c) \<and> m_errorCallBack ch = Some (cb_connError c)"

text \<open>An open connection: watched for reading, and for writing exactly while output is queued.\<close>

definition lively :: "tcpconn \<Rightarrow> channel \<Rightarrow> bool" where
  "lively tc ch \<longleftrightarrow> (m_state tc = kConnected \<or> m_state tc = kDisconnecting) \<and> Channel_isReading ch \<and>
     (Channel_isWriting ch \<longleftrightarrow> out_bytes tc \<noteq> []) \<and> m_index ch = kAdded"

text \<open>From \<open>w0\<close> to \<open>w\<close> nothing but connection \<open>c\<close> has changed: it is \<open>tc\<close> now, with channel \<open>ch\<close> and \<open>r\<close> references.\<close>

definition eff :: "nat \<Rightarrow> 'a world_scheme \<Rightarrow> 'a world_scheme \<Rightarrow> tcpconn \<Rightarrow> channel \<Rightarrow> nat \<Rightarrow> bool" where
  "eff c w0 w tc ch r \<longleftrightarrow> ep_inv w \<and> conns w = (conns w0)(c \<mapsto> tc) \<and> channels w = (channels w0)(m_channel tc \<mapsto> ch) \<and>
     refs w = (refs w0)(c := r) \<and> m_pendingFunctors w = m_pendingFunctors w0 \<and> m_threadId w = m_threadId w0 \<and> world.more w = world.more w0"

text \<open>
  The application's callbacks may take bytes out of the input buffer of the connection they are called for and,
  as long as it is open, send on it and shut it down.
\<close>

definition used :: "tcpconn \<Rightarrow> channel \<Rightarrow> tcpconn \<Rightarrow> channel \<Rightarrow> bool" where
  "used tc ch tc' ch' \<longleftrightarrow>
     (\<exists>k st q ev. tc' = tc\<lparr>m_inputBuffer := k, m_state := st, m_outputBuffer := q\<rparr> \<and> ch' = ch\<lparr>m_events := ev\<rparr> \<and>
       Kfifo_ready k \<and> Kfifo_ready q \<and> kread q = 0 \<and> m_state tc \<le> st \<and>
       (m_state tc = kDisconnected \<longrightarrow> st = kDisconnected \<and> q = m_outputBuffer tc \<and> ev = m_events ch)) \<and>
     (m_state tc \<noteq> kDisconnected \<longrightarrow> lively tc' ch')"

definition polite :: "srv user \<Rightarrow> bool" where
  "polite user \<longleftrightarrow> (\<forall>u c w tc ch. (\<forall>d. u \<noteq> UClose d) \<and> call_conn u = c \<and> ep_inv w \<and> conns w c = Some tc \<and>
     channels w (m_channel tc) = Some ch \<and> conn_parts c tc ch \<and> (m_state tc = kDisconnected \<or> lively tc ch) \<longrightarrow>
     (\<exists>w' tc' ch'. user u w = Inr w' \<and> eff c w w' tc' ch' (refs w c) \<and> used tc ch tc' ch'))"

section \<open>The machine\<close>

text \<open>Where a loop is: about to poll, handling events (the channels still to come), running functors (those
  to come and those done), or destroying the functors it ran.\<close>

datatype place =
    AtPoll
  | InEvents "addr list"
  | InFunctors "pfunctor list" "pfunctor list"
  | InDrop "pfunctor list"

record mach =
  server :: srv
  place_of :: "addr \<Rightarrow> place"

definition srv_poll :: "(int \<Rightarrow> int + (u32 \<times> addr) list) \<Rightarrow> timestamp \<Rightarrow> addr \<Rightarrow> srv \<Rightarrow> (addr list \<times> srv) res" where
  "srv_poll wait now L s =
     rbind (EpollPoller_poll wait now ((enter L s)\<lparr>m_activeChannels := []\<rparr>)) (\<lambda>(t, as, w).
     Inr (as, leave L (w\<lparr>m_activeChannels := as, m_pollReturnTime := t\<rparr>)))"

definition srv_swap :: "addr \<Rightarrow> srv \<Rightarrow> pfunctor list \<times> srv" where
  "srv_swap L s =
     (let (functors, w) = pending_swap ((loops s L)\<lparr>m_callingPendingFunctors := True\<rparr>) in
      (functors, s\<lparr>loops := (loops s)(L := w)\<rparr>))"

definition srv_unflag :: "addr \<Rightarrow> srv \<Rightarrow> srv" where
  "srv_unflag L s = s\<lparr>loops := (loops s)(L := (loops s L)\<lparr>m_callingPendingFunctors := False\<rparr>)\<rparr>"

text \<open>
  What is asked of the surroundings in each step. \<^verbatim>\<open>epoll_wait\<close> reports channels in the interest list, each once,
  and not urgent data on a connection that hung up with nothing to read; a full event list can be
  doubled. Timers do not touch the server. A descriptor that \<^verbatim>\<open>accept4\<close> returns and the addresses of a new
  connection and its channel are not in use, its number can still be counted. What a read delivers fits.
\<close>

definition sane :: "u32 \<Rightarrow> bool" where
  "sane r \<longleftrightarrow> (r AND EPOLLHUP \<noteq> 0 \<and> r AND EPOLLIN = 0 \<longrightarrow> r AND EPOLLPRI = 0)"

definition poll_legal :: "(int \<Rightarrow> int + (u32 \<times> addr) list) \<Rightarrow> world \<Rightarrow> bool" where
  "poll_legal wait w \<longleftrightarrow>
     (\<forall>evs. wait (sint (of_nat (m_reventList w) :: u32)) = Inr evs \<longrightarrow>
       (evs \<noteq> [] \<and> length evs = m_reventList w \<longrightarrow> m_reventList w * 2 \<le> revent_max) \<and> distinct (map snd evs) \<and> (\<forall>(ev, a) \<in> set evs. sane ev \<and> (\<exists>fd e. interest (ctlLog w) fd = Some (e, a))))"

definition env_ok :: "env \<Rightarrow> bool" where
  "env_ok E \<longleftrightarrow> kernel_accepts (e_ctl E) \<and> polite (e_user E) \<and> e_alloc E \<and> (\<forall>w. \<exists>ss. e_timers E w = Inr (w\<lparr>strings := ss\<rparr>))"

definition accept_legal :: "env \<Rightarrow> srv \<Rightarrow> bool" where
  "accept_legal E s \<longleftrightarrow>
     (\<forall>fd addr. e_accept E (m_acceptSocket s) = Inr (fd, addr) \<longrightarrow> 
       int32_ok (m_nextConnId s + 1) \<and> (\<forall>M b dh. channels (loops s M) b = Some dh \<longrightarrow> m_fd dh \<noteq> fd) \<and>
       (\<forall>M. conns (loops s M) (fst (e_new E s)) = None \<and> channels (loops s M) (snd (e_new E s)) = None))"

definition event_legal :: "env \<Rightarrow> addr \<Rightarrow> addr \<Rightarrow> srv \<Rightarrow> bool" where
  "event_legal E L a s \<longleftrightarrow> accept_legal E s \<and>
     (\<forall>c tc ch. conns (loops s L) c = Some tc \<and> m_channel tc = a \<and> channels (loops s L) a = Some ch \<longrightarrow> read_fits (e_readv E) tc ch)"

text \<open>A step of loop \<open>L\<close>: the new state, or the failure it ends in.\<close>

inductive mstep :: "mach \<Rightarrow> mach res \<Rightarrow> bool" where
  m_poll: "place_of m L = AtPoll \<Longrightarrow> poll_legal wait (loops (server m) L) \<Longrightarrow>
    mstep m (rbind (srv_poll wait now L (server m)) (\<lambda>(as, s). Inr (m\<lparr>server := s, place_of := (place_of m)(L := InEvents as)\<rparr>)))"
| m_event: "place_of m L = InEvents (a # as) \<Longrightarrow> env_ok E \<Longrightarrow> event_legal E L a (server m) \<Longrightarrow>
    mstep m (rbind (srv_event E L (m_pollReturnTime (loops (server m) L)) a (server m)) (\<lambda>s.
      Inr (m\<lparr>server := s, place_of := (place_of m)(L := InEvents as)\<rparr>)))"
| m_swap: "place_of m L = InEvents [] \<Longrightarrow> srv_swap L (server m) = (fs, s) \<Longrightarrow>
    mstep m (Inr (m\<lparr>server := s, place_of := (place_of m)(L := InFunctors fs [])\<rparr>))"
| m_run: "place_of m L = InFunctors (f # fs) ds \<Longrightarrow> env_ok E \<Longrightarrow>
    mstep m (rbind (at_loop L (srv_run E L f) (server m)) (\<lambda>s.
      Inr (m\<lparr>server := s, place_of := (place_of m)(L := InFunctors fs (ds @ [f]))\<rparr>)))"
| m_ran: "place_of m L = InFunctors [] ds \<Longrightarrow>
    mstep m (Inr (m\<lparr>server := srv_unflag L (server m), place_of := (place_of m)(L := InDrop ds)\<rparr>))"
| m_drop: "place_of m L = InDrop (f # fs) \<Longrightarrow>
    mstep m (rbind (at_loop L (srv_drop L f) (server m)) (\<lambda>s. Inr (m\<lparr>server := s, place_of := (place_of m)(L := InDrop fs)\<rparr>)))"
| m_again: "place_of m L = InDrop [] \<Longrightarrow> mstep m (Inr (m\<lparr>place_of := (place_of m)(L := AtPoll)\<rparr>))"

section \<open>The life of a connection\<close>

fun todo :: "place \<Rightarrow> pfunctor list" where
  "todo (InFunctors fs ds) = fs"
| "todo p = []"

fun finished :: "place \<Rightarrow> pfunctor list" where
  "finished (InFunctors fs ds) = ds"
| "finished (InDrop ds) = ds"
| "finished p = []"

text \<open>The functors of a loop that are still to run, and all that are still alive.\<close>

definition unrun :: "(addr \<Rightarrow> place) \<Rightarrow> srv \<Rightarrow> addr \<Rightarrow> pfunctor list" where
  "unrun at s L = todo (at L) @ m_pendingFunctors (loops s L)"

definition held :: "(addr \<Rightarrow> place) \<Rightarrow> srv \<Rightarrow> addr \<Rightarrow> pfunctor list" where
  "held at s L = finished (at L) @ unrun at s L"

fun about :: "pfunctor \<Rightarrow> nat option" where
  "about (FWriteComplete c f) = Some c"
| "about (FHighWater c f n) = Some c"
| "about (FSend c p n) = Some c"
| "about (FShutdown c) = Some c"
| "about (FEstablished c) = Some c"
| "about (FDestroyed c) = Some c"
| "about (FRemove c) = Some c"
| "about FListen = None"

fun located :: "srv \<Rightarrow> addr \<Rightarrow> pfunctor \<Rightarrow> bool" where
  "located s L (FEstablished c) \<longleftrightarrow> L = home s c"
| "located s L (FDestroyed c) \<longleftrightarrow> L = home s c"
| "located s L (FRemove c) \<longleftrightarrow> L = sv_baseLoop s"
| "located s L f \<longleftrightarrow> False"

definition refers :: "nat \<Rightarrow> pfunctor list \<Rightarrow> nat" where
  "refers c fs = length (filter (\<lambda>f. about f = Some c) fs)"

text \<open>All that matters for one connection.\<close>

record view =
  v_conn :: "tcpconn option"
  v_chan :: "channel option"
  v_refs :: nat
  v_names :: "string set"
  v_own :: nat
  v_est :: nat
  v_rem :: nat
  v_des :: nat

definition view :: "(addr \<Rightarrow> place) \<Rightarrow> srv \<Rightarrow> nat \<Rightarrow> view" where
  "view at s c =
     \<lparr>v_conn = conns (loops s (home s c)) c,
      v_chan = (case conns (loops s (home s c)) c of None \<Rightarrow> None | Some tc \<Rightarrow> channels (loops s (home s c)) (m_channel tc)),
      v_refs = refs (loops s (home s c)) c,
      v_names = {n. m_connections s n = Some c},
      v_own = (\<Sum>M \<in> {home s c, sv_baseLoop s}. refers c (held at s M)),
      v_est = count_list (unrun at s (home s c)) (FEstablished c),
      v_rem = count_list (unrun at s (sv_baseLoop s)) (FRemove c),
      v_des = count_list (unrun at s (home s c)) (FDestroyed c)\<rparr>"

text \<open>
  A connection is being opened until its loop has run \<^verbatim>\<open>connectEstablished\<close>, then open; once closed it waits
  for the base loop to take it out of the map, then for its own loop to run \<^verbatim>\<open>connectDestroyed\<close>; after
  that only functors that have run hold on to it.
\<close>

datatype life = Opening | Open | Removing | Destroying | Destroyed

fun in_life :: "life \<Rightarrow> nat \<Rightarrow> tcpconn \<Rightarrow> channel \<Rightarrow> view \<Rightarrow> bool" where
  "in_life Opening c tc ch v \<longleftrightarrow> m_state tc = kConnecting \<and> m_events ch = 0 \<and> m_index ch = kNew \<and> \<not> m_tied ch \<and> out_bytes tc = [] \<and>
     v_names v = {tc_name tc} \<and> v_est v = 1 \<and> v_rem v = 0 \<and> v_des v = 0"
| "in_life Open c tc ch v \<longleftrightarrow> (m_state tc = kConnected \<or> m_state tc = kDisconnecting) \<and> Channel_isReading ch \<and>
     (Channel_isWriting ch \<longleftrightarrow> out_bytes tc \<noteq> []) \<and> m_index ch = kAdded \<and> m_tied ch \<and> m_tie ch = Some c \<and>
     v_names v = {tc_name tc} \<and> v_est v = 0 \<and> v_rem v = 0 \<and> v_des v = 0"
| "in_life Removing c tc ch v \<longleftrightarrow> m_state tc = kDisconnected \<and> m_events ch = 0 \<and> m_index ch = kDeleted \<and>
     v_names v = {tc_name tc} \<and> v_est v = 0 \<and> v_rem v = 1 \<and> v_des v = 0"
| "in_life Destroying c tc ch v \<longleftrightarrow> m_state tc = kDisconnected \<and> m_events ch = 0 \<and> m_index ch = kDeleted \<and>
     v_names v = {} \<and> v_est v = 0 \<and> v_rem v = 0 \<and> v_des v = 1"
| "in_life Destroyed c tc ch v \<longleftrightarrow> m_state tc = kDisconnected \<and> m_events ch = 0 \<and> m_index ch = kNew \<and>
     v_names v = {} \<and> v_est v = 0 \<and> v_rem v = 0 \<and> v_des v = 0"

text \<open>\<open>x\<close> counts references held by code that is running. Every reference is accounted for, the connection exists
  as long as there is one, and is in one of the stages.\<close>

definition good :: "nat \<Rightarrow> nat \<Rightarrow> view \<Rightarrow> bool" where
  "good x c v \<longleftrightarrow> v_refs v = x + (if v_names v = {} then 0 else 1) + v_own v \<and>
     (case v_conn v of
        None \<Rightarrow> v_refs v = 0
      | Some tc \<Rightarrow> 0 < v_refs v \<and> (\<exists>ch l. v_chan v = Some ch \<and> conn_parts c tc ch \<and> in_life l c tc ch v))"

section \<open>The invariant\<close>

definition chan_of :: "nat \<Rightarrow> srv \<Rightarrow> addr \<Rightarrow> addr \<Rightarrow> bool" where
  "chan_of c s L a \<longleftrightarrow> home s c = L \<and> (\<exists>tc. conns (loops s L) c = Some tc \<and> m_channel tc = a)"

text \<open>The channels that do not belong to a connection: those of the loop itself and the acceptor's.\<close>

definition own_channel :: "srv \<Rightarrow> addr \<Rightarrow> channel \<Rightarrow> bool" where
  "own_channel s L ch \<longleftrightarrow> \<not> m_tied ch \<and> m_writeCallBack ch = None \<and> m_closeCallBack ch = None \<and> m_errorCallBack ch = None \<and>
     (m_readCallBack ch = Some cb_handRead \<or> m_readCallBack ch = Some cb_timerRead \<or>
      m_readCallBack ch = Some cb_accept \<and> L = sv_baseLoop s)"

definition pool_ok :: "srv \<Rightarrow> bool" where
  "pool_ok s \<longleftrightarrow> m_baseLoop (sv_pool s) = sv_baseLoop s \<and> sv_baseLoop s \<noteq> 0 \<and> 0 \<notin> set (m_eventloops (sv_pool s)) \<and>
     (m_eventloops (sv_pool s) \<noteq> [] \<longrightarrow> 0 \<le> m_next (sv_pool s) \<and> m_next (sv_pool s) < int (length (m_eventloops (sv_pool s)))) \<and>
     length (m_eventloops (sv_pool s)) < 2 ^ 31"

definition active_ok :: "(addr \<Rightarrow> place) \<Rightarrow> srv \<Rightarrow> bool" where
  "active_ok at s \<longleftrightarrow> (\<forall>L as. at L = InEvents as \<longrightarrow> distinct as \<and>
     (\<forall>a \<in> set as. \<exists>ch. channels (loops s L) a = Some ch \<and> m_index ch = kAdded \<and> sane (m_revents ch)))"

definition srv_inv :: "(nat \<Rightarrow> nat) \<Rightarrow> (addr \<Rightarrow> place) \<Rightarrow> srv \<Rightarrow> bool" where
  "srv_inv X at s \<longleftrightarrow>
     (\<forall>c. good (X c) c (view at s c)) \<and>
     (\<forall>L. ep_inv (loops s L)) \<and>
     (\<forall>L. \<forall>f \<in> set (held at s L). located s L f) \<and>
     (\<forall>L c. L \<noteq> home s c \<longrightarrow> conns (loops s L) c = None \<and> refs (loops s L) c = 0) \<and>
     (\<forall>L a ch. channels (loops s L) a = Some ch \<longrightarrow> own_channel s L ch \<or> (\<exists>c. chan_of c s L a)) \<and>
     active_ok at s \<and> own_threads s \<and> names_inv s \<and> pool_ok s \<and>
     sv_connectionCallback s \<noteq> None \<and> sv_messageCallback s \<noteq> None \<and> sv_writeCompleteCallback s = None"

text \<open>
  The channel by which a loop is woken. A step keeps it, appends at most one functor to the queues, and takes
  connections forward only: a connection keeps its name, socket and channel, its state only moves up, and it is
  destroyed only when it is disconnected.
\<close>

fun moved :: "tcpconn \<Rightarrow> tcpconn option \<Rightarrow> bool" where
  "moved tc None = (m_state tc = kDisconnected)"
| "moved tc (Some tc') = (m_state tc \<le> m_state tc' \<and> tc_name tc' = tc_name tc \<and> tc_sockfd tc' = tc_sockfd tc \<and> m_channel tc' = m_channel tc)"

definition forward :: "srv \<Rightarrow> srv \<Rightarrow> bool" where
  "forward s s' \<longleftrightarrow> (\<forall>L c tc. conns (loops s L) c = Some tc \<longrightarrow> moved tc (conns (loops s' L) c) \<and> home s' c = home s c)"

definition wakes :: "srv \<Rightarrow> addr \<Rightarrow> addr \<Rightarrow> bool" where
  "wakes s L a \<longleftrightarrow> (\<exists>ch. channels (loops s L) a = Some ch \<and> m_readCallBack ch = Some cb_handRead)"

definition pushed :: "pfunctor list \<Rightarrow> srv \<Rightarrow> srv \<Rightarrow> bool" where
  "pushed fs s s' \<longleftrightarrow> (\<forall>L a. wakes s L a \<longrightarrow> wakes s' L a) \<and> forward s s' \<and>
     (\<exists>K. \<forall>M. m_pendingFunctors (loops s' M) = m_pendingFunctors (loops s M) @ (if M = K then fs else []))"

definition grows :: "srv \<Rightarrow> srv \<Rightarrow> bool" where
  "grows s s' \<longleftrightarrow> (\<exists>fs. length fs \<le> 1 \<and> pushed fs s s')"

lemma wakes_same: "channels (loops s' L) a = channels (loops s L) a \<Longrightarrow> wakes s' L a = wakes s L a"
  by (simp add: wakes_def)

lemma forward_same: "(\<And>L. conns (loops s' L) = conns (loops s L)) \<Longrightarrow> home s' = home s \<Longrightarrow> forward s s'"
  by (simp add: forward_def)

lemma pushed_none:
  assumes "\<And>M. m_pendingFunctors (loops s' M) = m_pendingFunctors (loops s M)" and "\<And>L a. wakes s L a \<Longrightarrow> wakes s' L a" and "forward s s'"
  shows "pushed [] s s'"
  using assms by (simp add: pushed_def)

lemma pushed_one:
  assumes "\<And>M. m_pendingFunctors (loops s' M) = m_pendingFunctors (loops s M) @ (if M = K then [f] else [])" and "\<And>L a. wakes s L a \<Longrightarrow> wakes s' L a"
    and "forward s s'"
  shows "pushed [f] s s'"
  using assms by (auto simp: pushed_def intro!: exI [of _ K])

lemma pushed_grows: "pushed [] s s' \<Longrightarrow> grows s s'" "pushed [f] s s' \<Longrightarrow> grows s s'"
  by (force simp: grows_def)+

lemma view_sel:
  "v_conn (view at s c) = conns (loops s (home s c)) c"
  "v_chan (view at s c) = (case conns (loops s (home s c)) c of None \<Rightarrow> None | Some tc \<Rightarrow> channels (loops s (home s c)) (m_channel tc))"
  "v_refs (view at s c) = refs (loops s (home s c)) c"
  "v_names (view at s c) = {n. m_connections s n = Some c}"
  "v_own (view at s c) = (\<Sum>M \<in> {home s c, sv_baseLoop s}. refers c (held at s M))"
  "v_est (view at s c) = count_list (unrun at s (home s c)) (FEstablished c)"
  "v_rem (view at s c) = count_list (unrun at s (sv_baseLoop s)) (FRemove c)"
  "v_des (view at s c) = count_list (unrun at s (home s c)) (FDestroyed c)"
  by (simp_all add: view_def)

lemma srv_invD:
  assumes "srv_inv X at s"
  shows "good (X c) c (view at s c)" "ep_inv (loops s L)" "f \<in> set (held at s L) \<Longrightarrow> located s L f"
    "L \<noteq> home s c \<Longrightarrow> conns (loops s L) c = None" "L \<noteq> home s c \<Longrightarrow> refs (loops s L) c = 0"
    "channels (loops s L) a = Some ch \<Longrightarrow> own_channel s L ch \<or> (\<exists>c. chan_of c s L a)"
    "active_ok at s" "own_threads s" "names_inv s" "pool_ok s" "sv_connectionCallback s \<noteq> None" "sv_messageCallback s \<noteq> None"
    "sv_writeCompleteCallback s = None"
  using assms unfolding srv_inv_def by blast+

text \<open>The connection behind a channel.\<close>

lemma chan_ofD:
  assumes inv: "srv_inv X at s" and c: "chan_of c s L a"
  shows "\<exists>tc ch l. home s c = L \<and> conns (loops s L) c = Some tc \<and> m_channel tc = a \<and> channels (loops s L) a = Some ch \<and>
    conn_parts c tc ch \<and> in_life l c tc ch (view at s c)"
proof -
  obtain tc where tc: "home s c = L" "conns (loops s L) c = Some tc" "m_channel tc = a" using c by (auto simp: chan_of_def)
  then show ?thesis using srv_invD(1) [OF inv, of c] by (auto simp: good_def view_sel)
qed

lemma conn_chan_of:
  assumes inv: "srv_inv X at s" and c: "conns (loops s L) c = Some tc"
  shows "home s c = L" "chan_of c s L (m_channel tc)"
proof -
  show "home s c = L" using srv_invD(4) [OF inv, of L c] c by fastforce
  then show "chan_of c s L (m_channel tc)" using c by (simp add: chan_of_def)
qed

lemma cb_conn_inject [simp]: "cb_connRead c = cb_connRead d \<longleftrightarrow> c = d"
  "cb_connRead c \<noteq> cb_handRead" "cb_connRead c \<noteq> cb_timerRead" "cb_connRead c \<noteq> cb_accept"
  by (simp_all add: cb_connRead_def cb_handRead_def cb_timerRead_def cb_accept_def)

lemma chan_of_inject:
  assumes "srv_inv X at s" and "chan_of c s L a" and "chan_of d s L a"
  shows "c = d"
proof -
  obtain ch where "channels (loops s L) a = Some ch" "m_readCallBack ch = Some (cb_connRead c)"
    using chan_ofD [OF assms(1,2)] by (auto simp: conn_parts_def)
  moreover obtain ch' where "channels (loops s L) a = Some ch'" "m_readCallBack ch' = Some (cb_connRead d)"
    using chan_ofD [OF assms(1,3)] by (auto simp: conn_parts_def)
  ultimately show ?thesis by simp
qed

lemma chan_of_not_own:
  assumes "srv_inv X at s" and "chan_of c s L a" and "channels (loops s L) a = Some ch"
  shows "\<not> own_channel s L ch"
  using chan_ofD [OF assms(1,2)] assms(3) by (auto simp: conn_parts_def own_channel_def)

lemma chan_of_asleep: "srv_inv X at s \<Longrightarrow> chan_of c s L a \<Longrightarrow> \<not> wakes s L a"
  using chan_ofD [of X at s c L a] by (auto simp: conn_parts_def wakes_def)

text \<open>
  A change that concerns connection \<open>c\<close> only: everybody else's connections, channels, references, functors and
  entries in the map are the same, and if \<open>c\<close> has a new channel it was not in use.
\<close>

definition only :: "nat \<Rightarrow> (addr \<Rightarrow> place) \<Rightarrow> srv \<Rightarrow> (addr \<Rightarrow> place) \<Rightarrow> srv \<Rightarrow> bool" where
  "only c at s at' s' \<longleftrightarrow>
     (\<forall>d. d \<noteq> c \<longrightarrow> home s' d = home s d) \<and> sv_baseLoop s' = sv_baseLoop s \<and>
     sv_connectionCallback s' = sv_connectionCallback s \<and> sv_messageCallback s' = sv_messageCallback s \<and>
     (\<forall>L. m_threadId (loops s' L) = m_threadId (loops s L)) \<and> (\<forall>L. ep_inv (loops s' L)) \<and>
     (\<forall>L d. d \<noteq> c \<longrightarrow> conns (loops s' L) d = conns (loops s L) d \<and> refs (loops s' L) d = refs (loops s L) d) \<and>
     (\<forall>L a. \<not> chan_of c s L a \<and> \<not> chan_of c s' L a \<longrightarrow> channels (loops s' L) a = channels (loops s L) a) \<and>
     (\<forall>L a. chan_of c s' L a \<longrightarrow> chan_of c s L a \<or> channels (loops s L) a = None) \<and>
     (\<forall>L a. chan_of c s L a \<and> \<not> chan_of c s' L a \<longrightarrow> channels (loops s' L) a = None) \<and>
     (\<forall>L. filter (\<lambda>f. about f \<noteq> Some c) (held at' s' L) = filter (\<lambda>f. about f \<noteq> Some c) (held at s L)) \<and>
     (\<forall>L. filter (\<lambda>f. about f \<noteq> Some c) (unrun at' s' L) = filter (\<lambda>f. about f \<noteq> Some c) (unrun at s L)) \<and>
     (\<forall>n d. d \<noteq> c \<longrightarrow> (m_connections s' n = Some d \<longleftrightarrow> m_connections s n = Some d)) \<and>
     sv_writeCompleteCallback s' = sv_writeCompleteCallback s"

lemma onlyD:
  assumes "only c at s at' s'"
  shows "d \<noteq> c \<Longrightarrow> home s' d = home s d" "sv_baseLoop s' = sv_baseLoop s"
    "sv_connectionCallback s' = sv_connectionCallback s" "sv_messageCallback s' = sv_messageCallback s"
    "m_threadId (loops s' L) = m_threadId (loops s L)" "ep_inv (loops s' L)"
    "d \<noteq> c \<Longrightarrow> conns (loops s' L) d = conns (loops s L) d" "d \<noteq> c \<Longrightarrow> refs (loops s' L) d = refs (loops s L) d"
    "\<not> chan_of c s L a \<Longrightarrow> \<not> chan_of c s' L a \<Longrightarrow> channels (loops s' L) a = channels (loops s L) a"
    "chan_of c s' L a \<Longrightarrow> chan_of c s L a \<or> channels (loops s L) a = None"
    "chan_of c s L a \<Longrightarrow> \<not> chan_of c s' L a \<Longrightarrow> channels (loops s' L) a = None"
    "filter (\<lambda>f. about f \<noteq> Some c) (held at' s' L) = filter (\<lambda>f. about f \<noteq> Some c) (held at s L)"
    "filter (\<lambda>f. about f \<noteq> Some c) (unrun at' s' L) = filter (\<lambda>f. about f \<noteq> Some c) (unrun at s L)"
    "d \<noteq> c \<Longrightarrow> m_connections s' n = Some d \<longleftrightarrow> m_connections s n = Some d" "sv_writeCompleteCallback s' = sv_writeCompleteCallback s"
  using assms unfolding only_def by (elim conjE; (blast | simp))+

lemma refers_filter: "d \<noteq> c \<Longrightarrow> refers d (filter (\<lambda>f. about f \<noteq> Some c) fs) = refers d fs"
  unfolding refers_def filter_filter by (rule arg_cong [where f = length], rule filter_cong) auto

lemma count_filter: "about f \<noteq> Some c \<Longrightarrow> count_list (filter (\<lambda>f. about f \<noteq> Some c) fs) f = count_list fs f"
  by (induction fs) auto

lemma refers_only: "only c at s at' s' \<Longrightarrow> d \<noteq> c \<Longrightarrow> refers d (held at' s' L) = refers d (held at s L)"
  by (metis onlyD(12) refers_filter)

lemma count_only: "only c at s at' s' \<Longrightarrow> about f \<noteq> Some c \<Longrightarrow> count_list (unrun at' s' L) f = count_list (unrun at s L) f"
  by (metis onlyD(13) count_filter)

lemma view_only:
  assumes inv: "srv_inv X at s" and o: "only c at s at' s'" and d: "d \<noteq> c"
  shows "view at' s' d = view at s d"
proof -
  have "channels (loops s' (home s d)) (m_channel tc) = channels (loops s (home s d)) (m_channel tc)"
    if tc: "conns (loops s (home s d)) d = Some tc" for tc
  proof -
    have d': "chan_of d s (home s d) (m_channel tc)" using tc by (simp add: chan_of_def)
    then have n: "\<not> chan_of c s (home s d) (m_channel tc)" using chan_of_inject [OF inv] d by blast
    have "channels (loops s (home s d)) (m_channel tc) \<noteq> None" using chan_ofD [OF inv d'] by auto
    then have "\<not> chan_of c s' (home s d) (m_channel tc)" using onlyD(10) [OF o, of "home s d" "m_channel tc"] n by auto
    with n show ?thesis by (rule onlyD(9) [OF o])
  qed
  then have "v_chan (view at' s' d) = v_chan (view at s d)"
    using onlyD(1,7) [OF o d] by (simp add: view_sel split: option.split)
  then show ?thesis
    using onlyD(1,7,8,14) [OF o d] onlyD(2) [OF o] refers_only [OF o d] count_only [OF o] d
    by (intro view.equality) (simp_all add: view_sel)
qed

lemma srv_inv_only:
  assumes inv: "srv_inv X at s" and o: "only c at s at' s'"
    and g: "good (X' c) c (view at' s' c)" and X: "\<And>d. d \<noteq> c \<Longrightarrow> X' d = X d"
    and loc: "\<And>L f. f \<in> set (held at' s' L) \<Longrightarrow> about f = Some c \<Longrightarrow> located s' L f"
    and far: "\<And>L. L \<noteq> home s' c \<Longrightarrow> conns (loops s' L) c = None \<and> refs (loops s' L) c = 0"
    and act: "active_ok at' s'" and st: "names_inv s'" "pool_ok s'"
  shows "srv_inv X' at' s'"
  unfolding srv_inv_def
proof (intro conjI allI impI ballI)
  note O = onlyD [OF o]
  show "good (X' d) d (view at' s' d)" for d
    using g X srv_invD(1) [OF inv, of d] view_only [OF inv o, of d] by (cases "d = c") simp_all
  show "ep_inv (loops s' L)" for L by (rule O(6))
  show "located s' L f" if f: "f \<in> set (held at' s' L)" for L f
  proof (cases "about f = Some c")
    case False
    then have "f \<in> set (held at s L)" using f O(12) [of L] by (metis (mono_tags, lifting) filter_set mem_Collect_eq set_filter)
    then have "located s L f" by (rule srv_invD(3) [OF inv])
    then show ?thesis using False O(1,2) by (cases f) auto
  qed (use loc f in blast)
  show "conns (loops s' L) d = None" "refs (loops s' L) d = 0" if "L \<noteq> home s' d" for L d
    using that far O(1,7,8) srv_invD(4,5) [OF inv, of L d] by (cases "d = c"; simp)+
  show "own_channel s' L ch \<or> (\<exists>d. chan_of d s' L a)" if a: "channels (loops s' L) a = Some ch" for L a ch
  proof (cases "chan_of c s L a \<or> chan_of c s' L a")
    case True
    then show ?thesis using a O(11) [of L a] by auto
  next
    case False
    then have "own_channel s L ch \<or> (\<exists>d. chan_of d s L a)" using a O(9) srv_invD(6) [OF inv, of L a ch] by auto
    moreover have "chan_of d s' L a" if "chan_of d s L a" for d
      using that False O(1,7) by (cases "d = c") (auto simp: chan_of_def)
    ultimately show ?thesis using O(2) by (auto simp: own_channel_def)
  qed
  show "own_threads s'" using srv_invD(8) [OF inv] O(2,5) by (simp add: own_threads_def)
qed (use act st srv_invD(11-13) [OF inv] onlyD(3,4,15) [OF o] in auto)

section \<open>Operations on one connection\<close>

lemma effD:
  assumes "eff c w0 w tc ch r"
  shows "ep_inv w" "conns w c = Some tc" "channels w (m_channel tc) = Some ch" "refs w c = r" "Conn_at w c = Inr tc"
    "Channel_at w (m_channel tc) = Inr ch" "m_threadId w = m_threadId w0" "world.more w = world.more w0"
  using assms by (simp_all add: eff_def Conn_at_def Channel_at_def)

lemma eff_start: "ep_inv w \<Longrightarrow> conns w c = Some tc \<Longrightarrow> channels w (m_channel tc) = Some ch \<Longrightarrow> eff c w w tc ch (refs w c)"
  by (simp add: eff_def fun_upd_idem)

lemma eff_same:
  assumes "eff c w0 w tc ch r" and "channels w' = channels w" and "m_channel_map w' = m_channel_map w" and "ctlLog w' = ctlLog w"
    and "conns w' = conns w" and "m_pendingFunctors w' = m_pendingFunctors w" and "m_threadId w' = m_threadId w"
    and "world.more w' = world.more w" and "refs w' = (refs w)(c := r')"
  shows "eff c w0 w' tc ch r'"
  using assms ep_inv_same [of w' w] by (simp add: eff_def)

lemma eff_put: "eff c w0 w tc ch r \<Longrightarrow> m_channel tc' = m_channel tc \<Longrightarrow> eff c w0 (Conn_put c tc' w) tc' ch r"
  by (simp add: eff_def) (simp add: Conn_put_def)

lemma eff_setState: "eff c w0 w tc ch r \<Longrightarrow> \<exists>w'. setState st c w = Inr w' \<and> eff c w0 w' (tc\<lparr>m_state := st\<rparr>) ch r"
  using eff_put [of c w0 w tc ch r "tc\<lparr>m_state := st\<rparr>"] by (simp add: setState_def effD)

lemma eff_poller:
  assumes e: "eff c w0 w tc ch r" and "ep_inv w'" and "channels w' = (channels w)(m_channel tc \<mapsto> ch')" and "refs w' = refs w"
    and m: "poller.more w' = poller.more w"
  shows "eff c w0 w' tc ch' r"
  using assms(1-4) world_more [OF m] world_of_poller [OF m] by (simp add: eff_def)

lemma eff_events:
  assumes e: "eff c w0 w tc ch r" and k: "kernel_accepts ctl"
  shows "\<exists>w'. Channel_set_events ctl f (m_channel tc) w = Inr w' \<and>
    eff c w0 w' tc (ch\<lparr>m_events := f (m_events ch), m_index := next_index ch (f (m_events ch))\<rparr>) r"
  using set_events_ok [OF effD(1,3) [OF e] k, of f] eff_poller [OF e] by blast

lemma eff_remove:
  assumes e: "eff c w0 w tc ch r" and k: "kernel_accepts ctl"
  shows "\<exists>w'. Channel_remove ctl (m_channel tc) w = Inr w' \<and> eff c w0 w' tc (ch\<lparr>m_index := kNew\<rparr>) r"
  using remove_ok [OF effD(1,3) [OF e] k] eff_poller [OF e] by blast

lemma eff_channel:
  assumes e: "eff c w0 w tc ch r" and "m_fd dh = m_fd ch" "m_index dh = m_index ch" "m_events dh = m_events ch"
  shows "eff c w0 (Channel_put (m_channel tc) dh w) tc dh r"
  using assms ep_inv_put [OF effD(1,3) [OF e], of dh] by (simp add: eff_def) (simp add: Channel_put_def)

lemma eff_acquire: "eff c w0 w tc ch r \<Longrightarrow> eff c w0 (acquire c w) tc ch (Suc r)"
  using effD(4) [of c w0 w tc ch r] by (auto simp: acquire_def elim!: eff_same)

lemma eff_release: "eff c w0 w tc ch (Suc r) \<Longrightarrow> 0 < r \<Longrightarrow> \<exists>w'. release_conn c w = Inr w' \<and> eff c w0 w' tc ch r"
  by (rule exI [of _ "w\<lparr>refs := (refs w)(c := r)\<rparr>"]) (auto simp: release_conn_def effD(4) elim: eff_same)

lemma eff_trans:
  assumes "eff c w0 w1 tc ch r" and "eff c w1 w2 tc' ch' r'" and "m_channel tc' = m_channel tc"
  shows "eff c w0 w2 tc' ch' r'"
  using assms by (simp add: eff_def)

text \<open>What use leaves alone, and what it keeps.\<close>

lemma usedD:
  assumes "used tc ch tc' ch'"
  shows "m_channel tc' = m_channel tc" "tc_name tc' = tc_name tc" "m_revents ch' = m_revents ch" "m_index ch' = m_index ch"
    "m_tied ch' = m_tied ch" "m_tie ch' = m_tie ch" "conn_parts c tc ch \<Longrightarrow> conn_parts c tc' ch'" "m_state tc \<noteq> kDisconnected \<Longrightarrow> lively tc' ch'"
    "m_closeCallback tc' = m_closeCallback tc" "m_connectionCallback tc' = m_connectionCallback tc"
    "moved tc (Some tc')"
  using assms by (auto simp: used_def conn_parts_def)

lemma used_closed:
  assumes "used tc ch tc' ch'" and "m_state tc = kDisconnected"
  shows "\<exists>k. Kfifo_ready k \<and> tc' = tc\<lparr>m_inputBuffer := k, m_state := kDisconnected\<rparr> \<and> ch' = ch"
  using assms by (auto simp: used_def)

lemma usedI:
  assumes "Kfifo_ready k" and "Kfifo_ready q" and "kread q = 0" and "m_state tc \<le> st"
    and "m_state tc = kDisconnected \<Longrightarrow> st = kDisconnected \<and> q = m_outputBuffer tc \<and> ev = m_events ch"
    and "m_state tc \<noteq> kDisconnected \<Longrightarrow> lively (tc\<lparr>m_inputBuffer := k, m_state := st, m_outputBuffer := q\<rparr>) (ch\<lparr>m_events := ev\<rparr>)"
  shows "used tc ch (tc\<lparr>m_inputBuffer := k, m_state := st, m_outputBuffer := q\<rparr>) (ch\<lparr>m_events := ev\<rparr>)"
  unfolding used_def using assms by blast

lemma used_same:
  assumes "Kfifo_ready (m_inputBuffer tc)" "Kfifo_ready (m_outputBuffer tc)" "kread (m_outputBuffer tc) = 0" "m_state tc = kDisconnected \<or> lively tc ch"
  shows "used tc ch tc ch"
  using usedI [of "m_inputBuffer tc" "m_outputBuffer tc" tc "m_state tc" "m_events ch" ch] assms by auto

lemma used_trans:
  assumes u: "used tc ch tc1 ch1" and v: "used tc1 ch1 tc2 ch2"
  shows "used tc ch tc2 ch2"
proof -
  obtain k st q ev where 1: "tc1 = tc\<lparr>m_inputBuffer := k, m_state := st, m_outputBuffer := q\<rparr>" "ch1 = ch\<lparr>m_events := ev\<rparr>"
    "m_state tc = kDisconnected \<longrightarrow> st = kDisconnected \<and> q = m_outputBuffer tc \<and> ev = m_events ch" "m_state tc \<noteq> kDisconnected \<longrightarrow> lively tc1 ch1"
    "m_state tc \<le> m_state tc1" using u unfolding used_def by auto
  obtain k2 st2 q2 ev2 where 2: "tc2 = tc1\<lparr>m_inputBuffer := k2, m_state := st2, m_outputBuffer := q2\<rparr>" "ch2 = ch1\<lparr>m_events := ev2\<rparr>"
    "Kfifo_ready k2" "Kfifo_ready q2" "kread q2 = 0" "m_state tc1 \<le> st2"
    "m_state tc1 = kDisconnected \<longrightarrow> st2 = kDisconnected \<and> q2 = m_outputBuffer tc1 \<and> ev2 = m_events ch1" "m_state tc1 \<noteq> kDisconnected \<longrightarrow> lively tc2 ch2"
    using v unfolding used_def by blast
  have e: "tc2 = tc\<lparr>m_inputBuffer := k2, m_state := st2, m_outputBuffer := q2\<rparr>" "ch2 = ch\<lparr>m_events := ev2\<rparr>" using 1 2 by simp_all
  have "m_state tc1 \<noteq> kDisconnected" if "m_state tc \<noteq> kDisconnected" using that 1(4) by (auto simp: lively_def)
  then have l: "lively tc2 ch2" if "m_state tc \<noteq> kDisconnected" using that 2(8) by blast
  show ?thesis unfolding e by (rule usedI) (use 1 2 l e in auto)
qed

lemma conn_parts_ready: "conn_parts c tc ch \<Longrightarrow> Kfifo_ready (m_inputBuffer tc) \<and> Kfifo_ready (m_outputBuffer tc) \<and> kread (m_outputBuffer tc) = 0"
  by (simp add: conn_parts_def)

lemma quiet_polite: "user_quiet user \<Longrightarrow> polite user"
  unfolding polite_def
proof (intro allI impI, elim conjE)
  fix u c tc ch and w :: sworld
  assume q: "user_quiet user" and h: "ep_inv w" "conns w c = Some tc" "channels w (m_channel tc) = Some ch" "conn_parts c tc ch"
    "m_state tc = kDisconnected \<or> lively tc ch"
  obtain ss where "user u w = Inr (w\<lparr>strings := ss\<rparr>)" using q unfolding user_quiet_def by blast
  moreover have "eff c w (w\<lparr>strings := ss\<rparr>) tc ch (refs w c)" by (rule eff_same [OF eff_start [OF h(1-3)]]) simp_all
  ultimately show "\<exists>w' tc' ch'. user u w = Inr w' \<and> eff c w w' tc' ch' (refs w c) \<and> used tc ch tc' ch'"
    using used_same conn_parts_ready [OF h(4)] h(5) by blast
qed

lemma eff_invoke:
  assumes e: "eff c w0 w tc ch r" and q: "polite (e_user E)" and u: "call_conn u = c" "\<And>d. u \<noteq> UClose d" and cb: "cb \<noteq> None"
    and p: "conn_parts c tc ch" "m_state tc = kDisconnected \<or> lively tc ch"
  shows "\<exists>w' tc' ch'. invoke (srv_user E L) cb u w = Inr w' \<and> eff c w0 w' tc' ch' r \<and> used tc ch tc' ch'"
proof -
  let ?w = "w\<lparr>netlog := netlog w @ [NetCall u]\<rparr>"
  have e1: "eff c w0 ?w tc ch r" using effD(4) [OF e] by (intro eff_same [OF e]) (simp_all add: fun_upd_idem)
  obtain w' tc' ch' where w': "e_user E u ?w = Inr w'" "eff c ?w w' tc' ch' (refs ?w c)" "used tc ch tc' ch'"
    using q u p effD(1-3) [OF e1] unfolding polite_def by blast
  have "invoke (srv_user E L) cb u w = Inr w'" using w'(1) u(2) cb by (cases u) (auto simp: invoke_def srv_user_def)
  moreover have "eff c w0 w' tc' ch' r" using eff_trans [OF e1 w'(2) usedD(1) [OF w'(3)]] effD(4) [OF e1] by simp
  ultimately show ?thesis using w'(3) by blast
qed

lemma connectEstablished_eff:
  assumes e: "eff c w0 w tc ch r" and k: "kernel_accepts (e_ctl E)" and q: "polite (e_user E)" and p: "conn_parts c tc ch"
    and n: "m_events ch = 0" "m_index ch = kNew" "out_bytes tc = []"
  shows "\<exists>w' tc' ch'. TcpConnection_connectEstablished (e_ctl E) (srv_user E L) c w = Inr w' \<and>
    eff c w0 w' tc' ch' r \<and> used (tc\<lparr>m_state := kConnected\<rparr>) (opened ch c) tc' ch'"
proof -
  let ?tc = "tc\<lparr>m_state := kConnected\<rparr>" and ?ch = "ch\<lparr>m_tie := Some c, m_tied := True\<rparr>"
  obtain w1 where w1: "setState kConnected c w = Inr w1" "eff c w0 w1 ?tc ch r" using eff_setState [OF e] by blast
  have w2: "Channel_tie (m_channel tc) c w1 = Inr (Channel_put (m_channel tc) ?ch w1)" "eff c w0 (Channel_put (m_channel tc) ?ch w1) ?tc ?ch r"
    using effD(6) [OF w1(2)] eff_channel [OF w1(2), of ?ch] by (simp_all add: Channel_tie_def)
  obtain w3 where w3: "Channel_enableReading (e_ctl E) (m_channel tc) (Channel_put (m_channel tc) ?ch w1) = Inr w3" "eff c w0 w3 ?tc (opened ch c) r"
    using eff_events [OF w2(2) k, of "\<lambda>e. e OR kReadEvent"] by (auto simp: Channel_enableReading_def opened_def)
  have o: "conn_parts c ?tc (opened ch c)" "lively ?tc (opened ch c)"
    using p n by (simp_all add: conn_parts_def lively_def opened_def next_index_def Channel_isReading_def Channel_isWriting_def kReadEvent_def
        kWriteEvent_def EPOLLIN_def EPOLLPRI_def EPOLLOUT_def kNew_def)
  have cb: "m_connectionCallback tc \<noteq> None" using p by (simp add: conn_parts_def)
  show ?thesis using eff_invoke [OF w3(2) q, of "UConnection c True" "m_connectionCallback tc" L] w1(1) w2(1) w3(1) o cb effD(5) [OF w1(2)]
    by (simp add: TcpConnection_connectEstablished_def)
qed

lemma connectDestroyed_eff:
  assumes e: "eff c w0 w tc ch r" and k: "kernel_accepts ctl" and st: "m_state tc = kDisconnected"
  shows "\<exists>w'. TcpConnection_connectDestroyed ctl user c w = Inr w' \<and> eff c w0 w' tc (ch\<lparr>m_index := kNew\<rparr>) r"
  using eff_remove [OF e k] effD(5) [OF e] st by (simp add: TcpConnection_connectDestroyed_def)

text \<open>The invariant after an operation in a connection's own loop that queues nothing.\<close>

lemma leave_more: "world.more w' = world.more w \<Longrightarrow> leave L w' = (leave L w)\<lparr>loops := (loops (leave L w))(L := world.truncate w')\<rparr>"
  by (simp add: leave_def)

lemma leave_static [simp]:
  "sv_connectionCallback (leave L w) = sv_connectionCallback (world.more w)" "sv_messageCallback (leave L w) = sv_messageCallback (world.more w)"
  "sv_writeCompleteCallback (leave L w) = sv_writeCompleteCallback (world.more w)"
  "sv_pool (leave L w) = sv_pool (world.more w)" "m_acceptSocket (leave L w) = m_acceptSocket (world.more w)"
  by (simp_all add: leave_def)

lemma ep_inv_truncate [simp]: "ep_inv (world.truncate w) = ep_inv w"
  by (rule ep_inv_same) simp_all

lemma eff_unrun:
  assumes "eff c w w' tc ch r"
  shows "unrun at (leave L w') M = unrun at (leave L w) M" "held at (leave L w') M = held at (leave L w) M"
  using assms by (simp_all add: unrun_def held_def eff_def)

lemma eff_home:
  assumes "srv_inv X at (leave L w)" and "conns w c = Some tc"
  shows "home (world.more w) c = L"
  using conn_chan_of(1) [OF assms(1), of L c tc] assms(2) by simp

lemma eff_chan_of:
  assumes "eff c w w' tc' ch' r'" and "conns w c = Some tc" and "m_channel tc' = m_channel tc"
  shows "chan_of d (leave L w') M b \<longleftrightarrow> chan_of d (leave L w) M b"
  using assms by (auto simp: chan_of_def eff_def)

lemma only_eff:
  assumes inv: "srv_inv X at (leave L w)" and c: "conns w c = Some tc" and e: "eff c w w' tc' ch' r'" and a: "m_channel tc' = m_channel tc"
  shows "only c at (leave L w) at (leave L w')"
proof -
  have "\<not> chan_of c (leave L w) L b \<Longrightarrow> b \<noteq> m_channel tc" for b using eff_home [OF inv c] c by (auto simp: chan_of_def)
  moreover have "ep_inv (loops (world.more w) M)" if "M \<noteq> L" for M using srv_invD(2) [OF inv, of M] that by simp
  ultimately show ?thesis using e unfolding only_def eff_chan_of [OF e c a] eff_unrun [OF e] by (auto simp: eff_def a)
qed

lemma view_eff:
  assumes "srv_inv X at (leave L w)" and "conns w c = Some tc" and e: "eff c w w' tc' ch' r'"
  shows "view at (leave L w') c = (view at (leave L w) c)\<lparr>v_conn := Some tc', v_chan := Some ch', v_refs := r'\<rparr>"
  using e eff_home [OF assms(1,2)] by (intro view.equality) (simp_all add: view_sel eff_unrun [OF e] eff_def)

lemma located_home: "home s' = home s \<Longrightarrow> sv_baseLoop s' = sv_baseLoop s \<Longrightarrow> located s' L f = located s L f"
  by (cases f) simp_all

lemma srv_inv_eff:
  assumes inv: "srv_inv X at (leave L w)" and c: "conns w c = Some tc" and e: "eff c w w' tc' ch' r'" and a: "m_channel tc' = m_channel tc"
    and g: "good (X' c) c ((view at (leave L w) c)\<lparr>v_conn := Some tc', v_chan := Some ch', v_refs := r'\<rparr>)"
    and X: "\<And>d. d \<noteq> c \<Longrightarrow> X' d = X d"
    and act: "\<And>as. at L = InEvents as \<Longrightarrow> m_channel tc \<in> set as \<Longrightarrow> m_index ch' = kAdded \<and> sane (m_revents ch')"
  shows "srv_inv X' at (leave L w')"
proof (rule srv_inv_only [OF inv only_eff [OF inv c e a] _ X])
  have h: "home (leave L w') = home (leave L w)" "sv_baseLoop (leave L w') = sv_baseLoop (leave L w)"
    using e by (simp_all add: eff_def)
  show "good (X' c) c (view at (leave L w') c)" using g by (simp add: view_eff [OF inv c e])
  show "located (leave L w') M f" if "f \<in> set (held at (leave L w') M)" for M f
    using srv_invD(3) [OF inv, of f M] that unfolding located_home [OF h] eff_unrun [OF e] .
  show "conns (loops (leave L w') M) c = None \<and> refs (loops (leave L w') M) c = 0" if "M \<noteq> home (leave L w') c" for M
    using that srv_invD(4,5) [OF inv, of M c] e eff_home [OF inv c] by (auto simp: eff_def)
  show "active_ok at (leave L w')"
    using srv_invD(7) [OF inv] e act a unfolding active_ok_def by (fastforce simp: eff_def)
  show "names_inv (leave L w')" "pool_ok (leave L w')"
    using srv_invD(9,10) [OF inv] e by (simp_all add: names_inv_def pool_ok_def eff_def)
qed

section \<open>Taking a connection out of the map\<close>

lemma queue_refs: "(EventLoop_queueInLoop tid f w)\<lparr>refs := x\<rparr> = EventLoop_queueInLoop tid f (w\<lparr>refs := x\<rparr>)"
  by (simp add: EventLoop_queueInLoop_def queue_push_def queue_notify_def EventLoop_wakeUp_def EventLoop_isInLoopThread_def)

lemma release_keep: "refs w c = Suc (Suc n) \<Longrightarrow> release_conn c w = Inr (w\<lparr>refs := (refs w)(c := Suc n)\<rparr>)"
  by (simp add: release_conn_def)

lemma removeInLoop_eq:
  assumes "conns (loops s (home s c)) c = Some tc" and "m_connections s (tc_name tc) = Some c" and "refs (loops s (home s c)) c = Suc (Suc n)"
  shows "TcpServer_removeConnectionInLoop tid c s = Inr (s\<lparr>m_connections := (m_connections s)(tc_name tc := None),
    loops := (loops s)(home s c := EventLoop_queueInLoop tid (FDestroyed c) (loops s (home s c)))\<rparr>)"
  using assms by (simp add: TcpServer_removeConnectionInLoop_def srv_conn_def Conn_at_def connections_erase_def srv_release_eq
      release_keep srv_acquire_eq srv_queue_eq acquire_def fun_upd_idem)

lemma removeConnection_here:
  assumes c: "conns (loops s (home s c)) c = Some tc" and m: "m_connections s (tc_name tc) = Some c" and n: "refs (loops s (home s c)) c = Suc n"
    and t: "in_thread (sv_baseLoop s) tid s"
  shows "TcpServer_removeConnection tid c s = Inr (s\<lparr>m_connections := (m_connections s)(tc_name tc := None),
    loops := (loops s)(home s c := EventLoop_queueInLoop tid (FDestroyed c) (loops s (home s c)))\<rparr>)"
proof -
  let ?s = "srv_acquire c s" and ?H = "home s c"
  have s: "home ?s c = ?H" "conns (loops ?s ?H) c = Some tc" "m_connections ?s (tc_name tc) = Some c" "refs (loops ?s ?H) c = Suc (Suc n)"
    using c m n by (simp_all add: srv_acquire_eq) (simp add: acquire_def)
  have "in_thread (sv_baseLoop ?s) tid ?s" using t by (auto simp: in_thread_def EventLoop_isInLoopThread_def srv_acquire_eq)
  then show ?thesis
    using removeInLoop_eq [of ?s c tc n tid] s n
    by (auto simp: TcpServer_removeConnection_def srv_release_eq release_keep srv_acquire_eq queue_refs acquire_def fun_upd_idem)
qed

lemma removeConnection_there:
  assumes "\<not> in_thread (sv_baseLoop s) tid s" and "sv_baseLoop s \<noteq> home s c"
  shows "TcpServer_removeConnection tid c s = Inr (s\<lparr>loops := (loops s)(home s c := acquire c (loops s (home s c)),
    sv_baseLoop s := EventLoop_queueInLoop tid (FRemove c) (loops s (sv_baseLoop s)))\<rparr>)"
  using assms by (simp add: TcpServer_removeConnection_def in_thread_def EventLoop_isInLoopThread_def srv_acquire_eq srv_queue_eq)

text \<open>What closing does to the server, once the connection's loop \<open>L\<close> has shut it down.\<close>

definition closing :: "addr \<Rightarrow> int \<Rightarrow> nat \<Rightarrow> string \<Rightarrow> srv \<Rightarrow> srv" where
  "closing L tid c name s =
     (if sv_baseLoop s = L then
        s\<lparr>m_connections := (m_connections s)(name := None), loops := (loops s)(L := EventLoop_queueInLoop tid (FDestroyed c) (loops s L))\<rparr>
      else s\<lparr>loops := (loops s)(L := acquire c (loops s L), sv_baseLoop s := EventLoop_queueInLoop tid (FRemove c) (loops s (sv_baseLoop s)))\<rparr>)"

lemma removeConnection_closing:
  assumes "conns (loops s L) c = Some tc" and "home s c = L" and "m_connections s (tc_name tc) = Some c" and "refs (loops s L) c = Suc n"
    and "own_threads s"
  shows "TcpServer_removeConnection (m_threadId (loops s L)) c s = Inr (closing L (m_threadId (loops s L)) c (tc_name tc) s)"
proof (cases "sv_baseLoop s = L")
  case True
  then show ?thesis using removeConnection_here [of s c tc n] assms by (simp add: closing_def in_thread_def EventLoop_isInLoopThread_def)
next
  case False
  then have "\<not> in_thread (sv_baseLoop s) (m_threadId (loops s L)) s"
    using assms(5) unfolding own_threads_def in_thread_def EventLoop_isInLoopThread_def by metis
  then show ?thesis using removeConnection_there [of s _ c] assms(2) False by (simp add: closing_def)
qed

lemma leave_extend: "leave L (world.extend w s) = s\<lparr>loops := (loops s)(L := w)\<rparr>"
  by (simp add: leave_def)

lemma closing_release:
  assumes r: "refs (loops s L) c = Suc (Suc n)"
  shows "\<exists>w'. release_conn c (enter L (closing L tid c name s)) = Inr w' \<and>
    leave L w' = closing L tid c name (s\<lparr>loops := (loops s)(L := (loops s L)\<lparr>refs := (refs (loops s L))(c := Suc n)\<rparr>)\<rparr>)"
  using r by (auto simp: enter_def release_extend closing_def release_keep leave_extend queue_refs acquire_def fun_upd_twist)

lemma handleClose_eff:
  assumes e: "eff c w0 w tc ch r" and r: "0 < r" and k: "kernel_accepts (e_ctl E)" and q: "polite (e_user E)" and p: "conn_parts c tc ch"
    and s: "home (world.more w0) c = L" "m_connections (world.more w0) (tc_name tc) = Some c" "own_threads (leave L w0)"
  shows "\<exists>w' w3 k. TcpConnection_handleClose (e_ctl E) (srv_user E L) c w = Inr w' \<and> Kfifo_ready k \<and>
    eff c w0 w3 (tc\<lparr>m_inputBuffer := k, m_state := kDisconnected\<rparr>) (ch\<lparr>m_events := 0, m_index := next_index ch 0\<rparr>) r \<and>
    leave L w' = closing L (m_threadId w0) c (tc_name tc) (leave L w3)"
proof -
  let ?tc' = "tc\<lparr>m_state := kDisconnected\<rparr>" and ?ch = "ch\<lparr>m_events := 0, m_index := next_index ch 0\<rparr>"
  have cb: "m_connectionCallback tc \<noteq> None" "m_closeCallback tc \<noteq> None" and p': "conn_parts c ?tc' ?ch" using p by (simp_all add: conn_parts_def)
  obtain w1 where w1: "setState kDisconnected c w = Inr w1" "eff c w0 w1 ?tc' ch r" using eff_setState [OF e] by blast
  obtain w2 where w2: "Channel_disableAll (e_ctl E) (m_channel tc) w1 = Inr w2" "eff c w0 w2 ?tc' ?ch r"
    using eff_events [OF w1(2) k, of "\<lambda>_. kNoneEvent"] by (auto simp: Channel_disableAll_def kNoneEvent_def)
  obtain w3 tc2 ch2 where w3': "invoke (srv_user E L) (m_connectionCallback tc) (UConnection c False) (acquire c w2) = Inr w3"
    "eff c w0 w3 tc2 ch2 (Suc r)" "used ?tc' ?ch tc2 ch2"
    using eff_invoke [OF eff_acquire [OF w2(2)] q, of "UConnection c False" "m_connectionCallback tc" L] cb(1) p' by auto
  obtain k where k: "Kfifo_ready k" "tc2 = ?tc'\<lparr>m_inputBuffer := k, m_state := kDisconnected\<rparr>" "ch2 = ?ch" using used_closed [OF w3'(3)] by auto
  let ?tc = "tc\<lparr>m_inputBuffer := k, m_state := kDisconnected\<rparr>"
  have w3: "invoke (srv_user E L) (m_connectionCallback tc) (UConnection c False) (acquire c w2) = Inr w3" "eff c w0 w3 ?tc ?ch (Suc r)"
    using w3'(1,2) k by simp_all
  define w4 where "w4 = w3\<lparr>netlog := netlog w3 @ [NetCall (UClose c)]\<rparr>"
  have w4: "eff c w0 w4 ?tc ?ch (Suc r)" using effD(4) [OF w3(2)] by (intro eff_same [OF w3(2)]) (simp_all add: w4_def fun_upd_idem)
  have o: "own_threads (leave L w4)" using s(3) effD(7,8) [OF w4] by (auto simp: own_threads_def split: if_splits)
  have "TcpServer_removeConnection (m_threadId w0) c (leave L w4) = Inr (closing L (m_threadId w0) c (tc_name tc) (leave L w4))"
    using removeConnection_closing [of "leave L w4" L c ?tc r] effD [OF w4] s o by simp
  then have u: "invoke (srv_user E L) (m_closeCallback tc) (UClose c) w3 = Inr (enter L (closing L (m_threadId w0) c (tc_name tc) (leave L w4)))"
    using cb(2) effD(7) [OF w4] by (auto simp: invoke_def srv_user_def in_server_def w4_def)
  obtain n where n: "r = Suc n" using r gr0_implies_Suc by blast
  let ?w5 = "w4\<lparr>refs := (refs w4)(c := r)\<rparr>"
  have w5: "eff c w0 ?w5 ?tc ?ch r" by (rule eff_same [OF w4]) simp_all
  have "leave L ?w5 = (leave L w4)\<lparr>loops := (loops (leave L w4))(L := (loops (leave L w4) L)\<lparr>refs := (refs (loops (leave L w4) L))(c := r)\<rparr>)\<rparr>"
    by (simp add: leave_def world.defs)
  then obtain w' where w': "release_conn c (enter L (closing L (m_threadId w0) c (tc_name tc) (leave L w4))) = Inr w'"
    "leave L w' = closing L (m_threadId w0) c (tc_name tc) (leave L ?w5)"
    using closing_release [of "leave L w4" L c n] effD(4) [OF w4] n by auto
  have "TcpConnection_handleClose (e_ctl E) (srv_user E L) c w = Inr w'"
    using w1(1) w2(1) w3(1) u w'(1) effD(5) [OF w1(2)] effD(5) [OF w3(2)] by (simp add: TcpConnection_handleClose_def)
  then show ?thesis using w5 w'(2) k(1) by blast
qed

section \<open>The invariant and the queues\<close>

lemma refers_simps [simp]: "refers c [] = 0" "refers c (f # fs) = (if about f = Some c then 1 else 0) + refers c fs"
  "refers c (fs @ gs) = refers c fs + refers c gs"
  by (simp_all add: refers_def)

lemma sum_two: "(\<Sum>M \<in> {H, B}. g M) = (if H = B then g B else g H + g B)" for g :: "addr \<Rightarrow> nat"
  by simp

lemma only_trans:
  assumes "only c at s at1 s1" and "only c at1 s1 at2 s2" and "\<And>L b. chan_of c s2 L b \<longleftrightarrow> chan_of c s1 L b"
  shows "only c at s at2 s2"
  unfolding only_def
proof (intro conjI allI impI)
  note A = onlyD [OF assms(1)] and B = onlyD [OF assms(2)]
  show "channels (loops s2 L) a = channels (loops s L) a" if "\<not> chan_of c s L a \<and> \<not> chan_of c s2 L a" for L a
    using that A(9) [of L a] B(9) [of L a] assms(3) [of L a] by simp
  show "chan_of c s L a \<or> channels (loops s L) a = None" if "chan_of c s2 L a" for L a
    using that A(10) [of L a] assms(3) [of L a] by simp
  show "channels (loops s2 L) a = None" if "chan_of c s L a \<and> \<not> chan_of c s2 L a" for L a
    using that A(11) [of L a] B(9) [of L a] assms(3) [of L a] by simp
qed (use onlyD [OF assms(1)] onlyD [OF assms(2)] in simp_all)

abbreviation push :: "addr \<Rightarrow> int \<Rightarrow> pfunctor \<Rightarrow> srv \<Rightarrow> srv" where
  "push M tid f s \<equiv> s\<lparr>loops := (loops s)(M := EventLoop_queueInLoop tid f (loops s M))\<rparr>"

lemma push_unrun:
  "unrun at (push M tid f s) K = unrun at s K @ (if K = M then [f] else [])"
  "held at (push M tid f s) K = held at s K @ (if K = M then [f] else [])"
  by (simp_all add: unrun_def held_def)

lemma push_sel:
  "conns (loops (push M tid f s) K) = conns (loops s K)" "channels (loops (push M tid f s) K) = channels (loops s K)"
  "refs (loops (push M tid f s) K) = refs (loops s K)" "m_threadId (loops (push M tid f s) K) = m_threadId (loops s K)"
  "ep_inv (loops (push M tid f s) K) = ep_inv (loops s K)" "chan_of c (push M tid f s) L b = chan_of c s L b"
  using ep_inv_same [of "EventLoop_queueInLoop tid f (loops s M)" "loops s M"] by (simp_all add: chan_of_def)

lemma only_push:
  assumes "about f = Some c" and "\<And>L. ep_inv (loops s L)"
  shows "only c at s at (push M tid f s)"
  using assms unfolding only_def push_sel push_unrun by auto

lemma closing_sel:
  "chan_of c (closing L tid c name s) M b = chan_of c s M b" "conns (loops (closing L tid c name s) M) = conns (loops s M)"
  "channels (loops (closing L tid c name s) M) = channels (loops s M)" "home (closing L tid c name s) = home s"
  "sv_baseLoop (closing L tid c name s) = sv_baseLoop s" "m_threadId (loops (closing L tid c name s) M) = m_threadId (loops s M)"
  by (simp_all add: closing_def chan_of_def)

lemma closing_lists:
  "unrun at (closing L tid c name s) M = unrun at s M @
     (if sv_baseLoop s = L then if M = L then [FDestroyed c] else [] else if M = sv_baseLoop s then [FRemove c] else [])"
  "held at (closing L tid c name s) M = held at s M @
     (if sv_baseLoop s = L then if M = L then [FDestroyed c] else [] else if M = sv_baseLoop s then [FRemove c] else [])"
  by (auto simp: unrun_def held_def closing_def)

lemma closing_refs:
  "refs (loops (closing L tid c name s) M) = (if sv_baseLoop s \<noteq> L \<and> M = L then (refs (loops s L))(c := Suc (refs (loops s L) c)) else refs (loops s M))"
  by (auto simp: closing_def acquire_def)

lemma closing_ep: "(\<And>M. ep_inv (loops s M)) \<Longrightarrow> ep_inv (loops (closing L tid c name s) M)"
proof -
  assume e: "\<And>M. ep_inv (loops s M)"
  have "m_channel_map (loops (closing L tid c name s) M) = m_channel_map (loops s M)" "ctlLog (loops (closing L tid c name s) M) = ctlLog (loops s M)"
    by (simp_all add: closing_def)
  then show ?thesis using ep_inv_same [OF closing_sel(3)] e by blast
qed

lemma only_closing:
  assumes "\<And>L. ep_inv (loops s L)" and n: "\<And>d. m_connections s name = Some d \<Longrightarrow> d = c"
  shows "only c at s at (closing L tid c name s)"
proof -
  have "m_connections (closing L tid c name s) k = Some d \<longleftrightarrow> m_connections s k = Some d" if "d \<noteq> c" for k d
    using that n by (auto simp: closing_def)
  moreover have "sv_connectionCallback (closing L tid c name s) = sv_connectionCallback s"
    "sv_messageCallback (closing L tid c name s) = sv_messageCallback s"
    "sv_writeCompleteCallback (closing L tid c name s) = sv_writeCompleteCallback s" by (simp_all add: closing_def)
  ultimately show ?thesis
    unfolding only_def closing_sel closing_lists closing_refs by (auto simp: closing_ep [OF assms(1)])
qed


lemma active_ok_other:
  assumes act: "active_ok at s" and a: "\<And>as. at L = InEvents as \<Longrightarrow> a \<notin> set as"
    and same: "\<And>M b. M \<noteq> L \<or> b \<noteq> a \<Longrightarrow> channels (loops s' M) b = channels (loops s M) b"
  shows "active_ok at s'"
  unfolding active_ok_def
proof (intro allI impI conjI ballI)
  fix M as b assume as: "at M = InEvents as"
  show "distinct as" using act as by (simp add: active_ok_def)
  assume b: "b \<in> set as"
  then have "M \<noteq> L \<or> b \<noteq> a" using a as by blast
  from same [OF this] show "\<exists>ch. channels (loops s' M) b = Some ch \<and> m_index ch = kAdded \<and> sane (m_revents ch)"
    using act as b by (simp add: active_ok_def)
qed

lemma view_closing:
  assumes h: "home s c = L" and n: "{k. m_connections s k = Some c} = {name}"
  shows "view at (closing L tid c name s) c =
    (if sv_baseLoop s = L then (view at s c)\<lparr>v_names := {}, v_own := Suc (v_own (view at s c)), v_des := Suc (v_des (view at s c))\<rparr>
     else (view at s c)\<lparr>v_refs := Suc (v_refs (view at s c)), v_own := Suc (v_own (view at s c)), v_rem := Suc (v_rem (view at s c))\<rparr>)"
proof -
  have k: "m_connections s k = Some c \<longleftrightarrow> k = name" for k using n by blast
  have "m_connections (closing L tid c name s) = (if sv_baseLoop s = L then (m_connections s)(name := None) else m_connections s)"
    by (simp add: closing_def)
  then have m: "{k. m_connections (closing L tid c name s) k = Some c} = (if sv_baseLoop s = L then {} else {name})" using k by auto
  show ?thesis
  proof (cases "sv_baseLoop s = L")
    case True
    then show ?thesis
      by (intro view.equality) (simp_all add: view_sel closing_sel closing_lists closing_refs sum_two h m split: option.split)
  next
    case False
    then show ?thesis
      by (intro view.equality) (simp_all add: view_sel closing_sel closing_lists closing_refs sum_two h m n split: option.split)
  qed
qed

text \<open>The invariant after an open connection was closed by its loop.\<close>

lemma srv_inv_closing:
  assumes inv: "srv_inv X at (leave L w)" and c: "conns w c = Some tc" and ch: "channels w (m_channel tc) = Some ch"
    and o: "in_life Open c tc ch (view at (leave L w) c)" and p: "conn_parts c tc ch"
    and e: "eff c w w3 tc3 ch3 (refs w c)" and a: "m_channel tc3 = m_channel tc" "tc_name tc3 = tc_name tc"
    and d: "m_state tc3 = kDisconnected" "m_events ch3 = 0" "m_index ch3 = kDeleted" "conn_parts c tc3 ch3"
    and act: "\<And>as. at L = InEvents as \<Longrightarrow> m_channel tc \<notin> set as"
  shows "srv_inv X at (closing L tid c (tc_name tc) (leave L w3))" (is "srv_inv X at ?s")
proof (rule srv_inv_only [OF inv])
  let ?v = "view at (leave L w) c"
  note h = eff_home [OF inv c]
  have m3: "world.more w3 = world.more w" by (rule effD(8) [OF e])
  have o: "v_names ?v = {tc_name tc}" "v_est ?v = 0" "v_rem ?v = 0" "v_des ?v = 0" using o by simp_all
  have ep: "ep_inv (loops (leave L w3) M)" for M using onlyD(6) [OF only_eff [OF inv c e a(1)]] .
  have nm: "{k. m_connections (leave L w3) k = Some c} = {tc_name tc}" using o(1) m3 by (simp add: view_sel(4))
  have "m_connections (leave L w3) (tc_name tc) = Some c" using nm by blast
  then have "d = c" if "m_connections (leave L w3) (tc_name tc) = Some d" for d using that by (metis option.inject)
  then show on: "only c at (leave L w) at ?s"
    by (intro only_trans [OF only_eff [OF inv c e a(1)] only_closing [OF ep]]) (simp_all only: closing_sel)
  have g: "v_refs ?v = X c + 1 + v_own ?v" "0 < v_refs ?v"
    using srv_invD(1) [OF inv, of c] o(1) c h by (simp_all add: good_def view_sel(1))
  have v: "view at (leave L w3) c = ?v\<lparr>v_conn := Some tc3, v_chan := Some ch3\<rparr>"
    unfolding view_eff [OF inv c e] by (rule view.equality) (simp_all add: view_sel h)
  show "good (X c) c (view at ?s c)"
  proof (cases "sv_baseLoop (world.more w) = L")
    case True
    then show ?thesis using view_closing [of "leave L w3" c L "tc_name tc" at tid] h nm m3 g v d o
      by (auto simp: good_def intro!: exI [of _ Destroying])
  next
    case False
    then show ?thesis using view_closing [of "leave L w3" c L "tc_name tc" at tid] h nm m3 g v d o a
      by (auto simp: good_def intro!: exI [of _ Removing])
  qed
  show "located ?s M f" if "f \<in> set (held at ?s M)" for M f
  proof -
    have hm: "home ?s = home (leave L w)" "sv_baseLoop ?s = sv_baseLoop (leave L w)" by (simp_all add: closing_sel m3)
    have "f \<in> set (held at (leave L w) M) \<or> (f = FDestroyed c \<and> M = L) \<or> (f = FRemove c \<and> M = sv_baseLoop (world.more w))"
      using that m3 unfolding closing_lists eff_unrun [OF e] by (auto split: if_splits)
    then show ?thesis using srv_invD(3) [OF inv, of f M] h unfolding located_home [OF hm] by auto
  qed
  show "conns (loops ?s M) c = None \<and> refs (loops ?s M) c = 0" if "M \<noteq> home ?s c" for M
    using that srv_invD(4,5) [OF inv, of M c] h by (simp add: closing_sel closing_refs m3)
  show "active_ok at ?s"
  proof (rule active_ok_other [OF srv_invD(7) [OF inv] act])
    show "channels (loops ?s M) b = channels (loops (leave L w) M) b" if "M \<noteq> L \<or> b \<noteq> m_channel tc" for M b
      using that e a m3 by (auto simp: closing_sel eff_def)
  qed
  show "names_inv ?s" "pool_ok ?s"
    using srv_invD(9,10) [OF inv] m3 by (auto simp: names_inv_def pool_ok_def closing_def)
qed auto

lemma eff_pending: "eff c w w' tc ch r \<Longrightarrow> m_pendingFunctors (loops (leave L w') M) = m_pendingFunctors (loops (leave L w) M)"
  by (simp add: eff_def)

text \<open>What happens to a connection's channel does not touch the one that wakes the loop.\<close>

lemma wakes_eff:
  assumes "eff c w w' tc ch r" and "\<not> wakes (leave L w) L (m_channel tc)" and "wakes (leave L w) M a"
  shows "wakes (leave L w') M a"
  using assms by (cases "M = L"; cases "a = m_channel tc") (simp_all add: wakes_def eff_def)

lemma forward_eff:
  assumes "eff c w w' tc' ch r" and "conns w c = Some tc" and "moved tc (Some tc')"
  shows "forward (leave L w) (leave L w')"
  using assms unfolding forward_def by (auto simp: eff_def)

lemma closing_grows:
  assumes e: "eff c w w3 tc ch r" and a: "\<not> wakes (leave L w) L (m_channel tc)" and f: "conns w c = Some tc0" "moved tc0 (Some tc)"
  shows "grows (leave L w) (closing L tid c name (leave L w3))"
proof -
  have w: "wakes (closing L tid c name (leave L w3)) M b" if "wakes (leave L w) M b" for M b
    using wakes_eff [OF e a that] wakes_same [of "closing L tid c name (leave L w3)" M b "leave L w3"] by (simp add: closing_sel)
  have "conns (loops (closing L tid c name (leave L w3)) M) = conns (loops (leave L w3) M)"
    "home (closing L tid c name (leave L w3)) = home (leave L w3)" for M by (simp_all add: closing_sel)
  then have fw: "forward (leave L w) (closing L tid c name (leave L w3))" using forward_eff [OF e f, of L] unfolding forward_def by simp
  note q = closing_lists(1) [of "\<lambda>_. AtPoll" L tid c name "leave L w3"] eff_pending [OF e]
  show ?thesis
  proof (cases "sv_baseLoop (leave L w3) = L")
    case True
    show ?thesis by (rule pushed_grows(2), rule pushed_one [where K = L and f = "FDestroyed c", OF _ w fw]) (use q True in \<open>simp_all add: unrun_def\<close>)
  next
    case False
    show ?thesis by (rule pushed_grows(2), rule pushed_one [where K = "sv_baseLoop (leave L w3)" and f = "FRemove c", OF _ w fw])
      (use q False in \<open>simp_all add: unrun_def\<close>)
  qed
qed

end
