(* ===== verification/Server_Events.thy ===== *)
theory Server_Events
  imports Server_Machine
begin

text \<open>
  The event handlers of a server's loop and the invariant of \<^verbatim>\<open>Server_Machine\<close>: an event on the channel of an
  open connection leaves it open or closes it, the other channels (wake-up, timers, the acceptor)
  touch no connection that exists.
\<close>

section \<open>The handlers of a connection\<close>

text \<open>What an event makes of connection \<open>c\<close>, from \<open>w0\<close> to \<open>w\<close>: it has been read from and used, or it was closed.\<close>

definition still_open :: "nat \<Rightarrow> sworld \<Rightarrow> tcpconn \<Rightarrow> channel \<Rightarrow> nat \<Rightarrow> sworld \<Rightarrow> bool" where
  "still_open c w0 tc ch r w \<longleftrightarrow> (\<exists>tc' ch'. used tc ch tc' ch' \<and> eff c w0 w tc' ch' r)"

definition now_closed :: "addr \<Rightarrow> nat \<Rightarrow> sworld \<Rightarrow> tcpconn \<Rightarrow> channel \<Rightarrow> nat \<Rightarrow> sworld \<Rightarrow> bool" where
  "now_closed L c w0 tc ch r w \<longleftrightarrow>
     (\<exists>k w3. Kfifo_ready k \<and> eff c w0 w3 (tc\<lparr>m_inputBuffer := k, m_state := kDisconnected\<rparr>) (ch\<lparr>m_events := 0, m_index := kDeleted\<rparr>) r \<and>
       leave L w = closing L (m_threadId w0) c (tc_name tc) (leave L w3))"

lemma still_open_at:
  assumes "still_open c w0 tc ch r w"
  shows "\<exists>tc' ch'. used tc ch tc' ch' \<and> conns w c = Some tc' \<and> channels w (m_channel tc) = Some ch' \<and> Channel_at w (m_channel tc) = Inr ch'"
proof -
  obtain tc' ch' where "used tc ch tc' ch'" "eff c w0 w tc' ch' r" using assms by (auto simp: still_open_def)
  then show ?thesis using effD(2,3,6) [of c w0 w tc' ch' r] usedD(1) [of tc ch tc' ch'] by auto
qed

lemma now_closed_at:
  assumes "now_closed L c w0 tc ch r w"
  shows "\<exists>k. conns w c = Some (tc\<lparr>m_inputBuffer := k, m_state := kDisconnected\<rparr>)"
    "channels w (m_channel tc) = Some (ch\<lparr>m_events := 0, m_index := kDeleted\<rparr>)"
    "Channel_at w (m_channel tc) = Inr (ch\<lparr>m_events := 0, m_index := kDeleted\<rparr>)"
proof -
  obtain k w3 where w: "eff c w0 w3 (tc\<lparr>m_inputBuffer := k, m_state := kDisconnected\<rparr>) (ch\<lparr>m_events := 0, m_index := kDeleted\<rparr>) r"
    "leave L w = closing L (m_threadId w0) c (tc_name tc) (leave L w3)" using assms by (auto simp: now_closed_def)
  have "loops (leave L w) L = world.truncate w" "loops (leave L w3) L = world.truncate w3" by simp_all
  then have "conns w = conns w3" "channels w = channels w3" using closing_sel(2,3) w(2) by (metis truncate_sel(1,7))+
  then show "\<exists>k. conns w c = Some (tc\<lparr>m_inputBuffer := k, m_state := kDisconnected\<rparr>)"
    "channels w (m_channel tc) = Some (ch\<lparr>m_events := 0, m_index := kDeleted\<rparr>)"
    "Channel_at w (m_channel tc) = Inr (ch\<lparr>m_events := 0, m_index := kDeleted\<rparr>)"
    using effD(2,3) [OF w(1)] by (auto simp: Channel_at_def)
qed

text \<open>What the handlers need of an open connection and of the server around it.\<close>

definition open_in :: "addr \<Rightarrow> nat \<Rightarrow> sworld \<Rightarrow> tcpconn \<Rightarrow> channel \<Rightarrow> bool" where
  "open_in L c w0 tc ch \<longleftrightarrow> conn_parts c tc ch \<and> lively tc ch \<and>
     home (world.more w0) c = L \<and> m_connections (world.more w0) (tc_name tc) = Some c \<and> own_threads (leave L w0)"

lemma still_open_start: "eff c w0 w tc ch r \<Longrightarrow> open_in L c w0 tc ch \<Longrightarrow> still_open c w0 tc ch r w"
  using used_same [of tc ch] conn_parts_ready [of c tc ch] by (auto simp: still_open_def open_in_def)

lemma handleClose_open:
  assumes o: "open_in L c w0 tc ch" and e: "env_ok E" and k: "Kfifo_ready k" and w: "eff c w0 w (tc\<lparr>m_inputBuffer := k\<rparr>) ch r" and r: "0 < r"
  shows "\<exists>w'. TcpConnection_handleClose (e_ctl E) (srv_user E L) c w = Inr w' \<and> now_closed L c w0 tc ch r w'"
proof -
  have "next_index ch 0 = kDeleted" "conn_parts c (tc\<lparr>m_inputBuffer := k\<rparr>) ch" "kernel_accepts (e_ctl E)" "polite (e_user E)"
    "home (world.more w0) c = L" "m_connections (world.more w0) (tc_name tc) = Some c" "own_threads (leave L w0)"
    using o e k by (simp_all add: open_in_def lively_def next_index_def conn_parts_def env_ok_def)
  then show ?thesis using handleClose_eff [OF w r, of E L] by (fastforce simp: now_closed_def)
qed

lemma handleRead_open:
  assumes o: "open_in L c w0 tc ch" and e: "env_ok E" and w: "eff c w0 w tc ch r" and r: "0 < r" and f: "read_fits (e_readv E) tc ch"
  shows "\<exists>w'. TcpConnection_handleRead (e_ctl E) (e_mx E) (e_readv E) (srv_user E L) t c w = Inr w' \<and>
    (still_open c w0 tc ch r w' \<or> now_closed L c w0 tc ch r w')"
proof -
  note at = effD(5,6) [OF w] effD(2) [OF w]
  have ok: "Kfifo_inv (m_inputBuffer tc)" "buffer (m_inputBuffer tc) \<noteq> None" "m_messageCallback tc \<noteq> None"
    using o by (auto simp: open_in_def conn_parts_def Kfifo_ready_def)
  note eq = Kfifo_readFd_eq [OF ok(1,2), where readv = "e_readv E" and fd = "m_fd ch" and mx = "e_mx E"]
  show ?thesis
  proof (cases "e_readv E (m_fd ch) (Kfifo_iov (m_inputBuffer tc))")
    case (Inl x)
    have "Conn_put c tc w = w" "Conn_channel w c = Inr ch" using at by (simp_all add: Conn_put_same Conn_channel_def)
    then have "TcpConnection_handleRead (e_ctl E) (e_mx E) (e_readv E) (srv_user E L) t c w = Inr w"
      using eq at unfolding Inl by (simp add: TcpConnection_handleRead_def TcpConnection_handleError_def)
    then show ?thesis using still_open_start [OF w o] by blast
  next
    case (Inr bytes)
    then obtain k where k: "Kfifo_readFd (e_mx E) (e_readv E) (m_inputBuffer tc) (m_fd ch) = Inr (int (length bytes), None, k)"
      "Kfifo_ready k" using eq f by (auto simp: read_fits_def Kfifo_ready_def)
    let ?w = "Conn_put c (tc\<lparr>m_inputBuffer := k\<rparr>) w"
    have w1: "eff c w0 ?w (tc\<lparr>m_inputBuffer := k\<rparr>) ch r" using eff_put [OF w] by simp
    have p: "conn_parts c (tc\<lparr>m_inputBuffer := k\<rparr>) ch" "lively (tc\<lparr>m_inputBuffer := k\<rparr>) ch" and l: "m_state tc \<noteq> kDisconnected"
      using o k(2) by (auto simp: open_in_def conn_parts_def lively_def)
    obtain w2 tc2 ch2 where w2: "invoke (srv_user E L) (m_messageCallback tc) (UMessage c t) ?w = Inr w2" "eff c w0 w2 tc2 ch2 r"
      "used (tc\<lparr>m_inputBuffer := k\<rparr>) ch tc2 ch2"
      using eff_invoke [OF w1, of E "UMessage c t" "m_messageCallback tc" L] e ok(3) p by (auto simp: env_ok_def)
    have "used tc ch (tc\<lparr>m_inputBuffer := k\<rparr>) ch"
      using usedI [of k "m_outputBuffer tc" tc "m_state tc" "m_events ch" ch] k(2) p l conn_parts_ready [OF p(1)] by simp
    then have s2: "still_open c w0 tc ch r w2" using w2(2) used_trans [OF _ w2(3)] by (auto simp: still_open_def)
    show ?thesis using handleClose_open [OF o e k(2) w1 r] k(1) at w2(1) s2
      by (cases "bytes = []") (auto simp: TcpConnection_handleRead_def Let_def)
  qed
qed

text \<open>Output that was queued stays queued, so the write handler changes nothing.\<close>

lemma handleWrite_idle:
  assumes c: "conns w c = Some tc" and a: "channels w (m_channel tc) = Some ch" and o: "Kfifo_ready (m_outputBuffer tc)" "kread (m_outputBuffer tc) = 0"
    and q: "Channel_isWriting ch \<Longrightarrow> out_bytes tc \<noteq> []"
  shows "TcpConnection_handleWrite ctl mx wr c w = Inr w"
proof -
  have at: "Conn_at w c = Inr tc" "Channel_at w (m_channel tc) = Inr ch" using c a by (simp_all add: Conn_at_def Channel_at_def)
  have k: "Kfifo_inv (m_outputBuffer tc)" "buffer (m_outputBuffer tc) \<noteq> None" using o(1) by (auto simp: Kfifo_ready_def)
  have "length (out_bytes tc) \<le> unat (bufferSize (m_outputBuffer tc))"
    using k length_Kfifo_contents by (fastforce simp: Kfifo_inv_def)
  then have f: "Kfifo_writeFd mx wr (m_outputBuffer tc) (m_fd ch) =
      (case wr (m_fd ch) (out_bytes tc) of Inl e \<Rightarrow> Inr (- 1, Some e, m_outputBuffer tc)
       | Inr n \<Rightarrow> Inr (int n, None, m_outputBuffer tc))"
    using Kfifo_writeFd_eq [OF k, of mx wr "m_fd ch"] o(2) by simp
  have len: "readable_len mx c w = Inr (length (out_bytes tc), w)" "conn_set_out c (m_outputBuffer tc) w = Inr w"
    using readable_len_ok [OF c k] conn_set_out_same [OF c] by simp_all
  show ?thesis
    using q at len f by (cases "wr (m_fd ch) (out_bytes tc)") (auto simp: TcpConnection_handleWrite_def)
qed

lemma handlers_idle:
  assumes o: "open_in L c w0 tc ch" and w: "still_open c w0 tc ch r w \<or> now_closed L c w0 tc ch r w"
  shows "TcpConnection_handleError c w = Inr w" "TcpConnection_handleWrite ctl mx wr c w = Inr w"
proof -
  have p: "conn_parts c tc ch" "m_state tc \<noteq> kDisconnected" using o by (auto simp: open_in_def lively_def)
  obtain tc' ch' where c: "conns w c = Some tc'" "channels w (m_channel tc') = Some ch'" "Kfifo_ready (m_outputBuffer tc')"
    "kread (m_outputBuffer tc') = 0" "Channel_isWriting ch' \<Longrightarrow> out_bytes tc' \<noteq> []"
  proof (cases "still_open c w0 tc ch r w")
    case True
    then obtain tc' ch' where "used tc ch tc' ch'" "conns w c = Some tc'" "channels w (m_channel tc) = Some ch'" using still_open_at by blast
    then show ?thesis using that [of tc' ch'] usedD(1,7,8) [of tc ch tc' ch'] p conn_parts_ready [of c tc' ch'] by (auto simp: lively_def)
  next
    case False
    then have "now_closed L c w0 tc ch r w" using w by simp
    from now_closed_at [OF this] show ?thesis using conn_parts_ready [OF p(1)] by (auto intro!: that simp: Channel_isWriting_def)
  qed
  show "TcpConnection_handleError c w = Inr w"
    using c by (simp add: TcpConnection_handleError_def Conn_channel_def Conn_at_def Channel_at_def)
  show "TcpConnection_handleWrite ctl mx wr c w = Inr w" using handleWrite_idle [OF c(1,2)] c by simp
qed

text \<open>The dispatch of one event.\<close>

lemma srv_cbs_write: "srv_cbs E L (cb_connWrite c) t w = TcpConnection_handleWrite (e_ctl E) (e_mx E) (e_write E) c w"
proof -
  have "(4 * c + 4 - 3) div 4 = c" by linarith
  then show ?thesis
    by (simp add: srv_cbs_def cb_connClose_def cb_connRead_def cb_connWrite_def cb_connError_def cb_handRead_def
        cb_timerRead_def cb_accept_def Let_def)
qed

lemma revents_read: "r AND (EPOLLIN OR EPOLLPRI) \<noteq> 0 \<longleftrightarrow> r AND EPOLLIN \<noteq> 0 \<or> r AND EPOLLPRI \<noteq> 0"
  by (simp add: bit.conj_disj_distrib or_eq_0_iff)

lemma fire_idle:
  assumes "Channel_at w a = Inr ch" and "\<And>f. cb ch = Some f \<Longrightarrow> run f t w = Inr w"
  shows "Channel_fire run cond cb t a w = Inr w"
  using assms by (auto simp: Channel_fire_def split: option.split)

lemma guard_open:
  assumes o: "open_in L c w0 tc ch" and e: "env_ok E" and w: "eff c w0 w tc ch r" and r: "0 < r" and f: "read_fits (e_readv E) tc ch"
    and n: "sane (m_revents ch)"
  shows "\<exists>w'. Channel_handleEventWithGuard (srv_cbs E L) t (m_channel tc) w = Inr w' \<and>
    (still_open c w0 tc ch r w' \<or> now_closed L c w0 tc ch r w')"
proof -
  let ?a = "m_channel tc" and ?run = "srv_cbs E L" and ?hup = "m_revents ch AND EPOLLHUP \<noteq> 0 \<and> m_revents ch AND EPOLLIN = 0"
  have cb: "m_readCallBack ch = Some (cb_connRead c)" "m_writeCallBack ch = Some (cb_connWrite c)"
    "m_closeCallBack ch = Some (cb_connClose c)" "m_errorCallBack ch = Some (cb_connError c)"
    using o by (simp_all add: open_in_def conn_parts_def)
  note w1 = still_open_start [OF w o] and at = effD(6) [OF w]
  have k: "Kfifo_ready (m_inputBuffer tc)" "eff c w0 w (tc\<lparr>m_inputBuffer := m_inputBuffer tc\<rparr>) ch r"
    using o w by (simp_all add: open_in_def conn_parts_def)
  note close = handleClose_open [OF o e k r] and read = handleRead_open [OF o e w r f, of t]
  have closed: "Channel_fire ?run cond m_errorCallBack t ?a v = Inr v" "Channel_fire ?run cond m_writeCallBack t ?a v = Inr v"
    if v: "still_open c w0 tc ch r v \<or> now_closed L c w0 tc ch r v" for v cond
  proof -
    obtain dh where "Channel_at v ?a = Inr dh" "m_errorCallBack dh = m_errorCallBack ch" "m_writeCallBack dh = m_writeCallBack ch"
    proof (cases "still_open c w0 tc ch r v")
      case True
      then show ?thesis using still_open_at [OF True] that by (fastforce simp: used_def)
    next
      case False
      then show ?thesis using v now_closed_at(3) that by fastforce
    qed
    then show "Channel_fire ?run cond m_errorCallBack t ?a v = Inr v" "Channel_fire ?run cond m_writeCallBack t ?a v = Inr v"
      using handlers_idle [OF o v] cb by (auto intro!: fire_idle simp: srv_cbs_conn srv_cbs_write)
  qed
  have fire_close: "Channel_fire ?run (\<lambda>ch. m_revents ch AND EPOLLHUP \<noteq> 0 \<and> m_revents ch AND EPOLLIN = 0) m_closeCallBack t ?a w = Inr v"
    if "?hup" "TcpConnection_handleClose (e_ctl E) (srv_user E L) c w = Inr v" for v
    using that at cb by (simp add: Channel_fire_def srv_cbs_conn)
  have fire_read: "Channel_fire ?run (\<lambda>ch. m_revents ch AND (EPOLLIN OR EPOLLPRI) \<noteq> 0) m_readCallBack t ?a v = Inr v"
    if "\<not> m_revents ch AND (EPOLLIN OR EPOLLPRI) \<noteq> 0" "Channel_at v ?a = Inr (ch\<lparr>m_events := 0, m_index := kDeleted\<rparr>)" for v
    using that by (simp add: Channel_fire_def)
  show ?thesis
  proof (cases ?hup)
    case True
    then have nr: "\<not> m_revents ch AND (EPOLLIN OR EPOLLPRI) \<noteq> 0" using n unfolding revents_read sane_def by blast
    obtain w' where w': "TcpConnection_handleClose (e_ctl E) (srv_user E L) c w = Inr w'" "now_closed L c w0 tc ch r w'" using close by blast
    have "Channel_handleEventWithGuard ?run t ?a w = Inr w'"
      using fire_close [OF True w'(1)] fire_read [OF nr now_closed_at(3) [OF w'(2)]] closed [of w'] w'(2)
      by (simp add: Channel_handleEventWithGuard_def)
    then show ?thesis using w'(2) by blast
  next
    case False
    then have 1: "Channel_fire ?run (\<lambda>ch. m_revents ch AND EPOLLHUP \<noteq> 0 \<and> m_revents ch AND EPOLLIN = 0) m_closeCallBack t ?a w = Inr w"
      using at by (auto simp: Channel_fire_def)
    have fire: "Channel_fire ?run (\<lambda>ch. m_revents ch AND (EPOLLIN OR EPOLLPRI) \<noteq> 0) m_readCallBack t ?a w =
        (if m_revents ch AND (EPOLLIN OR EPOLLPRI) \<noteq> 0 then TcpConnection_handleRead (e_ctl E) (e_mx E) (e_readv E) (srv_user E L) t c w else Inr w)"
      using at cb by (simp add: Channel_fire_def srv_cbs_conn)
    have "\<exists>w'. Channel_fire ?run (\<lambda>ch. m_revents ch AND (EPOLLIN OR EPOLLPRI) \<noteq> 0) m_readCallBack t ?a w = Inr w' \<and>
      (still_open c w0 tc ch r w' \<or> now_closed L c w0 tc ch r w')"
      unfolding fire using read w1 by simp
    then show ?thesis using 1 closed w1 by (auto simp: Channel_handleEventWithGuard_def)
  qed
qed

lemma release_open: "still_open c w0 tc ch (Suc r) w \<Longrightarrow> 0 < r \<Longrightarrow> \<exists>w'. release_conn c w = Inr w' \<and> still_open c w0 tc ch r w'"
  using eff_release by (fastforce simp: still_open_def)

lemma release_leave:
  assumes "release_conn c (enter L (leave L w)) = Inr w1"
  shows "\<exists>w2. release_conn c w = Inr w2 \<and> leave L w2 = leave L w1"
proof -
  have w: "w = world.extend (world.truncate w) (world.more w)" by (cases w) (simp add: world.defs)
  obtain u where u: "release_conn c (world.truncate w) = Inr u" "w1 = world.extend u (leave L w)"
    using assms by (cases "release_conn c (world.truncate w)") (auto simp: enter_def release_extend)
  have "release_conn c w = Inr (world.extend u (world.more w))" using u(1) by (subst w) (simp add: release_extend)
  moreover have "leave L (world.extend u (world.more w)) = leave L w1" unfolding u(2) leave_extend by (simp add: leave_def)
  ultimately show ?thesis by blast
qed

lemma release_closed:
  assumes "now_closed L c w0 tc ch (Suc r) w" and "0 < r"
  shows "\<exists>w'. release_conn c w = Inr w' \<and> now_closed L c w0 tc ch r w'"
proof -
  obtain n where n: "r = Suc n" using assms(2) gr0_implies_Suc by blast
  obtain k w3 where k: "Kfifo_ready k" and w3: "eff c w0 w3 (tc\<lparr>m_inputBuffer := k, m_state := kDisconnected\<rparr>) (ch\<lparr>m_events := 0, m_index := kDeleted\<rparr>) (Suc r)"
    and w: "leave L w = closing L (m_threadId w0) c (tc_name tc) (leave L w3)" using assms(1) by (auto simp: now_closed_def)
  let ?w4 = "w3\<lparr>refs := (refs w3)(c := r)\<rparr>"
  have w4: "eff c w0 ?w4 (tc\<lparr>m_inputBuffer := k, m_state := kDisconnected\<rparr>) (ch\<lparr>m_events := 0, m_index := kDeleted\<rparr>) r"
    by (rule eff_same [OF w3]) simp_all
  have "leave L ?w4 = (leave L w3)\<lparr>loops := (loops (leave L w3))(L := (loops (leave L w3) L)\<lparr>refs := (refs (loops (leave L w3) L))(c := r)\<rparr>)\<rparr>"
    by (simp add: leave_def world.defs)
  then obtain w' where "release_conn c (enter L (leave L w)) = Inr w'" "leave L w' = closing L (m_threadId w0) c (tc_name tc) (leave L ?w4)"
    using closing_release [of "leave L w3" L c n] effD(4) [OF w3] n unfolding w by auto
  then show ?thesis using release_leave [of c L w] k w4 by (fastforce simp: now_closed_def)
qed

section \<open>An event and the invariant\<close>

lemma good_revents:
  assumes "good x c v"
  shows "good x c (v\<lparr>v_chan := map_option (\<lambda>ch. ch\<lparr>m_revents := f ch\<rparr>) (v_chan v)\<rparr>)"
proof (cases "v_conn v")
  case None
  then show ?thesis using assms by (simp add: good_def)
next
  case (Some tc)
  have l: "in_life l c tc (ch\<lparr>m_revents := e\<rparr>) (v\<lparr>v_chan := z\<rparr>) \<longleftrightarrow> in_life l c tc ch v" for l ch e z
    by (cases l) (simp_all add: Channel_isReading_def Channel_isWriting_def)
  have p: "conn_parts c tc (ch\<lparr>m_revents := e\<rparr>) \<longleftrightarrow> conn_parts c tc ch" for ch e by (simp add: conn_parts_def)
  obtain ch k where "v_chan v = Some ch" "conn_parts c tc ch" "in_life k c tc ch v" "0 < v_refs v"
    "v_refs v = x + (if v_names v = {} then 0 else 1) + v_own v" using assms Some unfolding good_def by auto
  then have "v_conn (v\<lparr>v_chan := map_option (\<lambda>ch. ch\<lparr>m_revents := f ch\<rparr>) (v_chan v)\<rparr>) = Some tc"
    "v_chan (v\<lparr>v_chan := map_option (\<lambda>ch. ch\<lparr>m_revents := f ch\<rparr>) (v_chan v)\<rparr>) = Some (ch\<lparr>m_revents := f ch\<rparr>)" using Some by simp_all
  then show ?thesis using l [where l = k and ch = ch and e = "f ch"] p [where ch = ch and e = "f ch"] \<open>in_life k c tc ch v\<close> \<open>conn_parts c tc ch\<close> \<open>0 < v_refs v\<close>
      \<open>v_refs v = x + (if v_names v = {} then 0 else 1) + v_own v\<close>
    unfolding good_def by auto
qed

text \<open>A change that no connection sees, except that the events of channels may have been recorded.\<close>

lemma srv_inv_alike:
  assumes inv: "srv_inv X at s"
    and st: "home s' = home s" "sv_baseLoop s' = sv_baseLoop s" "m_connections s' = m_connections s" "sv_pool s' = sv_pool s"
      "sv_connectionCallback s' = sv_connectionCallback s" "sv_messageCallback s' = sv_messageCallback s"
      "sv_writeCompleteCallback s' = sv_writeCompleteCallback s"
      "m_nextConnId s' = m_nextConnId s" "sv_name s' = sv_name s" "sv_ipPort s' = sv_ipPort s"
    and lp: "\<And>M. conns (loops s' M) = conns (loops s M)" "\<And>M. refs (loops s' M) = refs (loops s M)"
      "\<And>M. m_threadId (loops s' M) = m_threadId (loops s M)" "\<And>M. m_channel_map (loops s' M) = m_channel_map (loops s M)"
      "\<And>M. ctlLog (loops s' M) = ctlLog (loops s M)"
    and ch: "\<And>M b. channels (loops s' M) b = map_option (\<lambda>ch. ch\<lparr>m_revents := r M b ch\<rparr>) (channels (loops s M) b)"
    and q: "\<And>M. unrun at' s' M = unrun at s M" "\<And>M. held at' s' M = held at s M" and act: "active_ok at' s'"
  shows "srv_inv X at' s'"
  unfolding srv_inv_def
proof (intro conjI allI impI ballI)
  have co: "chan_of c s' L b \<longleftrightarrow> chan_of c s L b" for c L b by (simp add: chan_of_def st lp)
  show "good (X c) c (view at' s' c)" for c
  proof -
    have "view at' s' c = (view at s c)\<lparr>v_chan := map_option (\<lambda>ch.
        ch\<lparr>m_revents := r (home s c) (case conns (loops s (home s c)) c of Some tc \<Rightarrow> m_channel tc | None \<Rightarrow> 0) ch\<rparr>) (v_chan (view at s c))\<rparr>"
      by (rule view.equality) (simp_all add: view_sel st lp q ch split: option.split)
    then show ?thesis using good_revents [OF srv_invD(1) [OF inv, of c]] by simp
  qed
  show "ep_inv (loops s' L)" for L by (rule ep_inv_revents [OF srv_invD(2) [OF inv, of L] ch]) (simp_all add: lp)
  show "located s' L f" if "f \<in> set (held at' s' L)" for L f
    using srv_invD(3) [OF inv, of f L] that located_home [OF st(1,2)] by (simp add: q)
  show "own_channel s' L dh \<or> (\<exists>c. chan_of c s' L b)" if "channels (loops s' L) b = Some dh" for L b dh
    using that srv_invD(6) [OF inv, of L b] by (auto simp: ch co own_channel_def st)
  show "own_threads s'" using srv_invD(8) [OF inv] by (simp add: own_threads_def st lp)
  show "names_inv s'" "pool_ok s'" using srv_invD(9,10) [OF inv] by (simp_all add: names_inv_def pool_ok_def st)
qed (use srv_invD(4,5,11-13) [OF inv] act in \<open>simp_all add: st lp\<close>)

lemma revents_same: "ch\<lparr>m_revents := m_revents ch\<rparr> = ch"
  by (cases ch) simp

lemma map_option_same: "map_option (\<lambda>ch. ch\<lparr>m_revents := m_revents ch\<rparr>) z = z"
  by (simp add: revents_same option.map_ident)

lemmas srv_inv_quiet = srv_inv_alike [where r = "\<lambda>M b ch. m_revents ch", unfolded map_option_same]

lemma srv_inv_place:
  assumes "srv_inv X at s" and "\<And>L. todo (at' L) = todo (at L)" "\<And>L. finished (at' L) = finished (at L)" and "active_ok at' s"
  shows "srv_inv X at' s"
  by (rule srv_inv_quiet [OF assms(1)]) (simp_all add: assms unrun_def held_def)

lemma goodD:
  assumes "good x c v"
  shows "v_refs v = x + (if v_names v = {} then 0 else 1) + v_own v" "v_conn v = Some tc \<Longrightarrow> 0 < v_refs v" "v_conn v = None \<Longrightarrow> v_refs v = 0"
  using assms unfolding good_def by (elim conjE, simp only: option.case)+

lemma goodI:
  assumes "v_conn v = Some tc" "v_refs v = x + (if v_names v = {} then 0 else 1) + v_own v" "0 < v_refs v" "v_chan v = Some ch"
    "conn_parts c tc ch" "in_life l c tc ch v"
  shows "good x c v"
  unfolding good_def assms(1) option.case using assms(2-) by blast

lemma conn_refs: "srv_inv X at s \<Longrightarrow> home s c = L \<Longrightarrow> conns (loops s L) c = Some tc \<Longrightarrow> 0 < refs (loops s L) c"
  using goodD(2) [OF srv_invD(1) [of X at s c], of tc] unfolding view_sel(1,3) by blast

lemma active_okD:
  assumes "active_ok at s" and "at L = InEvents (a # as)"
  shows "\<exists>ch. channels (loops s L) a = Some ch \<and> m_index ch = kAdded \<and> sane (m_revents ch)" "a \<notin> set as"
    "active_ok (at(L := InEvents as)) s"
proof -
  have d: "distinct (a # as)" using assms unfolding active_ok_def by blast
  have "\<forall>b \<in> set (a # as). \<exists>ch. channels (loops s L) b = Some ch \<and> m_index ch = kAdded \<and> sane (m_revents ch)"
    using assms unfolding active_ok_def by blast
  with d show "\<exists>ch. channels (loops s L) a = Some ch \<and> m_index ch = kAdded \<and> sane (m_revents ch)" "a \<notin> set as"
    "active_ok (at(L := InEvents as)) s" using assms(1) by (auto simp: active_ok_def)
qed

lemma srv_inv_handled:
  assumes inv: "srv_inv X at s" and l: "at L = InEvents (a # as)"
  shows "srv_inv X (at(L := InEvents as)) s"
  by (rule srv_inv_place [OF inv]) (simp_all add: l active_okD(3) [OF srv_invD(7) [OF inv] l])

lemma in_life_added:
  assumes "in_life l c tc ch v" and "m_index ch = kAdded"
  shows "in_life Open c tc ch v"
  using assms by (cases l) auto

text \<open>An open connection stays open when it is used.\<close>

lemma in_life_used:
  assumes "in_life Open c tc ch v" and "used tc ch tc' ch'"
  shows "in_life Open c tc' ch' (v\<lparr>v_conn := a, v_chan := b, v_refs := r\<rparr>)"
proof -
  have o: "m_state tc = kConnected \<or> m_state tc = kDisconnecting" "m_tied ch" "m_tie ch = Some c" "v_names v = {tc_name tc}"
    "v_est v = 0" "v_rem v = 0" "v_des v = 0" using assms(1) by simp_all
  have "lively tc' ch'" by (rule usedD(8) [OF assms(2)]) (use o(1) in auto)
  moreover have "tc_name tc' = tc_name tc" "m_tied ch' = m_tied ch" "m_tie ch' = m_tie ch" using usedD(2,5,6) [OF assms(2)] by blast+
  ultimately show ?thesis using o(2-) by (simp add: lively_def)
qed

text \<open>An event on a connection's channel.\<close>

lemma srv_event_conn:
  assumes inv: "srv_inv X at s" and l: "at L = InEvents (a # as)" and c: "chan_of c s L a" and e: "env_ok E" and f: "event_legal E L a s"
  shows "\<exists>s'. srv_event E L t a s = Inr s' \<and> srv_inv X (at(L := InEvents as)) s' \<and> grows s s'"
proof -
  let ?at = "at(L := InEvents as)" and ?w = "enter L s"
  note act = active_okD [OF srv_invD(7) [OF inv] l]
  have inv': "srv_inv X ?at (leave L ?w)" using srv_inv_handled [OF inv l] by simp
  obtain tc ch k where tc: "home s c = L" "conns (loops s L) c = Some tc" "m_channel tc = a" "channels (loops s L) a = Some ch"
    "conn_parts c tc ch" "in_life k c tc ch (view ?at s c)" using chan_ofD [OF srv_inv_handled [OF inv l] c] by blast
  have ch: "m_index ch = kAdded" "sane (m_revents ch)" using act(1) tc(4) by auto
  have o: "in_life Open c tc ch (view ?at (leave L ?w) c)" using in_life_added [OF tc(6) ch(1)] by simp
  then have tie: "m_tied ch" "m_tie ch = Some c" and nm: "v_names (view ?at s c) = {tc_name tc}" by simp_all
  have r: "0 < refs (loops s L) c" using conn_refs [OF inv] tc(1,2) by blast
  have "ep_inv ?w" using srv_invD(2) [OF inv, of L] ep_inv_same [of ?w "loops s L"] by simp
  then have "eff c ?w ?w tc ch (refs (loops s L) c)" using eff_start [of ?w c tc ch] tc by simp
  then have w: "eff c ?w (acquire c ?w) tc ch (Suc (refs (loops s L) c))" by (rule eff_acquire)
  have "m_connections s (tc_name tc) = Some c" using nm by (auto simp: view_sel(4))
  then have op: "open_in L c ?w tc ch" using tc o ch srv_invD(8) [OF inv] by (simp add: open_in_def lively_def)
  have "read_fits (e_readv E) tc ch" using f tc by (simp add: event_legal_def)
  from guard_open [OF op e w _ this ch(2)] obtain w1 where
    w1: "Channel_handleEventWithGuard (srv_cbs E L) t (m_channel tc) (acquire c ?w) = Inr w1"
      "still_open c ?w tc ch (Suc (refs (loops s L) c)) w1 \<or> now_closed L c ?w tc ch (Suc (refs (loops s L) c)) w1" by blast
  obtain w2 where w2: "release_conn c w1 = Inr w2" "still_open c ?w tc ch (refs ?w c) w2 \<or> now_closed L c ?w tc ch (refs ?w c) w2"
    using w1(2) release_open release_closed r by (metis enter_sel(4))
  have ev: "srv_event E L t a s = Inr (leave L w2)"
    using w1(1) w2(1) tie tc r by (simp add: srv_event_def at_loop_def Channel_handleEvent_def Channel_at_def acquire_def)
  have sl: "\<not> wakes s L (m_channel tc)" using chan_of_asleep [OF inv c] tc(3) by simp
  have "srv_inv X ?at (leave L w2) \<and> grows (leave L ?w) (leave L w2)"
  proof (cases "still_open c ?w tc ch (refs ?w c) w2")
    case True
    then obtain tc' ch' where k: "used tc ch tc' ch'" "eff c ?w w2 tc' ch' (refs ?w c)" by (auto simp: still_open_def)
    note u = usedD [OF k(1)]
    have "srv_inv X ?at (leave L w2)"
    proof (rule srv_inv_eff [OF inv' _ k(2)])
      have lf: "in_life Open c tc' ch' ((view ?at (leave L ?w) c)\<lparr>v_conn := Some tc', v_chan := Some ch', v_refs := refs ?w c\<rparr>)"
        by (rule in_life_used [OF o k(1)])
      show "good (X c) c ((view ?at (leave L ?w) c)\<lparr>v_conn := Some tc', v_chan := Some ch', v_refs := refs ?w c\<rparr>)"
        by (rule goodI [where l = Open and tc = tc' and ch = ch', OF _ _ _ _ u(7) [OF tc(5)] lf])
           (use goodD(1) [OF srv_invD(1) [OF inv', of c]] tc(1) r in \<open>simp_all add: view_sel(3)\<close>)
      show "m_index ch' = kAdded \<and> sane (m_revents ch')" using ch u(3,4) by simp
    qed (use tc(1,2) u(1) in simp_all)
    then show ?thesis using pushed_grows(1) [OF pushed_none [OF eff_pending [OF k(2), of L] wakes_eff [OF k(2), of L] forward_eff [OF k(2) _ u(11), of L]]] sl u(1) tc(2) by simp
  next
    case False
    then obtain k w3 where k: "Kfifo_ready k" and w3: "eff c ?w w3 (tc\<lparr>m_inputBuffer := k, m_state := kDisconnected\<rparr>)
        (ch\<lparr>m_events := 0, m_index := kDeleted\<rparr>) (refs ?w c)"
      and s: "leave L w2 = closing L (m_threadId ?w) c (tc_name tc) (leave L w3)" using w2(2) by (auto simp: now_closed_def)
    have "srv_inv X ?at (leave L w2)" unfolding s
      by (rule srv_inv_closing [OF inv' _ _ o tc(5) w3]) (use tc act(2) k in \<open>auto simp: conn_parts_def\<close>)
    then show ?thesis using closing_grows [OF w3 _ _, of L tc "m_threadId ?w" "tc_name tc"] s sl tc(2) by simp
  qed
  then show ?thesis using ev by simp
qed

end
