(* ===== verification/Server_Accept.thy ===== *)
theory Server_Accept
  imports Server_Events
begin

text \<open>
  The channels that belong to no connection: the wake-up descriptor, the timers and the listening socket.
  Accepting a connection brings it to life, open at once when it stays with the base loop and
  otherwise waiting for its loop to establish it.
\<close>

section \<open>The server while a connection is set up\<close>

text \<open>From \<open>s0\<close> to \<open>s\<close> nothing but connection \<open>c\<close> in loop \<open>L\<close> has changed.\<close>

definition seff :: "nat \<Rightarrow> addr \<Rightarrow> srv \<Rightarrow> srv \<Rightarrow> tcpconn \<Rightarrow> channel \<Rightarrow> nat \<Rightarrow> bool" where
  "seff c L s0 s tc ch r \<longleftrightarrow> (\<exists>u. s = s0\<lparr>loops := (loops s0)(L := u)\<rparr> \<and> eff c (loops s0 L) u tc ch r)"

lemma eff_world:
  "eff c (enter L s) w tc ch r \<Longrightarrow> eff c (loops s L) (world.truncate w) tc ch r"
  by (simp add: eff_def)

lemma seff_start:
  assumes "eff c (enter L s) w tc ch r"
  shows "seff c L s (leave L w) tc ch r"
  using eff_world [OF assms] effD(8) [OF assms] by (auto simp: seff_def leave_def)

lemma seff_step:
  assumes s: "seff c L s0 s tc ch r" and w: "eff c (enter L s) w tc' ch' r'" and a: "m_channel tc' = m_channel tc"
  shows "seff c L s0 (leave L w) tc' ch' r'"
proof -
  obtain u where u: "s = s0\<lparr>loops := (loops s0)(L := u)\<rparr>" "eff c (loops s0 L) u tc ch r" using s by (auto simp: seff_def)
  have "eff c u (world.truncate w) tc' ch' r'" using eff_world [OF w] u(1) by simp
  then have "eff c (loops s0 L) (world.truncate w) tc' ch' r'" by (rule eff_trans [OF u(2) _ a])
  moreover have "leave L w = s0\<lparr>loops := (loops s0)(L := world.truncate w)\<rparr>" using effD(8) [OF w] u(1) by (simp add: leave_def)
  ultimately show ?thesis by (auto simp: seff_def)
qed

lemma seff_enter:
  assumes "seff c L s0 s tc ch r"
  shows "eff c (enter L s) (enter L s) tc ch r" "home s = home s0" "conns (loops s L) c = Some tc" "refs (loops s L) c = r"
    "m_connections s = m_connections s0" "sv_connectionCallback s = sv_connectionCallback s0" "sv_messageCallback s = sv_messageCallback s0"
    "sv_writeCompleteCallback s = sv_writeCompleteCallback s0" "m_threadId (loops s M) = m_threadId (loops s0 M)" "sv_baseLoop s = sv_baseLoop s0"
proof -
  obtain u where u: "s = s0\<lparr>loops := (loops s0)(L := u)\<rparr>" "eff c (loops s0 L) u tc ch r" using assms by (auto simp: seff_def)
  note d = effD [OF u(2)]
  have "ep_inv (enter L s)" using d(1) u(1) ep_inv_same [of "enter L s" u] by simp
  then show "eff c (enter L s) (enter L s) tc ch r" using eff_start [of "enter L s" c tc ch] d(2-4) u(1) by simp
qed (use assms in \<open>auto simp: seff_def dest: effD\<close>)

lemma seff_acquire:
  assumes "seff c L s0 s tc ch r" and "home s0 c = L"
  shows "seff c L s0 (srv_acquire c s) tc ch (Suc r)"
  using seff_step [OF assms(1) eff_acquire [OF seff_enter(1) [OF assms(1)]]] seff_enter(2) [OF assms(1)] assms(2) by (simp add: srv_acquire_def)

lemma seff_release:
  assumes s: "seff c L s0 s tc ch (Suc r)" and "home s0 c = L" and r: "0 < r"
  shows "\<exists>s'. srv_release c s = Inr s' \<and> seff c L s0 s' tc ch r"
proof -
  obtain w where "release_conn c (enter L s) = Inr w" "eff c (enter L s) w tc ch r" using eff_release [OF seff_enter(1) [OF s] r] by blast
  then show ?thesis using seff_step [OF s] seff_enter(2) [OF s] assms(2) by (auto simp: srv_release_def at_loop_def)
qed

lemma seff_map: "seff c L s0 s tc ch r \<Longrightarrow> seff c L (s0\<lparr>m_connections := m\<rparr>) (s\<lparr>m_connections := m\<rparr>) tc ch r"
  unfolding seff_def by (elim exE, rule exI) auto

lemma initBuffer_kread: "Kfifo_initBuffer mx al k sz = Inr (b, k') \<Longrightarrow> kread k' = 0"
  by (auto simp: Kfifo_initBuffer_def Kfifo_unlock_def rbind_def split: sum.splits if_splits)

lemma TcpConnection_new_eff:
  assumes inv: "ep_inv w" and c: "refs w c = 0" and a: "channels w a = None"
    and fd: "\<forall>b dh. channels w b = Some dh \<longrightarrow> m_fd dh \<noteq> sockfd" and L: "L \<noteq> 0"
  shows "\<exists>w' k. TcpConnection_new mx True L name sockfd local peer c a w = Inr w' \<and> Kfifo_ready k \<and> Kfifo_contents k = [] \<and> kread k = 0 \<and>
    eff c w w' (fresh_conn name sockfd local peer a k) (fresh_channel sockfd c) 0"
proof -
  obtain k where k: "Kfifo_initBuffer mx True Kfifo_new 4096 = Inr (True, k)" "Kfifo_ready k" "Kfifo_contents k = []"
    using Kfifo_initBuffer_ok [of Kfifo_new 4096 mx] by (auto simp: Kfifo_new_def)
  let ?ch = "fresh_channel sockfd c" and ?tc = "fresh_conn name sockfd local peer a k"
  let ?w = "Socket_set_keepAlive sockfd True (Conn_put c ?tc (Channel_put a ?ch w))"
  have "ep_inv (Channel_put a ?ch (Channel_put a (Channel_new sockfd) w))"
    by (rule ep_inv_put [OF new_ok [OF inv a fd]]) (simp_all add: fresh_channel_def Channel_put_def)
  moreover have "Channel_put a ?ch (Channel_put a (Channel_new sockfd) w) = Channel_put a ?ch w" by (simp add: Channel_put_def)
  ultimately have "ep_inv ?w" using ep_inv_same [of ?w "Channel_put a ?ch w"]
    by (simp add: Socket_set_keepAlive_def Socket_setsockopt_def Conn_put_def)
  then have "eff c w ?w ?tc ?ch 0" using c
    by (simp add: eff_def Socket_set_keepAlive_def Socket_setsockopt_def Conn_put_def Channel_put_def fresh_conn_def fun_upd_idem)
  moreover have "TcpConnection_new mx True L name sockfd local peer c a w = Inr ?w"
    using k(1) L by (simp add: TcpConnection_new_def CheckLoopNotNull_def fresh_channel_def fresh_conn_def)
  ultimately show ?thesis using k initBuffer_kread [OF k(1)] by blast
qed

definition born :: "srv \<Rightarrow> string \<Rightarrow> int \<Rightarrow> sockaddr_in \<Rightarrow> sockaddr_in \<Rightarrow> addr \<Rightarrow> kfifo \<Rightarrow> tcpconn" where
  "born s name sockfd local peer a k = (fresh_conn name sockfd local peer a k)\<lparr>m_connectionCallback := sv_connectionCallback s,
     m_messageCallback := sv_messageCallback s, m_writeCompleteCallback := sv_writeCompleteCallback s, m_closeCallback := Some 0\<rparr>"

lemma prepare_eff:
  assumes inv: "ep_inv (loops s L)" and c: "refs (loops s L) c = 0" and a: "channels (loops s L) a = None"
    and fd: "\<forall>b dh. channels (loops s L) b = Some dh \<longrightarrow> m_fd dh \<noteq> sockfd" and L: "L \<noteq> 0" "home s c = L" and m: "m_connections s name = None"
  shows "\<exists>s1 s2 s3 k. at_loop L (TcpConnection_new mx True L name sockfd local peer c a) s = Inr s1 \<and>
    connections_put name c (srv_acquire c s1) = Inr s2 \<and> at_loop L (conn_set_callbacks s2 c) s2 = Inr s3 \<and>
    Kfifo_ready k \<and> Kfifo_contents k = [] \<and> kread k = 0 \<and>
    seff c L (s\<lparr>m_connections := (m_connections s)(name \<mapsto> c)\<rparr>) s3 (born s name sockfd local peer a k) (fresh_channel sockfd c) 2"
proof -
  let ?ch = "fresh_channel sockfd c"
  have "ep_inv (enter L s)" using inv ep_inv_same [of "enter L s" "loops s L"] by simp
  then obtain w k where w: "TcpConnection_new mx True L name sockfd local peer c a (enter L s) = Inr w"
    "Kfifo_ready k" "Kfifo_contents k = []" "kread k = 0" "eff c (enter L s) w (fresh_conn name sockfd local peer a k) ?ch 0"
    using TcpConnection_new_eff [of "enter L s" c a sockfd L mx name local peer] c a fd L(1) by auto
  let ?tc = "fresh_conn name sockfd local peer a k" and ?s0 = "s\<lparr>m_connections := (m_connections s)(name \<mapsto> c)\<rparr>"
  have s1: "seff c L s (leave L w) ?tc ?ch 0" using seff_start [OF w(5)] .
  note s1' = seff_acquire [OF s1 L(2)]
  define s2 where "s2 = (srv_acquire c (srv_acquire c (leave L w)))\<lparr>m_connections := (m_connections s)(name \<mapsto> c)\<rparr>"
  have p: "connections_put name c (srv_acquire c (leave L w)) = Inr s2"
    using m seff_enter(5) [OF s1'] by (simp add: connections_put_def s2_def)
  have s2: "seff c L ?s0 s2 ?tc ?ch (Suc (Suc 0))" unfolding s2_def by (rule seff_map [OF seff_acquire [OF s1' L(2)]])
  have b: "born s2 name sockfd local peer a k = born s name sockfd local peer a k"
    using seff_enter(6-8) [OF s2] by (simp add: born_def)
  let ?w3 = "Conn_put c (born s2 name sockfd local peer a k) (enter L s2)"
  have "at_loop L (conn_set_callbacks s2 c) s2 = Inr (leave L ?w3)"
    using effD(5) [OF seff_enter(1) [OF s2]] by (simp add: at_loop_def conn_set_callbacks_def conn_setters Let_def born_def)
  moreover have "seff c L ?s0 (leave L ?w3) (born s2 name sockfd local peer a k) ?ch (Suc (Suc 0))"
    by (rule seff_step [OF s2 eff_put [OF seff_enter(1) [OF s2]]]) (simp_all add: born_def fresh_conn_def)
  ultimately show ?thesis using w p b by (intro exI [of _ "leave L w"] exI [of _ s2] exI [of _ "leave L ?w3"] exI [of _ k])
    (simp add: at_loop_def numeral_2_eq_2)
qed

lemma hand_over_here:
  assumes s: "seff c L s0 s tc ch 3" and h: "home s0 c = L" and t: "in_thread L tid s" and e: "env_ok E" and p: "conn_parts c tc ch"
    and n: "m_events ch = 0" "m_index ch = kNew" "out_bytes tc = []"
  shows "\<exists>s' tc' ch'. rbind (srv_runInLoop E L tid (FEstablished c) s) (srv_release c) = Inr s' \<and>
    seff c L s0 s' tc' ch' 1 \<and> used (tc\<lparr>m_state := kConnected\<rparr>) (opened ch c) tc' ch'"
proof -
  obtain w1 tc' ch' where w1: "TcpConnection_connectEstablished (e_ctl E) (srv_user E L) c (enter L s) = Inr w1"
    "eff c (enter L s) w1 tc' ch' 3" and u: "used (tc\<lparr>m_state := kConnected\<rparr>) (opened ch c) tc' ch'"
    using connectEstablished_eff [OF seff_enter(1) [OF s] _ _ p n, of E L] e by (auto simp: env_ok_def)
  obtain w2 where w2: "release_conn c w1 = Inr w2" "eff c (enter L s) w2 tc' ch' (Suc 1)"
    using eff_release [of c "enter L s" w1 tc' ch' "Suc 1"] w1(2) by (auto simp: numeral_3_eq_3)
  have "seff c L s0 (leave L w2) tc' ch' (Suc 1)" by (rule seff_step [OF s w2(2)]) (use usedD(1) [OF u] in simp)
  from seff_release [OF this h] show ?thesis
    using w1(1) w2(1) t u by (auto simp: srv_runInLoop_def at_loop_def srv_run_def srv_drop_def)
qed

lemma hand_over_there:
  assumes s: "seff c L s0 s tc ch 3" and h: "home s0 c = L" and t: "\<not> in_thread L tid s"
  shows "\<exists>s1. rbind (srv_runInLoop E L tid (FEstablished c) s) (srv_release c) = Inr (push L tid (FEstablished c) s1) \<and> seff c L s0 s1 tc ch 2"
proof -
  obtain s1 where s1: "srv_release c s = Inr s1" "seff c L s0 s1 tc ch (Suc 1)"
    using seff_release [of c L s0 s tc ch "Suc 1"] s h by (auto simp: numeral_3_eq_3)
  have r: "refs (loops s L) c = Suc (Suc 1)" "home s c = L" using seff_enter(2,4) [OF s] h by (simp_all add: numeral_3_eq_3)
  then have "s1 = s\<lparr>loops := (loops s)(L := (loops s L)\<lparr>refs := (refs (loops s L))(c := Suc 1)\<rparr>)\<rparr>"
    using s1(1) by (simp add: srv_release_eq release_keep)
  then have "srv_release c (push L tid (FEstablished c) s) = Inr (push L tid (FEstablished c) s1)"
    using r by (simp add: srv_release_eq release_keep queue_refs)
  then show ?thesis using t s1(2) by (auto simp: srv_runInLoop_def srv_queue_eq numeral_2_eq_2)
qed

section \<open>A new connection and the invariant\<close>

lemma pool_next:
  assumes "pool_ok s"
  shows "\<exists>L p. EventLoopThreadPool_getNextLoop (sv_pool s) = Inr (L, p) \<and> L \<noteq> 0 \<and> pool_ok (s\<lparr>sv_pool := p\<rparr>)"
proof (cases "m_eventloops (sv_pool s) = []")
  case True
  then show ?thesis using assms by (simp add: EventLoopThreadPool_getNextLoop_def pool_ok_def)
next
  case False
  let ?p = "sv_pool s"
  have b: "0 \<le> m_next ?p" "m_next ?p < int (length (m_eventloops ?p))" "length (m_eventloops ?p) < 2 ^ 31" "0 \<notin> set (m_eventloops ?p)"
    using assms False by (simp_all add: pool_ok_def)
  then have n: "nat (m_next ?p) < length (m_eventloops ?p)" "int32_ok (m_next ?p + 1)" by (auto simp: int32_ok_def)
  let ?q = "?p\<lparr>m_next := (if length (m_eventloops ?p) \<le> nat (m_next ?p + 1) then 0 else m_next ?p + 1)\<rparr>"
  have "EventLoopThreadPool_getNextLoop ?p = Inr (m_eventloops ?p ! nat (m_next ?p), ?q)"
    using b(1) n False by (simp add: EventLoopThreadPool_getNextLoop_def check_def to_int32_def Let_def)
  moreover have "m_eventloops ?p ! nat (m_next ?p) \<noteq> 0" using b(4) n(1) nth_mem by metis
  moreover have "pool_ok (s\<lparr>sv_pool := ?q\<rparr>)" using assms b False by (auto simp: pool_ok_def)
  ultimately show ?thesis by blast
qed

text \<open>Nothing refers to a connection that does not exist.\<close>

lemma unborn:
  assumes inv: "srv_inv X at s" and c: "\<And>M. conns (loops s M) c = None"
  shows "X c = 0" "refs (loops s M) c = 0" "m_connections s n \<noteq> Some c" "f \<in> set (held at s M) \<Longrightarrow> about f \<noteq> Some c"
proof -
  let ?v = "view at s c"
  note g = goodD [OF srv_invD(1) [OF inv, of c]]
  have z: "v_refs ?v = 0" using g(3) c by (simp add: view_sel(1))
  then show "X c = 0" using g(1) by simp
  show "refs (loops s M) c = 0" using z srv_invD(5) [OF inv, of M c] by (cases "M = home s c") (simp_all add: view_sel(3))
  have "v_names ?v = {}" using g(1) z by (simp split: if_splits)
  then show "m_connections s n \<noteq> Some c" by (auto simp: view_sel(4))
  have "v_own ?v = 0" using g(1) z by simp
  then have own: "refers c (held at s K) = 0" if "K = home s c \<or> K = sv_baseLoop s" for K
    using that by (auto simp: view_sel(5))
  show "about f \<noteq> Some c" if f: "f \<in> set (held at s M)"
  proof
    assume a: "about f = Some c"
    then have "M = home s c \<or> M = sv_baseLoop s" using srv_invD(3) [OF inv f] by (cases f) auto
    then have "refers c (held at s M) = 0" by (rule own)
    then show False using f a by (auto simp: refers_def filter_empty_conv)
  qed
qed

lemma unborn_refers: "(\<And>f. f \<in> set fs \<Longrightarrow> about f \<noteq> Some c) \<Longrightarrow> refers c fs = 0"
  by (auto simp: refers_def filter_empty_conv)

lemma unborn_count: "(\<And>f. f \<in> set fs \<Longrightarrow> about f \<noteq> Some c) \<Longrightarrow> about f = Some c \<Longrightarrow> count_list fs f = 0"
  by (auto simp: count_list_0_iff)

text \<open>The server with a new connection \<open>c\<close> in loop \<open>L\<close>.\<close>

abbreviation enrolled :: "nat \<Rightarrow> addr \<Rightarrow> pool \<Rightarrow> int \<Rightarrow> string \<Rightarrow> srv \<Rightarrow> srv" where
  "enrolled c L p i name s \<equiv> s\<lparr>sv_pool := p, m_nextConnId := i, home := (home s)(c := L), m_connections := (m_connections s)(name \<mapsto> c)\<rparr>"

lemma seff_enrolled:
  assumes "seff c L (enrolled c L p i name s) s' tc ch r"
  shows "conns (loops s' M) = (if M = L then (conns (loops s L))(c \<mapsto> tc) else conns (loops s M))"
    "channels (loops s' M) = (if M = L then (channels (loops s L))(m_channel tc \<mapsto> ch) else channels (loops s M))"
    "refs (loops s' M) = (if M = L then (refs (loops s L))(c := r) else refs (loops s M))"
    "unrun at s' M = unrun at s M" "held at s' M = held at s M"
    "home s' = (home s)(c := L)" "m_connections s' = (m_connections s)(name \<mapsto> c)" "sv_pool s' = p" "m_nextConnId s' = i"
    "sv_name s' = sv_name s" "sv_ipPort s' = sv_ipPort s" "sv_baseLoop s' = sv_baseLoop s"
    "m_threadId (loops s' M) = m_threadId (loops s M)"
  using assms by (auto simp: seff_def eff_def unrun_def held_def)

lemma seff_pending:
  "seff c L (enrolled c L p i name s) s' tc ch r \<Longrightarrow> m_pendingFunctors (loops s' M) = m_pendingFunctors (loops s M)"
  by (auto simp: seff_def eff_def)

lemma only_born:
  assumes inv: "srv_inv X at s" and c: "\<And>M. conns (loops s M) c = None" and a: "\<And>M. channels (loops s M) (m_channel tc) = None"
    and n: "m_connections s name = None" and s: "seff c L (enrolled c L p i name s) s' tc ch r"
  shows "only c at s at s'"
proof -
  have no: "\<not> chan_of c s M b" for M b using c by (simp add: chan_of_def)
  have yes: "chan_of c s' M b \<longleftrightarrow> M = L \<and> b = m_channel tc" for M b
    using c [of M] by (auto simp: chan_of_def seff_enrolled [OF s])
  have ep: "ep_inv (loops s' M)" for M
    using s srv_invD(2) [OF inv, of M] effD(1) by (cases "M = L") (auto simp: seff_def)
  have "sv_connectionCallback s' = sv_connectionCallback s" "sv_messageCallback s' = sv_messageCallback s"
    "sv_writeCompleteCallback s' = sv_writeCompleteCallback s" using seff_enter(6-8) [OF s] by simp_all
  then show ?thesis unfolding only_def using no yes ep a n by (auto simp: seff_enrolled [OF s])
qed

lemma seff_far:
  assumes inv: "srv_inv X at s" and c: "\<And>M. conns (loops s M) c = None" and s: "seff c L (enrolled c L p i name s) s' tc ch r" and M: "M \<noteq> L"
  shows "conns (loops s' M) c = None \<and> refs (loops s' M) c = 0"
  using M c unborn(2) [OF inv c] by (simp add: seff_enrolled [OF s])

lemma active_born:
  assumes act: "active_ok at s" and s: "seff c L (enrolled c L p i name s) s' tc ch r" and a: "\<And>M. channels (loops s M) (m_channel tc) = None"
  shows "active_ok at s'"
proof (rule active_ok_other [OF act, where L = L and a = "m_channel tc"])
  show "m_channel tc \<notin> set as" if "at L = InEvents as" for as using act that unfolding active_ok_def by (metis a option.distinct(1))
qed (auto simp: seff_enrolled [OF s])

lemma names_enrolled:
  assumes "names_inv s" and "int32_ok (m_nextConnId s + 1)" and "name = conn_name (sv_name s) (sv_ipPort s) (m_nextConnId s)"
    and "m_nextConnId s' = m_nextConnId s + 1" "sv_name s' = sv_name s" "sv_ipPort s' = sv_ipPort s" "m_connections s' = (m_connections s)(name \<mapsto> c)"
  shows "names_inv s'"
  using names_inv_put [OF assms(1,2,4-6)] assms(3,7) by simp

lemma born_parts:
  assumes "Kfifo_ready k" "kread k = 0" "sv_connectionCallback s \<noteq> None" "sv_messageCallback s \<noteq> None" "sv_writeCompleteCallback s = None"
  shows "conn_parts c (born s name fd local peer a k) (fresh_channel fd c)"
    "conn_parts c ((born s name fd local peer a k)\<lparr>m_state := kConnected\<rparr>) (opened (fresh_channel fd c) c)"
  using assms by (simp_all add: conn_parts_def born_def fresh_conn_def fresh_channel_def opened_def Channel_new_def)

lemma opened_fresh_idle: "\<not> Channel_isWriting (opened (fresh_channel fd c) c)" "m_tied (opened (fresh_channel fd c) c)"
  "m_tie (opened (fresh_channel fd c) c) = Some c"
  by (simp_all add: opened_def fresh_channel_def Channel_new_def Channel_isWriting_def kWriteEvent_def kReadEvent_def EPOLLIN_def
      EPOLLPRI_def EPOLLOUT_def)

text \<open>What a view of the newly enrolled connection shows.\<close>

lemma view_born:
  assumes inv: "srv_inv X at s" and c: "\<And>M. conns (loops s M) c = None" and n: "m_connections s name = None"
    and s: "seff c L (enrolled c L p i name s) s' tc ch r"
  shows "view at s' c = \<lparr>v_conn = Some tc, v_chan = Some ch, v_refs = r, v_names = {name}, v_own = 0, v_est = 0, v_rem = 0, v_des = 0\<rparr>"
proof -
  note u = unborn(4) [OF inv c]
  have "refers c (held at s M) = 0" for M using u by (rule unborn_refers)
  moreover have "count_list (unrun at s M) f = 0" if "about f = Some c" for M f
    using u that by (intro unborn_count) (auto simp: held_def)
  moreover have "{k. ((m_connections s)(name \<mapsto> c)) k = Some c} = {name}" using unborn(3) [OF inv c] by auto
  ultimately show ?thesis by (intro view.equality) (simp_all add: view_sel seff_enrolled [OF s] del: fun_upd_apply, simp_all add: seff_enrolled [OF s])
qed

lemma located_born:
  assumes inv: "srv_inv X at s" and c: "\<And>M. conns (loops s M) c = None" and s: "seff c L (enrolled c L p i name s) s' tc ch r"
  shows "f \<in> set (held at s' M) \<Longrightarrow> about f \<noteq> Some c"
  using unborn(4) [OF inv c] by (simp add: seff_enrolled [OF s])

lemma srv_inv_born_here:
  assumes inv: "srv_inv X at s" and c: "\<And>M. conns (loops s M) c = None" and a: "\<And>M. channels (loops s M) a = None"
    and n: "m_connections s name = None" and k: "Kfifo_ready k" "Kfifo_contents k = []" "kread k = 0"
    and u: "used ((born s name fd local peer a k)\<lparr>m_state := kConnected\<rparr>) (opened (fresh_channel fd c) c) tc ch"
    and s: "seff c L (enrolled c L p i name s) s' tc ch 1" and st: "names_inv s'" "pool_ok s'"
  shows "srv_inv X at s'"
proof (rule srv_inv_only [OF inv])
  have m: "m_channel tc = a" "tc_name tc = name" using usedD(1,2) [OF u] by (simp_all add: born_def fresh_conn_def)
  have ch: "lively tc ch" "m_tied ch" "m_tie ch = Some c" using usedD(5,6,8) [OF u] opened_fresh_idle by simp_all
  show "only c at s at s'" by (rule only_born [OF inv c _ n s]) (simp only: m a)
  show "good (X c) c (view at s' c)"
    unfolding view_born [OF inv c n s]
    by (rule goodI [where l = Open and tc = tc and ch = ch, OF _ _ _ _ usedD(7) [OF u born_parts(2) [OF k(1,3) srv_invD(11-13) [OF inv]]]])
       (use unborn(1) [OF inv c] ch m(2) in \<open>simp_all add: lively_def\<close>)
  show "located s' M f" if "f \<in> set (held at s' M)" "about f = Some c" for M f using located_born [OF inv c s that(1)] that(2) by simp
  show "conns (loops s' M) c = None \<and> refs (loops s' M) c = 0" if "M \<noteq> home s' c" for M
    using seff_far [OF inv c s, of M] that by (simp add: seff_enrolled(6) [OF s])
  show "active_ok at s'" by (rule active_born [OF srv_invD(7) [OF inv] s]) (simp only: m a)
qed (use st in simp_all)

lemma push_view:
  assumes "about f = Some c" and "M = home s c" and "M \<noteq> sv_baseLoop s" and "f = FEstablished c"
  shows "view at (push M tid f s) c = (view at s c)\<lparr>v_own := Suc (v_own (view at s c)), v_est := Suc (v_est (view at s c))\<rparr>"
  using assms by (intro view.equality) (simp_all add: view_sel push_sel push_unrun sum_two del: fun_upd_apply split: option.split, simp_all)

lemma srv_inv_born_there:
  assumes inv: "srv_inv X at s" and c: "\<And>M. conns (loops s M) c = None" and a: "\<And>M. channels (loops s M) a = None"
    and n: "m_connections s name = None" and k: "Kfifo_ready k" "Kfifo_contents k = []" "kread k = 0"
    and s: "seff c L (enrolled c L p i name s) s1 (born s name fd local peer a k) (fresh_channel fd c) 2"
    and st: "names_inv s1" "pool_ok s1" and B: "L \<noteq> sv_baseLoop s"
  shows "srv_inv X at (push L tid (FEstablished c) s1)" (is "srv_inv X at ?s")
proof (rule srv_inv_only [OF inv])
  have m: "m_channel (born s name fd local peer a k) = a" by (simp add: born_def fresh_conn_def)
  have h: "home s1 c = L" "sv_baseLoop s1 = sv_baseLoop s" by (simp_all add: seff_enrolled [OF s])
  have o: "only c at s at s1" by (rule only_born [OF inv c _ n s]) (simp only: m a)
  have "only c at s1 at ?s" by (rule only_push) (simp_all add: onlyD(6) [OF o])
  then show "only c at s at ?s" by (rule only_trans [OF o]) (rule push_sel(6))
  have v: "view at ?s c = (view at s1 c)\<lparr>v_own := Suc (v_own (view at s1 c)), v_est := Suc (v_est (view at s1 c))\<rparr>"
    by (rule push_view) (use h B in simp_all)
  show "good (X c) c (view at ?s c)"
    unfolding v view_born [OF inv c n s]
    by (rule goodI [where l = Opening and tc = "born s name fd local peer a k" and ch = "fresh_channel fd c"])
       (use unborn(1) [OF inv c] born_parts(1) [OF k(1,3) srv_invD(11-13) [OF inv]] k(2)
        in \<open>simp_all add: born_def fresh_conn_def fresh_channel_def Channel_new_def kNew_def\<close>)
  show "located ?s M f" if "f \<in> set (held at ?s M)" "about f = Some c" for M f
    using that located_born [OF inv c s, of f M] h unfolding push_unrun by (auto split: if_splits)
  show "conns (loops ?s M) c = None \<and> refs (loops ?s M) c = 0" if "M \<noteq> home ?s c" for M
    using seff_far [OF inv c s, of M] that h unfolding push_sel by simp
  have "active_ok at s1" by (rule active_born [OF srv_invD(7) [OF inv] s]) (simp only: m a)
  then show "active_ok at ?s" unfolding active_ok_def push_sel .
  show "names_inv ?s" "pool_ok ?s" using st by (simp_all add: names_inv_def pool_ok_def)
qed simp_all

section \<open>Accepting\<close>

text \<open>What accepting comes to: the connection is enrolled, and established at once or queued for its loop.\<close>

definition accepted :: "env \<Rightarrow> int \<Rightarrow> int \<Rightarrow> sockaddr_in \<Rightarrow> srv \<Rightarrow> nat \<Rightarrow> addr \<Rightarrow> addr \<Rightarrow> pool \<Rightarrow> string \<Rightarrow> tcpconn \<Rightarrow> bool" where
  "accepted E tid sockfd peer s c a L p name tc \<longleftrightarrow>
     (if L = sv_baseLoop s then \<exists>s' tc' ch'. TcpServer_newConnection E tid sockfd peer s = Inr s' \<and>
        seff c L (enrolled c L p (m_nextConnId s + 1) name s) s' tc' ch' 1 \<and>
        used (tc\<lparr>m_state := kConnected\<rparr>) (opened (fresh_channel sockfd c) c) tc' ch'
      else \<exists>s'. TcpServer_newConnection E tid sockfd peer s = Inr (push L tid (FEstablished c) s') \<and>
        seff c L (enrolled c L p (m_nextConnId s + 1) name s) s' tc (fresh_channel sockfd c) 2)"

lemma newConnection_eff:
  assumes inv: "srv_inv X at s" and e: "env_ok E" and id: "int32_ok (m_nextConnId s + 1)" and t: "tid = m_threadId (loops s (sv_baseLoop s))"
    and fd: "\<forall>M b dh. channels (loops s M) b = Some dh \<longrightarrow> m_fd dh \<noteq> sockfd" and ca: "e_new E s = (c, a)"
    and c: "\<And>M. conns (loops s M) c = None" and a: "\<And>M. channels (loops s M) a = None"
    and p: "EventLoopThreadPool_getNextLoop (sv_pool s) = Inr (L, p)" "L \<noteq> 0"
    and name: "name = conn_name (sv_name s) (sv_ipPort s) (m_nextConnId s)"
  shows "\<exists>local k. Kfifo_ready k \<and> Kfifo_contents k = [] \<and> kread k = 0 \<and>
    accepted E tid sockfd peer s c a L p name (born s name sockfd local peer a k)"
proof -
  define s0 where "s0 = s\<lparr>sv_pool := p, m_nextConnId := m_nextConnId s + 1, home := (home s)(c := L)\<rparr>"
  have n: "m_connections s name = None" unfolding name by (rule names_inv_fresh [OF srv_invD(9) [OF inv]])
  let ?local = "case e_getsockname E sockfd of Inl _ \<Rightarrow> sockaddr_zero | Inr addr \<Rightarrow> addr" and ?i = "m_nextConnId s + 1"
  have "ep_inv (loops s0 L)" "refs (loops s0 L) c = 0" "channels (loops s0 L) a = None" "home s0 c = L" "m_connections s0 name = None"
    "\<forall>b dh. channels (loops s0 L) b = Some dh \<longrightarrow> m_fd dh \<noteq> sockfd"
    using srv_invD(2) [OF inv] unborn(2) [OF inv c] a fd n by (simp_all add: s0_def)
  from prepare_eff [OF this(1-3,6) p(2) this(4,5), of "e_mx E" ?local peer] obtain s1 s2 s3 k where
    q: "at_loop L (TcpConnection_new (e_mx E) (e_alloc E) L name sockfd ?local peer c a) s0 = Inr s1"
    "connections_put name c (srv_acquire c s1) = Inr s2" "at_loop L (conn_set_callbacks s2 c) s2 = Inr s3"
    and k: "Kfifo_ready k" "Kfifo_contents k = []" "kread k = 0"
    and s3: "seff c L (enrolled c L p ?i name s) s3 (born s name sockfd ?local peer a k) (fresh_channel sockfd c) 2"
    using e by (auto simp: env_ok_def s0_def born_def)
  let ?s = "srv_acquire c s3" and ?tc = "born s name sockfd ?local peer a k"
  have s4: "seff c L (enrolled c L p ?i name s) ?s ?tc (fresh_channel sockfd c) 3"
    using seff_acquire [OF s3] by (simp add: numeral_3_eq_3 numeral_2_eq_2)
  note pt = born_parts(1) [OF k(1,3) srv_invD(11-13) [OF inv], of c name sockfd ?local peer a]
  have fr: "m_events (fresh_channel sockfd c) = 0" "m_index (fresh_channel sockfd c) = kNew" "out_bytes ?tc = []"
    using k(2) by (simp_all add: fresh_channel_def Channel_new_def born_def fresh_conn_def kNew_def)
  have th: "in_thread L tid ?s \<longleftrightarrow> L = sv_baseLoop s"
    using srv_invD(8) [OF inv] t seff_enter(9) [OF s4, of L] by (auto simp: in_thread_def EventLoop_isInLoopThread_def own_threads_def)
  have eq: "TcpServer_newConnection E tid sockfd peer s = rbind (srv_runInLoop E L tid (FEstablished c) ?s) (srv_release c)"
    by (rule newConnection_unfold [OF p(1) id ca s0_def name q])
  have "accepted E tid sockfd peer s c a L p name ?tc"
    using hand_over_here [OF s4 _ _ e pt fr, of tid] hand_over_there [OF s4, of tid E] th eq unfolding accepted_def by simp
  then show ?thesis using k by blast
qed

lemma newConnection_inv:
  assumes inv: "srv_inv X at s" and e: "env_ok E" and id: "int32_ok (m_nextConnId s + 1)" and t: "tid = m_threadId (loops s (sv_baseLoop s))"
    and fd: "\<forall>M b dh. channels (loops s M) b = Some dh \<longrightarrow> m_fd dh \<noteq> sockfd"
    and new: "\<forall>M. conns (loops s M) (fst (e_new E s)) = None \<and> channels (loops s M) (snd (e_new E s)) = None"
  shows "\<exists>s'. TcpServer_newConnection E tid sockfd peer s = Inr s' \<and> srv_inv X at s' \<and> grows s s' \<and>
    (\<forall>M b dh. channels (loops s M) b = Some dh \<longrightarrow> channels (loops s' M) b = Some dh)"
proof -
  obtain c a where ca: "e_new E s = (c, a)" by (cases "e_new E s")
  then have c: "\<And>M. conns (loops s M) c = None" and a: "\<And>M. channels (loops s M) a = None" using new by simp_all
  obtain L p where p: "EventLoopThreadPool_getNextLoop (sv_pool s) = Inr (L, p)" "L \<noteq> 0" "pool_ok (s\<lparr>sv_pool := p\<rparr>)"
    using pool_next [OF srv_invD(10) [OF inv]] by blast
  define name where "name = conn_name (sv_name s) (sv_ipPort s) (m_nextConnId s)"
  have n: "m_connections s name = None" unfolding name_def by (rule names_inv_fresh [OF srv_invD(9) [OF inv]])
  let ?i = "m_nextConnId s + 1"
  obtain local k where k: "Kfifo_ready k" "Kfifo_contents k = []" "kread k = 0"
    and acc: "accepted E tid sockfd peer s c a L p name (born s name sockfd local peer a k)"
    using newConnection_eff [OF inv e id t fd ca c a p(1,2) name_def, of peer] by blast
  let ?tc = "born s name sockfd local peer a k"
  have st: "names_inv s'" "pool_ok s'" if "seff c L (enrolled c L p ?i name s) s' tc' ch' r'" for s' tc' ch' r'
    using names_enrolled [OF srv_invD(9) [OF inv] id name_def, of s' c] p(3) by (simp_all add: seff_enrolled [OF that] pool_ok_def)
  have ch: "channels (loops s' M) b = Some dh" if "seff c L (enrolled c L p ?i name s) s' tc' ch' r'" "m_channel tc' = a" "channels (loops s M) b = Some dh"
    for s' tc' ch' r' M b dh using a [of M] that by (auto simp: seff_enrolled [OF that(1)])
  have fw: "forward s s'" if "seff c L (enrolled c L p ?i name s) s' tc' ch' r'" for s' tc' ch' r'
    using c unfolding forward_def by (auto simp: seff_enrolled [OF that])
  have m: "m_channel ?tc = a" "m_channel (?tc\<lparr>m_state := kConnected\<rparr>) = a" by (simp_all add: born_def fresh_conn_def)
  show ?thesis
  proof (cases "L = sv_baseLoop s")
    case True
    then obtain s' tc' ch' where r: "TcpServer_newConnection E tid sockfd peer s = Inr s'"
      and s': "seff c L (enrolled c L p ?i name s) s' tc' ch' 1"
      and u: "used (?tc\<lparr>m_state := kConnected\<rparr>) (opened (fresh_channel sockfd c) c) tc' ch'"
      using acc unfolding accepted_def by auto
    have m': "m_channel tc' = a" using usedD(1) [OF u] m(2) by simp
    have "srv_inv X at s'" by (rule srv_inv_born_here [OF inv c a n k u s' st [OF s']])
    moreover have "grows s s'"
      by (rule pushed_grows(1), rule pushed_none [OF _ _ fw [OF s']]) (use seff_pending [OF s'] ch [OF s' m'] in \<open>auto simp: wakes_def\<close>)
    ultimately show ?thesis using r ch [OF s' m'] by blast
  next
    case False
    then obtain s' where r: "TcpServer_newConnection E tid sockfd peer s = Inr (push L tid (FEstablished c) s')"
      and s': "seff c L (enrolled c L p ?i name s) s' ?tc (fresh_channel sockfd c) 2"
      using acc unfolding accepted_def by auto
    have "srv_inv X at (push L tid (FEstablished c) s')" by (rule srv_inv_born_there [OF inv c a n k s' st [OF s'] False])
    moreover have "channels (loops (push L tid (FEstablished c) s') M) b = Some dh" if "channels (loops s M) b = Some dh" for M b dh
      unfolding push_sel by (rule ch [OF s' m(1) that])
    moreover have "forward s (push L tid (FEstablished c) s')" using fw [OF s'] unfolding forward_def push_sel by simp
    then have "grows s (push L tid (FEstablished c) s')"
      by (rule pushed_grows(2) [OF pushed_one [where K = L and f = "FEstablished c", rotated 2]])
         (use seff_pending [OF s'] ch [OF s' m(1)] in \<open>auto simp: wakes_def\<close>)
    ultimately show ?thesis using r by blast
  qed
qed

lemma Acceptor_handleRead_inv:
  assumes inv: "srv_inv X at s" and e: "env_ok E" and f: "accept_legal E s" and t: "tid = m_threadId (loops s (sv_baseLoop s))"
  shows "\<exists>s'. Acceptor_handleRead E tid s = Inr s' \<and> srv_inv X at s' \<and> grows s s' \<and>
    (\<forall>M b dh. channels (loops s M) b = Some dh \<longrightarrow> channels (loops s' M) b = Some dh)"
proof (cases "e_accept E (m_acceptSocket s)")
  case (Inl x)
  then show ?thesis using inv pushed_grows(1) [OF pushed_none [of s s]] forward_same [of s s] by (simp add: Acceptor_handleRead_def Socket_accept_def)
next
  case (Inr r)
  obtain fd addr where r: "r = (fd, addr)" by (cases r)
  have l: "int32_ok (m_nextConnId s + 1)" "\<forall>M b dh. channels (loops s M) b = Some dh \<longrightarrow> m_fd dh \<noteq> fd"
    "\<forall>M. conns (loops s M) (fst (e_new E s)) = None \<and> channels (loops s M) (snd (e_new E s)) = None"
    using f Inr r unfolding accept_legal_def by blast+
  let ?B = "sv_baseLoop s"
  let ?s = "leave ?B (Socket_dtor fd (enter ?B s))"
  have d: "srv_inv X at ?s"
    by (rule srv_inv_quiet [OF inv])
       (use srv_invD(7) [OF inv] in \<open>auto simp: Socket_dtor_def leave_def world.defs enter_def unrun_def held_def active_ok_def\<close>)
  have k: "channels (loops ?s M) b = Some dh" if "channels (loops s M) b = Some dh" for M b dh
    using that by (auto simp: Socket_dtor_def)
  have g: "grows s ?s" "grows s s" by (rule pushed_grows(1), rule pushed_none, auto simp: Socket_dtor_def wakes_def intro!: forward_same)+
  note n = newConnection_inv [OF inv e l(1) t l(2,3)]
  show ?thesis
    using Inr r n d k g inv by (auto simp: Acceptor_handleRead_def Socket_accept_def at_loop_def split: option.split)
qed

section \<open>Any event\<close>

lemma guard_own:
  assumes a: "Channel_at w a = Inr ch" and cb: "m_writeCallBack ch = None" "m_closeCallBack ch = None" "m_errorCallBack ch = None" "m_readCallBack ch = Some f"
    and r: "run f t w = Inr w'" and a': "Channel_at w' a = Inr ch'" "m_writeCallBack ch' = None"
  shows "Channel_handleEventWithGuard run t a w = Inr (if m_revents ch AND (EPOLLIN OR EPOLLPRI) \<noteq> 0 then w' else w)"
  using assms by (simp add: Channel_handleEventWithGuard_def Channel_fire_def)

lemma srv_cbs_own:
  "srv_cbs E L cb_handRead t w = Inr (EventLoop_handRead w)" "srv_cbs E L cb_timerRead t w = e_timers E w"
  "srv_cbs E L cb_accept t w = in_server L (Acceptor_handleRead E (m_threadId w)) w"
  by (simp_all add: srv_cbs_def cb_handRead_def cb_timerRead_def cb_accept_def)

lemma srv_inv_world:
  assumes inv: "srv_inv X at s" and "channels w = channels (loops s L)" "m_channel_map w = m_channel_map (loops s L)" "ctlLog w = ctlLog (loops s L)"
    "refs w = refs (loops s L)" "m_pendingFunctors w = m_pendingFunctors (loops s L)" "m_threadId w = m_threadId (loops s L)"
    "conns w = conns (loops s L)" "world.more w = s"
  shows "srv_inv X at (leave L w)"
proof (rule srv_inv_quiet [OF inv])
  show "active_ok at (leave L w)" using srv_invD(7) [OF inv] assms by (simp add: active_ok_def)
qed (use assms in \<open>simp_all add: unrun_def held_def\<close>)

text \<open>An event on a channel of the loop itself or on the listening socket.\<close>

lemma srv_event_own:
  assumes inv: "srv_inv X at s" and a: "channels (loops s L) a = Some ch" and o: "own_channel s L ch" and e: "env_ok E" and f: "accept_legal E s"
  shows "\<exists>s'. srv_event E L t a s = Inr s' \<and> srv_inv X at s' \<and> grows s s' \<and> (wakes s L a \<longrightarrow> pushed [] s s')"
proof -
  let ?w = "enter L s"
  have at: "Channel_at ?w a = Inr ch" using a by (simp add: Channel_at_def)
  obtain n where n: "m_readCallBack ch = Some n" "n = cb_handRead \<or> n = cb_timerRead \<or> n = cb_accept \<and> L = sv_baseLoop s"
    using o by (auto simp: own_channel_def)
  have "\<exists>w'. srv_cbs E L n t ?w = Inr w' \<and> Channel_at w' a = Inr ch \<and> srv_inv X at (leave L w') \<and> grows s (leave L w') \<and>
    (wakes s L a \<longrightarrow> pushed [] s (leave L w'))"
  proof -
    consider "n = cb_handRead" | "n = cb_timerRead" | "n = cb_accept" "L = sv_baseLoop s" using n(2) by blast
    then show ?thesis
    proof cases
      case 1
      have "srv_inv X at (leave L (?w\<lparr>wakeCount := 0\<rparr>))" by (rule srv_inv_world [OF inv]) simp_all
      moreover have "pushed [] s (leave L (?w\<lparr>wakeCount := 0\<rparr>))" by (rule pushed_none) (auto simp: wakes_def intro!: forward_same)
      ultimately show ?thesis using 1 a pushed_grows(1) by (simp add: srv_cbs_own EventLoop_handRead_def Channel_at_def)
    next
      case 2
      obtain ss where ss: "e_timers E ?w = Inr (?w\<lparr>strings := ss\<rparr>)" using e unfolding env_ok_def by blast
      have "srv_inv X at (leave L (?w\<lparr>strings := ss\<rparr>))" by (rule srv_inv_world [OF inv]) simp_all
      moreover have "pushed [] s (leave L (?w\<lparr>strings := ss\<rparr>))" by (rule pushed_none) (auto simp: wakes_def intro!: forward_same)
      ultimately show ?thesis using 2 ss a pushed_grows(1) by (simp add: srv_cbs_own Channel_at_def)
    next
      case 3
      have "\<not> wakes s L a" using 3(1) a n(1) by (simp add: wakes_def cb_handRead_def cb_accept_def)
      then show ?thesis using 3 Acceptor_handleRead_inv [OF inv e f, of "m_threadId ?w"] a
        by (fastforce simp: srv_cbs_own in_server_def Channel_at_def)
    qed
  qed
  then obtain w' where w': "srv_cbs E L n t ?w = Inr w'" "Channel_at w' a = Inr ch" "srv_inv X at (leave L w')"
    "grows s (leave L w')" "wakes s L a \<longrightarrow> pushed [] s (leave L w')" by blast
  have "Channel_handleEventWithGuard (srv_cbs E L) t a ?w = Inr (if m_revents ch AND (EPOLLIN OR EPOLLPRI) \<noteq> 0 then w' else ?w)"
    by (rule guard_own [where run = "srv_cbs E L" and f = n, OF at _ _ _ n(1) w'(1,2)]) (use o in \<open>simp_all add: own_channel_def\<close>)
  then have "srv_event E L t a s = Inr (leave L (if m_revents ch AND (EPOLLIN OR EPOLLPRI) \<noteq> 0 then w' else ?w))"
    using at o by (simp add: srv_event_def at_loop_def Channel_handleEvent_def own_channel_def)
  moreover have "pushed [] s s" by (rule pushed_none) (simp_all add: forward_same)
  ultimately show ?thesis using w'(3-5) inv pushed_grows(1) [of s s] by auto
qed

lemma srv_event_inv:
  assumes inv: "srv_inv X at s" and l: "at L = InEvents (a # as)" and e: "env_ok E" and f: "event_legal E L a s"
  shows "\<exists>s'. srv_event E L t a s = Inr s' \<and> srv_inv X (at(L := InEvents as)) s' \<and> grows s s' \<and> (wakes s L a \<longrightarrow> pushed [] s s')"
proof -
  obtain ch where ch: "channels (loops s L) a = Some ch" using active_okD(1) [OF srv_invD(7) [OF inv] l] by blast
  from srv_invD(6) [OF inv ch] show ?thesis
  proof
    assume "own_channel s L ch"
    then show ?thesis using srv_event_own [OF srv_inv_handled [OF inv l] ch _ e] f by (simp add: event_legal_def)
  next
    assume "\<exists>c. chan_of c s L a"
    then show ?thesis using srv_event_conn [OF inv l _ e f] chan_of_asleep [OF inv] by blast
  qed
qed

end
