(* ===== verification/Server_Safety.thy ===== *)
theory Server_Safety
  imports Server_Accept
begin

text \<open>
  The remaining steps of a loop (polling, running and destroying functors), that every step of the
  machine keeps the invariant, and what follows for the server: no step fails, and when the loops
  are idle the connections that exist are those in the map.
\<close>

section \<open>Polling and swapping the queue\<close>

lemma poll_eff:
  assumes inv: "ep_inv p" and w: "poll_legal wait (p :: world)" and v: "channels v = channels p" "m_reventList v = m_reventList p"
  shows "\<exists>as cs k r. EpollPoller_poll wait now v = Inr (now, as, v\<lparr>channels := cs, m_reventList := k\<rparr>) \<and> distinct as \<and>
    (\<forall>a. cs a = map_option (\<lambda>ch. ch\<lparr>m_revents := r a ch\<rparr>) (channels p a)) \<and>
    (\<forall>a \<in> set as. \<exists>ch. channels p a = Some ch \<and> m_index ch = kAdded \<and> sane (r a ch))"
proof (cases "wait (sint (of_nat (m_reventList p) :: u32))")
  case (Inl x)
  then show ?thesis using v by (intro exI [of _ "[]"] exI [of _ "channels v"] exI [of _ "m_reventList v"] exI [of _ "\<lambda>a. m_revents"])
    (simp add: EpollPoller_poll_def option.map_ident)
next
  case (Inr evs)
  have l: "evs \<noteq> [] \<and> length evs = m_reventList p \<longrightarrow> m_reventList p * 2 \<le> revent_max" "distinct (map snd evs)" "\<forall>(ev, a) \<in> set evs. sane ev \<and> (\<exists>fd e. interest (ctlLog p) fd = Some (e, a))"
    using w Inr unfolding poll_legal_def by blast+
  have added: "\<exists>ch. channels p a = Some ch \<and> m_index ch = kAdded" if "(ev, a) \<in> set evs" for ev a
    using l(3) that ep_inv_interest_iff [OF inv] by fastforce
  then have live: "\<forall>(ev, a) \<in> set evs. channels v a \<noteq> None" using v by fastforce
  define r :: "addr \<Rightarrow> channel \<Rightarrow> u32" where "r = (\<lambda>a ch. case map_of (rev (map prod.swap evs)) a of None \<Rightarrow> m_revents ch | Some ev \<Rightarrow> ev)"
  obtain v' where v': "fillActiveChannels evs v = Inr (map snd evs, v')" "v' = v\<lparr>channels := channels v'\<rparr>"
    "\<forall>a. channels v' a = (case channels v a of None \<Rightarrow> None
       | Some ch \<Rightarrow> Some (case map_of (rev (map prod.swap evs)) a of None \<Rightarrow> ch | Some ev \<Rightarrow> ch\<lparr>m_revents := ev\<rparr>))"
    using fill_ok [OF live] by blast
  have cs: "channels v' a = map_option (\<lambda>ch. ch\<lparr>m_revents := r a ch\<rparr>) (channels p a)" for a
    using v'(3) v(1) by (auto simp: r_def revents_same split: option.splits)
  have "distinct (map fst (rev (map prod.swap evs)))" using l(2) by (simp add: comp_def rev_map [symmetric])
  then have "map_of (rev (map prod.swap evs)) a = Some ev" if "(ev, a) \<in> set evs" for ev a
    using that by (intro map_of_is_SomeI) force+
  then have s: "sane (r a ch)" if "(ev, a) \<in> set evs" for ev a ch using that l(3) by (fastforce simp: r_def)
  let ?k = "if evs \<noteq> [] \<and> length evs = m_reventList v then m_reventList v * 2 else m_reventList v"
  have k: "m_reventList v' = m_reventList v" by (subst v'(2)) simp
  have "EpollPoller_poll wait now v = Inr (now, map snd evs, v'\<lparr>m_reventList := ?k\<rparr>)"
  proof (cases "evs = []")
    case True
    then show ?thesis using Inr v v'(1) by (simp add: EpollPoller_poll_def)
  next
    case False
    then show ?thesis using Inr v v'(1) k l(1) by (cases evs) (simp_all add: EpollPoller_poll_def)
  qed
  moreover have "v'\<lparr>m_reventList := ?k\<rparr> = v\<lparr>channels := channels v', m_reventList := ?k\<rparr>" by (subst v'(2)) simp
  moreover have "\<exists>ch. channels p a = Some ch \<and> m_index ch = kAdded \<and> sane (r a ch)" if "a \<in> set (map snd evs)" for a
    using that added s by fastforce
  ultimately show ?thesis using cs l(2)
    by (intro exI [of _ "map snd evs"] exI [of _ "channels v'"] exI [of _ ?k] exI [of _ r]) simp
qed

lemma srv_poll_inv:
  assumes inv: "srv_inv X at s" and l: "at L = AtPoll" and w: "poll_legal wait (loops s L)"
  shows "\<exists>as s'. srv_poll wait now L s = Inr (as, s') \<and> srv_inv X (at(L := InEvents as)) s' \<and> pushed [] s s'"
proof -
  let ?w = "(enter L s)\<lparr>m_activeChannels := []\<rparr>"
  have v: "channels ?w = channels (loops s L)" "m_reventList ?w = m_reventList (loops s L)" by (simp_all add: enter_def world.defs)
  obtain as cs k r where p: "EpollPoller_poll wait now ?w = Inr (now, as, ?w\<lparr>channels := cs, m_reventList := k\<rparr>)" "distinct as"
    "\<forall>a. cs a = map_option (\<lambda>ch. ch\<lparr>m_revents := r a ch\<rparr>) (channels (loops s L) a)"
    "\<forall>a \<in> set as. \<exists>ch. channels (loops s L) a = Some ch \<and> m_index ch = kAdded \<and> sane (r a ch)"
    using poll_eff [OF srv_invD(2) [OF inv] w v, of now] by blast
  let ?w' = "?w\<lparr>channels := cs, m_reventList := k, m_activeChannels := as, m_pollReturnTime := now\<rparr>" and ?at = "at(L := InEvents as)"
  have e: "srv_poll wait now L s = Inr (as, leave L ?w')" using p(1) by (simp add: srv_poll_def)
  have "srv_inv X ?at (leave L ?w')"
  proof (rule srv_inv_alike [OF inv, where r = "\<lambda>M b ch. if M = L then r b ch else m_revents ch"])
    show "channels (loops (leave L ?w') M) b = map_option (\<lambda>ch. ch\<lparr>m_revents := if M = L then r b ch else m_revents ch\<rparr>) (channels (loops s M) b)" for M b
      using p(3) by (simp add: option.map_ident)
    show "active_ok ?at (leave L ?w')" unfolding active_ok_def
    proof (intro allI impI conjI ballI)
      fix M bs b assume m: "?at M = InEvents bs"
      show "distinct bs" using m p(2) srv_invD(7) [OF inv] by (auto simp: active_ok_def split: if_splits)
      assume b: "b \<in> set bs"
      show "\<exists>ch. channels (loops (leave L ?w') M) b = Some ch \<and> m_index ch = kAdded \<and> sane (m_revents ch)"
      proof (cases "M = L")
        case True
        then obtain ch where "channels (loops s L) b = Some ch" "m_index ch = kAdded" "sane (r b ch)" using m b p(4) by auto
        then show ?thesis using True p(3) by simp
      next
        case False
        then show ?thesis using m b srv_invD(7) [OF inv] by (simp add: active_ok_def)
      qed
    qed
  qed (simp_all add: unrun_def held_def l)
  moreover have "pushed [] s (leave L ?w')" by (rule pushed_none) (use p(3) in \<open>auto simp: wakes_def intro!: forward_same\<close>)
  ultimately show ?thesis using e by blast
qed

lemma active_ok_place: "active_ok at s \<Longrightarrow> (\<And>as. p \<noteq> InEvents as) \<Longrightarrow> active_ok (at(L := p)) s"
  by (auto simp: active_ok_def)

lemma srv_swap_inv:
  assumes inv: "srv_inv X at s" and l: "at L = InEvents []" and w: "srv_swap L s = (fs, s')"
  shows "srv_inv X (at(L := InFunctors fs [])) s'"
proof (rule srv_inv_quiet [OF inv])
  have s': "fs = m_pendingFunctors (loops s L)" "s' = s\<lparr>loops := (loops s)(L := (loops s L)\<lparr>m_callingPendingFunctors := True, m_pendingFunctors := []\<rparr>)\<rparr>"
    using w by (auto simp: srv_swap_def pending_swap_def)
  have "active_ok (at(L := InFunctors fs [])) s" by (rule active_ok_place [OF srv_invD(7) [OF inv]]) simp
  then show "active_ok (at(L := InFunctors fs [])) s'" by (auto simp: active_ok_def s' split: if_splits)
qed (use l w in \<open>auto simp: srv_swap_def pending_swap_def unrun_def held_def\<close>)

lemma srv_unflag_inv:
  assumes inv: "srv_inv X at s" and l: "at L = InFunctors [] ds"
  shows "srv_inv X (at(L := InDrop ds)) (srv_unflag L s)"
proof (rule srv_inv_quiet [OF inv])
  have "active_ok (at(L := InDrop ds)) s" by (rule active_ok_place [OF srv_invD(7) [OF inv]]) simp
  then show "active_ok (at(L := InDrop ds)) (srv_unflag L s)" by (auto simp: active_ok_def srv_unflag_def split: if_splits)
qed (use l in \<open>auto simp: srv_unflag_def unrun_def held_def\<close>)

lemma srv_again_inv:
  assumes inv: "srv_inv X at s" and l: "at L = InDrop []"
  shows "srv_inv X (at(L := AtPoll)) s"
  by (rule srv_inv_place [OF inv]) (use l in \<open>simp_all add: active_ok_place [OF srv_invD(7) [OF inv]]\<close>)

section \<open>Running a functor\<close>

text \<open>A functor that is alive belongs to a connection that exists.\<close>

lemma refers_pos: "f \<in> set fs \<Longrightarrow> about f = Some c \<Longrightarrow> 0 < refers c fs"
  by (auto simp: refers_def filter_empty_conv)

lemma held_conn:
  assumes inv: "srv_inv X at s" and f: "f \<in> set (held at s M)" and c: "about f = Some c"
  shows "\<exists>tc ch l. conns (loops s (home s c)) c = Some tc \<and> channels (loops s (home s c)) (m_channel tc) = Some ch \<and> conn_parts c tc ch \<and>
    in_life l c tc ch (view at s c)"
proof -
  have "M = home s c \<or> M = sv_baseLoop s" using srv_invD(3) [OF inv f] c by (cases f) auto
  moreover have "0 < refers c (held at s M)" by (rule refers_pos [OF f c])
  ultimately have "0 < v_own (view at s c)" by (auto simp: view_sel(5) sum_two)
  then have "v_refs (view at s c) \<noteq> 0" using goodD(1) [OF srv_invD(1) [OF inv, of c]] by simp
  then obtain tc where tc: "conns (loops s (home s c)) c = Some tc"
    using goodD(3) [OF srv_invD(1) [OF inv, of c]] by (fastforce simp: view_sel(1))
  then show ?thesis using chan_ofD [OF inv, of c "home s c" "m_channel tc"] by (auto simp: chan_of_def)
qed

abbreviation ran :: "(addr \<Rightarrow> place) \<Rightarrow> addr \<Rightarrow> pfunctor list \<Rightarrow> pfunctor list \<Rightarrow> pfunctor \<Rightarrow> addr \<Rightarrow> place" where
  "ran at L fs ds f \<equiv> at(L := InFunctors fs (ds @ [f]))"

lemma ran_lists:
  assumes "at L = InFunctors (f # fs) ds"
  shows "held (ran at L fs ds f) s M = held at s M" "unrun at s M = (if M = L then [f] else []) @ unrun (ran at L fs ds f) s M"
  using assms by (simp_all add: held_def unrun_def)

lemma only_ran:
  assumes l: "at L = InFunctors (f # fs) ds" and f: "about f = Some c" and e: "\<And>M. ep_inv (loops s M)"
  shows "only c at s (ran at L fs ds f) s"
  using f e ran_lists [of at L f fs ds s] l unfolding only_def by auto

lemma view_ran:
  assumes l: "at L = InFunctors (f # fs) ds" and f: "about f = Some c" "located s L f"
  shows "view (ran at L fs ds f) s c = (view at s c)\<lparr>v_est := v_est (view at s c) - (if f = FEstablished c then 1 else 0),
    v_rem := v_rem (view at s c) - (if f = FRemove c then 1 else 0), v_des := v_des (view at s c) - (if f = FDestroyed c then 1 else 0)\<rparr>"
proof -
  have n: "count_list (unrun (ran at L fs ds f) s M) g = count_list (unrun at s M) g - (if M = L \<and> g = f then 1 else 0)" for M g
    using ran_lists(2) [of at L f fs ds, OF l, of s M] by simp
  have "f = FEstablished c \<Longrightarrow> home s c = L" "f = FRemove c \<Longrightarrow> sv_baseLoop s = L" "f = FDestroyed c \<Longrightarrow> home s c = L" using f(2) by auto
  then show ?thesis
    by (intro view.equality) (auto simp: view_sel n ran_lists(1) [of at L f fs ds, OF l])
qed

lemma active_ran: "active_ok at s \<Longrightarrow> active_ok (ran at L fs ds f) s"
  by (rule active_ok_place) simp_all

text \<open>The stages in which functors run.\<close>

lemma in_life_count:
  assumes "in_life l c tc ch v"
  shows "v_est v \<noteq> 0 \<Longrightarrow> l = Opening" "v_rem v \<noteq> 0 \<Longrightarrow> l = Removing" "v_des v \<noteq> 0 \<Longrightarrow> l = Destroying"
  using assms by (cases l; simp)+

lemma head_count:
  assumes "at L = InFunctors (f # fs) ds"
  shows "count_list (unrun at s L) f \<noteq> 0" "f \<in> set (held at s L)"
  using assms by (simp_all add: unrun_def held_def)

text \<open>\<^verbatim>\<open>connectEstablished\<close> and \<^verbatim>\<open>connectDestroyed\<close> run in the connection's own loop and queue nothing.\<close>

lemma srv_inv_ran_eff:
  assumes inv: "srv_inv X at s" and l: "at L = InFunctors (f # fs) ds" and f: "about f = Some c" "located s L f"
    and c: "conns (loops s L) c = Some tc" and e: "eff c (enter L s) w tc' ch' r'" and a: "m_channel tc' = m_channel tc"
    and g: "good (X c) c ((view (ran at L fs ds f) s c)\<lparr>v_conn := Some tc', v_chan := Some ch', v_refs := r'\<rparr>)"
  shows "srv_inv X (ran at L fs ds f) (leave L w)"
proof (rule srv_inv_only [OF inv])
  have inv': "srv_inv X at (leave L (enter L s))" and c': "conns (enter L s) c = Some tc" using inv c by simp_all
  have o: "only c at s at (leave L w)" using only_eff [OF inv' c' e a] by simp
  have h: "home (leave L w) = home s" "sv_baseLoop (leave L w) = sv_baseLoop s" using e by (simp_all add: eff_def)
  show "only c at s (ran at L fs ds f) (leave L w)"
    by (rule only_trans [OF o only_ran [of at L f fs ds, OF l f(1) onlyD(6) [OF o]]]) simp
  have q: "unrun at (leave L w) M = unrun at s M" "held at (leave L w) M = held at s M" for M using eff_unrun [OF e] by simp_all
  have q': "unrun (ran at L fs ds f) (leave L w) M = unrun (ran at L fs ds f) s M" "held (ran at L fs ds f) (leave L w) M = held (ran at L fs ds f) s M" for M
    using eff_unrun [OF e, of "ran at L fs ds f" L M] by simp_all
  have hm: "home s c = L" using eff_home [OF inv' c'] by simp
  have "view (ran at L fs ds f) (leave L w) c = (view (ran at L fs ds f) s c)\<lparr>v_conn := Some tc', v_chan := Some ch', v_refs := r'\<rparr>"
    using e hm by (intro view.equality) (simp_all add: view_sel q' eff_def)
  then show "good (X c) c (view (ran at L fs ds f) (leave L w) c)" using g by simp
  show "located (leave L w) M k" if "k \<in> set (held (ran at L fs ds f) (leave L w) M)" for M k
    using srv_invD(3) [OF inv, of k M] that ran_lists(1) [of at L f fs ds, OF l] located_home [OF h] by (simp only: q)
  show "conns (loops (leave L w) M) c = None \<and> refs (loops (leave L w) M) c = 0" if "M \<noteq> home (leave L w) c" for M
    using that srv_invD(4,5) [OF inv, of M c] hm h e by (auto simp: eff_def)
  have "active_ok (ran at L fs ds f) s" using active_ran [OF srv_invD(7) [OF inv]] .
  then show "active_ok (ran at L fs ds f) (leave L w)"
    by (rule active_ok_other [where L = L and a = "m_channel tc"]) (use e a in \<open>auto simp: eff_def\<close>)
  show "names_inv (leave L w)" "pool_ok (leave L w)"
    using srv_invD(9,10) [OF inv] e by (simp_all add: names_inv_def pool_ok_def eff_def)
qed simp

lemma ep_inv_enter: "ep_inv (enter L s) = ep_inv (loops s L)"
  by (rule ep_inv_same) simp_all

text \<open>The connection of a functor that runs in the connection's own loop.\<close>

lemma head_conn:
  assumes inv: "srv_inv X at s" and l: "at L = InFunctors (f # fs) ds" and f: "about f = Some c" and h: "L = home s c"
  shows "\<exists>tc ch k. conns (loops s L) c = Some tc \<and> conn_parts c tc ch \<and> in_life k c tc ch (view at s c) \<and> 0 < refs (loops s L) c \<and>
    eff c (enter L s) (enter L s) tc ch (refs (loops s L) c)"
proof -
  obtain tc ch k where c: "conns (loops s L) c = Some tc" "channels (loops s L) (m_channel tc) = Some ch" "conn_parts c tc ch"
    "in_life k c tc ch (view at s c)" using held_conn [OF inv head_count(2) [of at L f fs ds, OF l] f] h by auto
  have "eff c (enter L s) (enter L s) tc ch (refs (loops s L) c)"
    using eff_start [of "enter L s" c tc ch] c(1,2) srv_invD(2) [OF inv] by (simp add: ep_inv_enter)
  then show ?thesis using c conn_refs [OF inv h [symmetric] c(1)] by blast
qed

lemma pushed_eff:
  assumes inv: "srv_inv X at s" and c: "conns (loops s L) c = Some tc" and w: "eff c (enter L s) w tc' ch r" and m: "moved tc (Some tc')"
  shows "pushed [] s (leave L w)"
  using pushed_none [OF eff_pending [OF w, of L] wakes_eff [OF w, of L] forward_eff [OF w _ m, of L]] chan_of_asleep [OF inv conn_chan_of(2) [OF inv c]] c m by simp

lemma run_established_inv:
  assumes inv: "srv_inv X at s" and l: "at L = InFunctors (FEstablished c # fs) ds" and e: "env_ok E"
  shows "\<exists>s'. at_loop L (srv_run E L (FEstablished c)) s = Inr s' \<and> srv_inv X (ran at L fs ds (FEstablished c)) s' \<and> pushed [] s s'"
proof -
  note hd = head_count [of at L "FEstablished c" fs ds, OF l, of s]
  have h: "L = home s c" and loc: "located s L (FEstablished c)" using srv_invD(3) [OF inv hd(2)] by simp_all
  obtain tc ch k where c: "conns (loops s L) c = Some tc" "conn_parts c tc ch" "in_life k c tc ch (view at s c)"
    and r: "0 < refs (loops s L) c" and w0: "eff c (enter L s) (enter L s) tc ch (refs (loops s L) c)"
    using head_conn [of X at s L "FEstablished c" fs ds, OF inv l about.simps(5) h] by blast
  have "v_est (view at s c) \<noteq> 0" using hd(1) h by (simp add: view_sel(6))
  then have o: "in_life Opening c tc ch (view at s c)" using in_life_count(1) [OF c(3)] c(3) by simp
  then have n: "m_events ch = 0" "m_index ch = kNew" "out_bytes tc = []" "v_names (view at s c) = {tc_name tc}" by simp_all
  from connectEstablished_eff [OF w0 _ _ c(2) n(1-3), of E L] obtain w tc' ch' where
    w: "TcpConnection_connectEstablished (e_ctl E) (srv_user E L) c (enter L s) = Inr w" "eff c (enter L s) w tc' ch' (refs (loops s L) c)"
    and u: "used (tc\<lparr>m_state := kConnected\<rparr>) (opened ch c) tc' ch'"
    using e by (auto simp: env_ok_def)
  have p: "conn_parts c (tc\<lparr>m_state := kConnected\<rparr>) (opened ch c)" "m_tied (opened ch c)" "m_tie (opened ch c) = Some c"
    using c(2) by (simp_all add: opened_def conn_parts_def)
  have m: "m_channel tc' = m_channel tc" "tc_name tc' = tc_name tc" "lively tc' ch'" "m_tied ch'" "m_tie ch' = Some c"
    using usedD(1,2,5,6,8) [OF u] p(2,3) by simp_all
  have "m_state tc = kConnecting" using o by simp
  then have mv: "moved tc (Some tc')" using usedD(11) [OF u] by simp
  have "srv_inv X (ran at L fs ds (FEstablished c)) (leave L w)"
  proof (rule srv_inv_ran_eff [of X at s L "FEstablished c" fs ds c tc, OF inv l _ loc c(1) w(2)])
    show "good (X c) c ((view (ran at L fs ds (FEstablished c)) s c)\<lparr>v_conn := Some tc', v_chan := Some ch', v_refs := refs (loops s L) c\<rparr>)"
      unfolding view_ran [of at L "FEstablished c" fs ds c s, OF l about.simps(5) loc]
      by (rule goodI [where l = Open and tc = tc' and ch = ch', OF _ _ _ _ usedD(7) [OF u p(1)]])
         (use goodD(1) [OF srv_invD(1) [OF inv, of c]] r o n(4) m h in \<open>simp_all add: view_sel(3) lively_def\<close>)
  qed (use m(1) in simp_all)
  then show ?thesis using w(1) pushed_eff [OF inv c(1) w(2) mv] by (simp add: at_loop_def srv_run_def)
qed

lemma run_destroyed_inv:
  assumes inv: "srv_inv X at s" and l: "at L = InFunctors (FDestroyed c # fs) ds" and e: "env_ok E"
  shows "\<exists>s'. at_loop L (srv_run E L (FDestroyed c)) s = Inr s' \<and> srv_inv X (ran at L fs ds (FDestroyed c)) s' \<and> pushed [] s s'"
proof -
  note hd = head_count [of at L "FDestroyed c" fs ds, OF l, of s]
  have h: "L = home s c" and loc: "located s L (FDestroyed c)" using srv_invD(3) [OF inv hd(2)] by simp_all
  obtain tc ch k where c: "conns (loops s L) c = Some tc" "conn_parts c tc ch" "in_life k c tc ch (view at s c)"
    and r: "0 < refs (loops s L) c" and w0: "eff c (enter L s) (enter L s) tc ch (refs (loops s L) c)"
    using head_conn [of X at s L "FDestroyed c" fs ds, OF inv l about.simps(6) h] by blast
  have "v_des (view at s c) \<noteq> 0" using hd(1) h by (simp add: view_sel(8))
  then have o: "in_life Destroying c tc ch (view at s c)" using in_life_count(3) [OF c(3)] c(3) by simp
  from connectDestroyed_eff [OF w0, of "e_ctl E" "srv_user E L"] obtain w where
    w: "TcpConnection_connectDestroyed (e_ctl E) (srv_user E L) c (enter L s) = Inr w"
      "eff c (enter L s) w tc (ch\<lparr>m_index := kNew\<rparr>) (refs (loops s L) c)"
    using e o by (auto simp: env_ok_def)
  have "srv_inv X (ran at L fs ds (FDestroyed c)) (leave L w)"
  proof (rule srv_inv_ran_eff [of X at s L "FDestroyed c" fs ds c tc, OF inv l _ loc c(1) w(2)])
    show "good (X c) c ((view (ran at L fs ds (FDestroyed c)) s c)\<lparr>v_conn := Some tc, v_chan := Some (ch\<lparr>m_index := kNew\<rparr>),
        v_refs := refs (loops s L) c\<rparr>)"
      unfolding view_ran [of at L "FDestroyed c" fs ds c s, OF l about.simps(6) loc]
      by (rule goodI [where l = Destroyed and tc = tc and ch = "ch\<lparr>m_index := kNew\<rparr>"])
         (use goodD(1) [OF srv_invD(1) [OF inv, of c]] r o c(2) h in \<open>simp_all add: view_sel(3) conn_parts_def\<close>)
  qed simp_all
  then show ?thesis using w(1) pushed_eff [OF inv c(1) w(2)] by (simp add: at_loop_def srv_run_def)
qed

text \<open>The base loop takes a closed connection out of the map and asks its loop to destroy it.\<close>

abbreviation taken_out :: "nat \<Rightarrow> int \<Rightarrow> string \<Rightarrow> srv \<Rightarrow> srv" where
  "taken_out c tid name s \<equiv> push (home s c) tid (FDestroyed c) (s\<lparr>m_connections := (m_connections s)(name := None)\<rparr>)"

lemma only_taken_out:
  assumes ep: "\<And>M. ep_inv (loops s M)" and n: "m_connections s name = Some c"
  shows "only c at s at (taken_out c tid name s)"
proof -
  let ?s = "s\<lparr>m_connections := (m_connections s)(name := None)\<rparr>"
  have o: "only c at s at ?s" using ep n by (auto simp: only_def chan_of_def unrun_def held_def)
  have "only c at ?s at (push (home s c) tid (FDestroyed c) ?s)" by (rule only_push) (simp_all add: ep)
  then show ?thesis by (rule only_trans [OF o]) (rule push_sel(6))
qed

lemma view_taken_out:
  assumes "{k. m_connections s k = Some c} = {name}"
  shows "view at (taken_out c tid name s) c = (view at s c)\<lparr>v_names := {}, v_own := Suc (v_own (view at s c)), v_des := Suc (v_des (view at s c))\<rparr>"
proof -
  let ?s = "s\<lparr>m_connections := (m_connections s)(name := None)\<rparr>" and ?H = "home s c"
  have n: "{k. ((m_connections s)(name := None)) k = Some c} = {}" using assms by auto
  have q: "unrun at (push ?H tid (FDestroyed c) ?s) M = unrun at s M @ (if M = ?H then [FDestroyed c] else [])"
    "held at (push ?H tid (FDestroyed c) ?s) M = held at s M @ (if M = ?H then [FDestroyed c] else [])" for M
    by (simp_all add: push_unrun) (simp_all add: unrun_def held_def)
  have l: "conns (loops (push ?H tid (FDestroyed c) ?s) M) = conns (loops s M)" "refs (loops (push ?H tid (FDestroyed c) ?s) M) = refs (loops s M)"
    "channels (loops (push ?H tid (FDestroyed c) ?s) M) = channels (loops s M)" for M by (simp_all add: push_sel)
  have m: "m_connections (push ?H tid (FDestroyed c) ?s) = (m_connections s)(name := None)" "home (push ?H tid (FDestroyed c) ?s) = home s"
    "sv_baseLoop (push ?H tid (FDestroyed c) ?s) = sv_baseLoop s" by simp_all
  show ?thesis by (rule view.equality) (simp_all only: view_sel q l m n, simp_all add: view_sel sum_two)
qed

lemma run_remove_inv:
  assumes inv: "srv_inv X at s" and l: "at L = InFunctors (FRemove c # fs) ds"
  shows "\<exists>s'. at_loop L (srv_run E L (FRemove c)) s = Inr s' \<and> srv_inv X (ran at L fs ds (FRemove c)) s' \<and> pushed [FDestroyed c] s s'"
proof -
  note hd = head_count [of at L "FRemove c" fs ds, OF l, of s]
  let ?H = "home s c" and ?at = "ran at L fs ds (FRemove c)" and ?v = "view at s c" and ?tid = "m_threadId (loops s L)"
  have B: "L = sv_baseLoop s" and loc: "located s L (FRemove c)" using srv_invD(3) [OF inv hd(2)] by simp_all
  obtain tc ch k where c: "conns (loops s ?H) c = Some tc" "channels (loops s ?H) (m_channel tc) = Some ch" "conn_parts c tc ch"
    "in_life k c tc ch ?v" using held_conn [OF inv hd(2), of c] by auto
  have "v_rem ?v \<noteq> 0" using hd(1) B by (simp add: view_sel(7))
  then have o: "in_life Removing c tc ch ?v" using in_life_count(2) [OF c(4)] c(4) by simp
  then have nm: "{k. m_connections s k = Some c} = {tc_name tc}" by (simp add: view_sel(4))
  then have n: "m_connections s (tc_name tc) = Some c" by blast
  have "0 < refers c (held at s L)" by (rule refers_pos [OF hd(2)]) simp
  then have own: "0 < v_own ?v" using B by (auto simp: view_sel(5) sum_two)
  have g: "v_refs ?v = X c + 1 + v_own ?v" using goodD(1) [OF srv_invD(1) [OF inv, of c]] o by simp
  then obtain m where "refs (loops s ?H) c = Suc (Suc m)" using own by (metis Suc_pred add_Suc_right add.commute plus_1_eq_Suc view_sel(3))
  note r = removeInLoop_eq [OF c(1) n this, of ?tid]
  let ?s = "taken_out c ?tid (tc_name tc) s"
  have eq: "at_loop L (srv_run E L (FRemove c)) s = Inr ?s"
    using r by (simp add: at_loop_def srv_run_def srv_functor_def in_server_def)
  have "srv_inv X ?at ?s"
  proof (rule srv_inv_only [OF inv])
    have on: "only c at s at ?s" using only_taken_out [OF srv_invD(2) [OF inv] n] .
    show "only c at s ?at ?s" by (rule only_trans [OF on only_ran [of at L _ fs ds, OF l _ onlyD(6) [OF on]]]) simp_all
    have h: "home ?s = home s" "sv_baseLoop ?s = sv_baseLoop s" by simp_all
    have "located ?s L (FRemove c)" using B by simp
    from view_ran [of at L "FRemove c" fs ds c ?s, OF l about.simps(7) this] view_taken_out [OF nm, of at ?tid]
    have v: "view ?at ?s c = ?v\<lparr>v_names := {}, v_own := Suc (v_own ?v), v_rem := v_rem ?v - 1, v_des := Suc (v_des ?v)\<rparr>" by simp
    show "good (X c) c (view ?at ?s c)" unfolding v
      by (rule goodI [where l = Destroying and tc = tc and ch = ch]) (use o g c in \<open>simp_all add: view_sel(1,2)\<close>)
    show "located ?s M f" if "f \<in> set (held ?at ?s M)" for M f
      using that srv_invD(3) [OF inv, of f M] located_home [OF h] unfolding ran_lists(1) [of at L "FRemove c" fs ds, OF l] push_unrun
      by (auto simp: held_def unrun_def split: if_splits)
    show "conns (loops ?s M) c = None \<and> refs (loops ?s M) c = 0" if "M \<noteq> home ?s c" for M
      using that srv_invD(4,5) [OF inv, of M c] by simp
    show "active_ok ?at ?s" using active_ran [OF srv_invD(7) [OF inv]] unfolding active_ok_def push_sel by simp
    show "names_inv ?s" "pool_ok ?s" using srv_invD(9,10) [OF inv] by (auto simp: names_inv_def pool_ok_def)
  qed simp
  moreover have "pushed [FDestroyed c] s ?s" by (rule pushed_one [where K = ?H]) (auto simp: wakes_def intro!: forward_same)
  ultimately show ?thesis using eq by blast
qed

fun spawned :: "pfunctor \<Rightarrow> pfunctor list" where
  "spawned (FRemove c) = [FDestroyed c]"
| "spawned f = []"

lemma srv_run_inv:
  assumes inv: "srv_inv X at s" and l: "at L = InFunctors (f # fs) ds" and e: "env_ok E"
  shows "\<exists>s'. at_loop L (srv_run E L f) s = Inr s' \<and> srv_inv X (ran at L fs ds f) s' \<and> pushed (spawned f) s s'"
  using srv_invD(3) [OF inv head_count(2) [of at L f fs ds, OF l]] run_established_inv [OF inv _ e, of L _ fs ds] run_destroyed_inv [OF inv _ e, of L _ fs ds]
    run_remove_inv [OF inv, of L _ fs ds E] l by (cases f) auto

section \<open>Destroying a functor\<close>

text \<open>What dropping a reference does to the world of the connection: when it was the last one the connection
  and its channel are gone.\<close>

definition less_one :: "nat \<Rightarrow> tcpconn \<Rightarrow> nat \<Rightarrow> world \<Rightarrow> world \<Rightarrow> bool" where
  "less_one c tc r w u \<longleftrightarrow> ep_inv u \<and> refs u = (refs w)(c := r) \<and>
     conns u = (if r = 0 then (conns w)(c := None) else conns w) \<and>
     channels u = (if r = 0 then (channels w)(m_channel tc := None) else channels w) \<and>
     m_pendingFunctors u = m_pendingFunctors w \<and> m_threadId u = m_threadId w"

lemma release_less_one:
  assumes e: "ep_inv w" and c: "conns w c = Some tc" and a: "channels w (m_channel tc) = Some ch" and r: "refs w c = Suc r"
    and i: "r = 0 \<Longrightarrow> m_index ch = kNew"
  shows "\<exists>u. release_conn c w = Inr u \<and> less_one c tc r w u"
proof (cases r)
  case 0
  let ?w = "w\<lparr>refs := (refs w)(c := 0)\<rparr>"
  let ?u = "Socket_dtor (tc_sockfd tc) (Channel_delete (m_channel tc) (?w\<lparr>conns := (conns w)(c := None)\<rparr>))"
  have "ep_inv ?u"
    using delete_ok [OF e a i] 0 ep_inv_same [of ?u "Channel_delete (m_channel tc) w"] by (simp add: Channel_delete_def Socket_dtor_def)
  moreover have "release_conn c w = Inr ?u" using c r 0 by (simp add: release_conn_def TcpConnection_dtor_def Conn_at_def)
  ultimately show ?thesis using 0 by (simp add: less_one_def Channel_delete_def Socket_dtor_def)
next
  case (Suc n)
  have "ep_inv (w\<lparr>refs := (refs w)(c := r)\<rparr>)" using e ep_inv_same [of "w\<lparr>refs := (refs w)(c := r)\<rparr>" w] by simp
  then show ?thesis using release_keep [of w c n] r Suc by (simp add: less_one_def)
qed

abbreviation dropped :: "(addr \<Rightarrow> place) \<Rightarrow> addr \<Rightarrow> pfunctor list \<Rightarrow> addr \<Rightarrow> place" where
  "dropped at L fs \<equiv> at(L := InDrop fs)"

lemma dropped_lists:
  assumes "at L = InDrop (f # fs)"
  shows "unrun (dropped at L fs) s M = unrun at s M" "held at s M = (if M = L then [f] else []) @ held (dropped at L fs) s M"
  using assms by (simp_all add: held_def unrun_def)

lemma less_one_lists:
  assumes "less_one c tc r (loops s H) u"
  shows "unrun at (s\<lparr>loops := (loops s)(H := u)\<rparr>) M = unrun at s M" "held at (s\<lparr>loops := (loops s)(H := u)\<rparr>) M = held at s M"
  using assms by (simp_all add: less_one_def unrun_def held_def)

lemma srv_drop_eq:
  assumes "about f = Some c" and "located s L f"
  shows "at_loop L (srv_drop L f) s = srv_release c s"
  using assms by (cases f) (auto simp: srv_drop_def srv_release_def at_loop_def in_server_def rbind_assoc)

lemma only_dropped:
  assumes inv: "srv_inv X at s" and l: "at L = InDrop (f # fs)" and f: "about f = Some c"
    and c: "conns (loops s (home s c)) c = Some tc" and u: "less_one c tc r (loops s (home s c)) u"
  shows "only c at s (dropped at L fs) (s\<lparr>loops := (loops s)(home s c := u)\<rparr>)" (is "only c at s ?at ?s")
proof -
  have q: "unrun ?at ?s M = unrun at s M" "held at s M = (if M = L then [f] else []) @ held ?at ?s M" for M
    using dropped_lists [of at L f fs, OF l] less_one_lists [OF u, of ?at] by simp_all
  have "filter (\<lambda>f. about f \<noteq> Some c) (held ?at ?s M) = filter (\<lambda>f. about f \<noteq> Some c) (held at s M)" for M
    unfolding q(2) [of M] using f by simp
  moreover have "chan_of c s M b \<longleftrightarrow> M = home s c \<and> b = m_channel tc" for M b using c by (auto simp: chan_of_def)
  moreover have "chan_of c ?s M b \<longleftrightarrow> M = home s c \<and> b = m_channel tc \<and> r \<noteq> 0" for M b using c u by (auto simp: chan_of_def less_one_def)
  moreover have "ep_inv (loops ?s M)" for M using srv_invD(2) [OF inv] u by (simp add: less_one_def)
  ultimately show ?thesis unfolding only_def q(1) using u by (auto simp: less_one_def)
qed

lemma view_dropped:
  assumes l: "at L = InDrop (f # fs)" and f: "about f = Some c" "located s L f"
    and c: "conns (loops s (home s c)) c = Some tc" and u: "less_one c tc r (loops s (home s c)) u"
  shows "view (dropped at L fs) (s\<lparr>loops := (loops s)(home s c := u)\<rparr>) c = (view at s c)\<lparr>v_refs := r, v_own := v_own (view at s c) - 1,
    v_conn := (if r = 0 then None else v_conn (view at s c)), v_chan := (if r = 0 then None else v_chan (view at s c))\<rparr>"
    (is "view ?at ?s c = _")
proof -
  have q: "unrun ?at ?s M = unrun at s M" "held at s M = (if M = L then [f] else []) @ held ?at ?s M" for M
    using dropped_lists [of at L f fs, OF l] less_one_lists [OF u, of ?at] by simp_all
  have "L = home s c \<or> L = sv_baseLoop s" using f by (cases f) auto
  then have "v_own (view at s c) = Suc (v_own (view ?at ?s c))"
    using f(1) unfolding view_sel(5) q(2) by (auto simp: sum_two)
  then show ?thesis using u c by (intro view.equality) (auto simp: view_sel q(1) less_one_def)
qed

text \<open>The last reference goes only after \<^verbatim>\<open>connectDestroyed\<close> has taken the channel out of the poller.\<close>

lemma last_destroyed:
  assumes inv: "srv_inv X at s" and l: "at L = InDrop (f # fs)" and f: "about f = Some c" "located s L f"
    and r: "v_refs (view at s c) = 1" and k: "in_life k c tc ch (view at s c)"
  shows "m_index ch = kNew \<and> m_state tc = kDisconnected"
proof -
  let ?v = "view at s c" and ?H = "home s c" and ?B = "sv_baseLoop s"
  have fin: "0 < refers c (finished (at L))" using l f(1) by simp
  have L: "L = ?H \<or> L = ?B" using f by (cases f) auto
  have held: "refers c (held at s M) = refers c (finished (at M)) + refers c (unrun at s M)" for M by (simp add: held_def)
  have own: "0 < v_own ?v" using L fin held [of L] by (auto simp: view_sel(5) sum_two)
  then have one: "v_names ?v = {}" "v_own ?v = 1"
    using goodD(1) [OF srv_invD(1) [OF inv, of c]] r by (cases "v_names ?v = {}"; simp)+
  have "v_des ?v = 0"
  proof (rule ccontr)
    assume "v_des ?v \<noteq> 0"
    then have "FDestroyed c \<in> set (unrun at s ?H)" by (simp add: view_sel(8) count_list_0_iff)
    then have "0 < refers c (unrun at s ?H)" by (rule refers_pos) simp
    then have "2 \<le> v_own ?v" using L fin held [of ?H] held [of ?B] by (auto simp: view_sel(5) sum_two)
    then show False using one(2) by simp
  qed
  then show ?thesis using k one(1) by (cases k) auto
qed

lemma active_dropped:
  assumes act: "active_ok at s" and a: "channels (loops s H) (m_channel tc) = Some ch" and i: "r = 0 \<Longrightarrow> m_index ch = kNew"
    and u: "less_one c tc r (loops s H) u"
  shows "active_ok at (s\<lparr>loops := (loops s)(H := u)\<rparr>)"
proof (cases "r = 0")
  case True
  show ?thesis
  proof (rule active_ok_other [OF act, where L = H and a = "m_channel tc"])
    show "m_channel tc \<notin> set as" if as: "at H = InEvents as" for as
    proof
      assume "m_channel tc \<in> set as"
      then obtain dh where "channels (loops s H) (m_channel tc) = Some dh" "m_index dh = kAdded"
        using act as unfolding active_ok_def by blast
      then show False using a i [OF True] by simp
    qed
  qed (use u in \<open>auto simp: less_one_def\<close>)
next
  case False
  then show ?thesis using act u by (simp add: active_ok_def less_one_def)
qed

lemma srv_drop_inv:
  assumes inv: "srv_inv X at s" and l: "at L = InDrop (f # fs)"
  shows "\<exists>s'. at_loop L (srv_drop L f) s = Inr s' \<and> srv_inv X (dropped at L fs) s' \<and> pushed [] s s'"
proof -
  have hd: "f \<in> set (held at s L)" using l by (simp add: held_def)
  note loc = srv_invD(3) [OF inv hd]
  obtain c where f: "about f = Some c" using loc by (cases f) auto
  obtain tc ch k where c: "conns (loops s (home s c)) c = Some tc" "channels (loops s (home s c)) (m_channel tc) = Some ch" "conn_parts c tc ch"
    "in_life k c tc ch (view at s c)" using held_conn [OF inv hd f] by blast
  let ?H = "home s c" and ?v = "view at s c"
  have "L = ?H \<or> L = sv_baseLoop s" using loc f by (cases f) auto
  then have own: "0 < v_own ?v" using refers_pos [OF hd f] by (auto simp: view_sel(5) sum_two)
  note g = goodD(1) [OF srv_invD(1) [OF inv, of c]]
  then obtain r where r: "refs (loops s ?H) c = Suc r" using own by (cases "refs (loops s ?H) c") (auto simp: view_sel(3))
  have i: "m_index ch = kNew" "m_state tc = kDisconnected" if "r = 0" using last_destroyed [of X at s L f fs c k tc ch, OF inv l f loc _ c(4)] r that by (simp_all add: view_sel(3))
  obtain u where u: "release_conn c (loops s ?H) = Inr u" "less_one c tc r (loops s ?H) u"
    using release_less_one [OF srv_invD(2) [OF inv] c(1,2) r i(1)] by blast
  let ?s = "s\<lparr>loops := (loops s)(?H := u)\<rparr>"
  have eq: "at_loop L (srv_drop L f) s = Inr ?s" using srv_drop_eq [OF f loc] u(1) by (simp add: srv_release_eq)
  have "srv_inv X (dropped at L fs) ?s"
  proof (rule srv_inv_only [OF inv only_dropped [of X at s L f fs c, OF inv l f c(1) u(2)]])
    show "good (X c) c (view (dropped at L fs) ?s c)"
    proof (cases "r = 0")
      case True
      then show ?thesis using g own r unfolding view_dropped [of at L f fs c s, OF l f loc c(1) u(2)] good_def by (auto simp: view_sel(3) split: if_splits)
    next
      case False
      have k: "in_life k c tc ch (?v\<lparr>v_refs := x, v_own := y, v_conn := z, v_chan := z'\<rparr>)" for x y z z' using c(4) by (cases k) simp_all
      show ?thesis unfolding view_dropped [of at L f fs c s, OF l f loc c(1) u(2)]
        by (rule goodI [where l = k and tc = tc and ch = ch]) (use g own r c k False in \<open>auto simp: view_sel(1-3)\<close>)
    qed
    have q: "held (dropped at L fs) ?s M = held (dropped at L fs) s M" for M by (rule less_one_lists(2) [OF u(2)])
    show "located ?s M h" if "h \<in> set (held (dropped at L fs) ?s M)" for M h
      using that srv_invD(3) [OF inv, of h M] dropped_lists(2) [of at L f fs s M, OF l] located_home [of ?s s] unfolding q by auto
    show "conns (loops ?s M) c = None \<and> refs (loops ?s M) c = 0" if "M \<noteq> home ?s c" for M
      using that srv_invD(4,5) [OF inv, of M c] by simp
    show "active_ok (dropped at L fs) ?s"
      by (rule active_dropped [OF active_ok_place [OF srv_invD(7) [OF inv]] c(2) i(1) u(2)]) simp_all
    show "names_inv ?s" "pool_ok ?s" using srv_invD(9,10) [OF inv] by (simp_all add: names_inv_def pool_ok_def)
  qed simp
  have "forward s ?s" using u(2) c(1) i(2) unfolding forward_def less_one_def by (auto split: if_splits)
  then have "pushed [] s ?s"
    by (intro pushed_none) (use u(2) chan_of_asleep [OF inv conn_chan_of(2) [OF inv c(1)]] in \<open>auto simp: less_one_def wakes_def split: if_splits\<close>)
  moreover note \<open>srv_inv X (dropped at L fs) ?s\<close>
  ultimately show ?thesis using eq by blast
qed

section \<open>The machine keeps the invariant\<close>

abbreviation mach_inv :: "mach \<Rightarrow> bool" where
  "mach_inv m \<equiv> srv_inv (\<lambda>_. 0) (place_of m) (server m)"

lemma mstep_inv:
  assumes "mstep m r" and inv: "mach_inv m"
  shows "\<exists>m'. r = Inr m' \<and> mach_inv m'"
  using assms(1)
proof cases
  case (m_poll L wait now)
  then show ?thesis using srv_poll_inv [OF inv, of L wait now] by auto
next
  case (m_event L a as E)
  then show ?thesis using srv_event_inv [OF inv, of L a as E "m_pollReturnTime (loops (server m) L)"] by auto
next
  case (m_swap L fs s)
  then show ?thesis using srv_swap_inv [OF inv, of L fs s] by auto
next
  case (m_run L f fs ds E)
  then show ?thesis using srv_run_inv [OF inv, of L f fs ds E] by auto
next
  case (m_ran L ds)
  then show ?thesis using srv_unflag_inv [OF inv, of L ds] by auto
next
  case (m_drop L f fs)
  then show ?thesis using srv_drop_inv [OF inv, of L f fs] by auto
next
  case (m_again L)
  then show ?thesis using srv_again_inv [OF inv, of L] by auto
qed

definition msucc :: "mach \<Rightarrow> mach \<Rightarrow> bool" where
  "msucc m m' \<longleftrightarrow> mstep m (Inr m')"

lemma msucc_inv: "msucc\<^sup>*\<^sup>* m m' \<Longrightarrow> mach_inv m \<Longrightarrow> mach_inv m'"
  by (induction rule: rtranclp_induct) (use mstep_inv in \<open>fastforce simp: msucc_def\<close>)+

section \<open>A server that was just started\<close>

text \<open>Loops as they are constructed: nothing queued, no connections, each with its wake-up and timer channels
  at most, and the base loop alone in its thread.\<close>

definition loop_channel :: "channel \<Rightarrow> bool" where
  "loop_channel ch \<longleftrightarrow> \<not> m_tied ch \<and> m_writeCallBack ch = None \<and> m_closeCallBack ch = None \<and> m_errorCallBack ch = None \<and>
     (m_readCallBack ch = Some cb_handRead \<or> m_readCallBack ch = Some cb_timerRead)"

definition fresh_loops :: "(addr \<Rightarrow> world) \<Rightarrow> addr \<Rightarrow> bool" where
  "fresh_loops ls loop \<longleftrightarrow> (\<forall>L. ep_inv (ls L) \<and> conns (ls L) = (\<lambda>_. None) \<and> refs (ls L) = (\<lambda>_. 0) \<and> m_pendingFunctors (ls L) = [] \<and>
     (\<forall>b ch. channels (ls L) b = Some ch \<longrightarrow> loop_channel ch) \<and> (L \<noteq> loop \<longrightarrow> m_threadId (ls L) \<noteq> m_threadId (ls loop)))"

lemma srv_inv_fresh:
  assumes c: "\<And>L. conns (loops s L) = (\<lambda>_. None)" "\<And>L. refs (loops s L) = (\<lambda>_. 0)" "\<And>L. m_pendingFunctors (loops s L) = []"
    and e: "\<And>L. ep_inv (loops s L)" and ch: "\<And>L b dh. channels (loops s L) b = Some dh \<Longrightarrow> own_channel s L dh"
    and s: "own_threads s" "names_inv s" "pool_ok s" "sv_connectionCallback s \<noteq> None" "sv_messageCallback s \<noteq> None"
      "sv_writeCompleteCallback s = None" "m_connections s = (\<lambda>_. None)"
  shows "srv_inv (\<lambda>_. 0) (\<lambda>_. AtPoll) s"
proof -
  have q: "unrun (\<lambda>_. AtPoll) s L = []" "held (\<lambda>_. AtPoll) s L = []" for L using c(3) by (simp_all add: unrun_def held_def)
  have "good 0 d (view (\<lambda>_. AtPoll) s d)" for d by (simp add: good_def view_sel c q s(7))
  then show ?thesis using assms by (simp add: srv_inv_def q active_ok_def)
qed

lemma pool_started:
  assumes "0 \<le> n" "n < 2 ^ 31" "loop \<noteq> 0" "\<And>i. startLoop i \<noteq> 0"
    and p: "sv_pool s = EventLoopThreadPool_start startLoop cb (EventLoopThreadPool_setThreadNum n (EventLoopThreadPool_new loop name))"
    and "sv_baseLoop s = loop"
  shows "pool_ok s"
proof -
  let ?p = "(EventLoopThreadPool_new loop name)\<lparr>m_numThread := n, m_started := True\<rparr>"
  have b: "m_baseLoop (pool_start_from startLoop i k q) = m_baseLoop q" for i k q by (induction k arbitrary: i q) (simp_all add: Let_def)
  have "m_eventloops (sv_pool s) = map startLoop [0 ..< nat n]" "m_next (sv_pool s) = 0" "m_baseLoop (sv_pool s) = loop"
    using pool_start_from_loops [of startLoop 0 "nat n" ?p] b [of 0 "nat n" ?p]
    by (simp_all add: p EventLoopThreadPool_start_def EventLoopThreadPool_setThreadNum_def EventLoopThreadPool_new_def Let_def)
  moreover have "nat n < 2 ^ 31" using assms(1,2) by simp
  moreover have "0 \<notin> set (map startLoop [0 ..< nat n])" using assms(4) by (simp add: image_iff)
  ultimately show ?thesis using assms(1,3,6) by (simp add: pool_ok_def)
qed

lemma Acceptor_new_eff:
  assumes "Acceptor_new (Inr fd) bind addr opt a w = Inr (fd', w')" and "ep_inv w" "channels w a = None" "\<forall>b dh. channels w b = Some dh \<longrightarrow> m_fd dh \<noteq> fd"
  shows "fd' = fd \<and> ep_inv w' \<and> channels w' = (channels w)(a \<mapsto> (Channel_new fd)\<lparr>m_readCallBack := Some cb_accept\<rparr>) \<and> conns w' = conns w \<and>
    refs w' = refs w \<and> m_pendingFunctors w' = m_pendingFunctors w \<and> m_threadId w' = m_threadId w"
proof -
  let ?ch = "(Channel_new fd)\<lparr>m_readCallBack := Some cb_accept\<rparr>"
  let ?w = "Socket_set_reusePort fd True (Socket_set_reuseAddr fd True (Channel_put a (Channel_new fd) w))"
  have "ep_inv ?w" "channels ?w a = Some (Channel_new fd)"
    using new_ok [OF assms(2-4)]
    by (simp_all add: Socket_set_reusePort_def Socket_set_reuseAddr_def Socket_setsockopt_def) (simp add: Channel_put_def)
  from ep_inv_put [OF this, of ?ch] this(2) have e: "ep_inv (Channel_put a ?ch ?w)" by simp
  have "fd' = fd" "w' = Channel_put a ?ch ?w"
    using assms(1) \<open>channels ?w a = _\<close>
    by (auto simp: Acceptor_new_def createSockWithNonBlock_def Socket_bindAddress_def Channel_at_def res_simps Let_def split: sum.splits)
  then show ?thesis using e
    by (simp add: Channel_put_def Socket_set_reusePort_def Socket_set_reuseAddr_def Socket_setsockopt_def)
qed

text \<open>The sequence of calls that puts a server to work, as the example server makes them: construct it, set the
  callbacks and the number of threads, start it in the thread of its loop.\<close>

definition serve :: "env \<Rightarrow> bool \<Rightarrow> (int + int) \<Rightarrow> (int \<Rightarrow> sockaddr_in \<Rightarrow> int + unit) \<Rightarrow> (addr \<Rightarrow> world) \<Rightarrow> addr \<Rightarrow> sockaddr_in \<Rightarrow> string \<Rightarrow> addr \<Rightarrow>
    int \<Rightarrow> (nat \<Rightarrow> addr) \<Rightarrow> srv res" where
  "serve E big socket bind ls loop listenAddr name a n startLoop =
     rbind (TcpServer_new big socket bind ls loop listenAddr name False a) (\<lambda>s.
     TcpServer_start E startLoop (m_threadId (ls loop))
       (TcpServer_setThreadNum n (TcpServer_setMessageCallback (Some 0) (TcpServer_setConnectionCallback (Some 0) s))))"

text \<open>The example server: four threads.\<close>

definition ChatServer_new ::
    "bool \<Rightarrow> (int + int) \<Rightarrow> (int \<Rightarrow> sockaddr_in \<Rightarrow> int + unit) \<Rightarrow> (addr \<Rightarrow> world) \<Rightarrow> addr \<Rightarrow> sockaddr_in \<Rightarrow> string \<Rightarrow> addr \<Rightarrow> srv res" where
  "ChatServer_new big socket bind ls loop listenAddr nameArg a =
     rbind (TcpServer_new big socket bind ls loop listenAddr nameArg False a) (\<lambda>s.
     Inr (TcpServer_setThreadNum 4 (TcpServer_setMessageCallback (Some 0) (TcpServer_setConnectionCallback (Some 0) s))))"

definition ChatServer_start :: "env \<Rightarrow> (nat \<Rightarrow> addr) \<Rightarrow> int \<Rightarrow> srv \<Rightarrow> srv res" where
  "ChatServer_start E startLoop tid s = TcpServer_start E startLoop tid s"

definition ChatServer_main :: "env \<Rightarrow> bool \<Rightarrow> (int + int) \<Rightarrow> (int \<Rightarrow> sockaddr_in \<Rightarrow> int + unit) \<Rightarrow> (addr \<Rightarrow> world) \<Rightarrow> addr \<Rightarrow> addr \<Rightarrow> (nat \<Rightarrow> addr) \<Rightarrow> srv res" where
  "ChatServer_main E big socket bind ls loop a startLoop =
     (let addr = InetAddress_new big (e_inet_addr E) ''127.0.0.1'' 6000 in
      rbind (ChatServer_new big socket bind ls loop addr ''ChatServer'' a) (ChatServer_start E startLoop (m_threadId (ls loop))))"

lemma ChatServer_main_serves:
  "ChatServer_main E big socket bind ls loop a startLoop =
    serve E big socket bind ls loop (InetAddress_new big (e_inet_addr E) ''127.0.0.1'' 6000) ''ChatServer'' a 4 startLoop"
  by (simp add: ChatServer_main_def ChatServer_new_def ChatServer_start_def serve_def Let_def rbind_assoc)

definition serve_ok :: "(addr \<Rightarrow> world) \<Rightarrow> addr \<Rightarrow> addr \<Rightarrow> int \<Rightarrow> int \<Rightarrow> (nat \<Rightarrow> addr) \<Rightarrow> bool" where
  "serve_ok ls loop a fd n startLoop \<longleftrightarrow> fresh_loops ls loop \<and> channels (ls loop) a = None \<and>
     (\<forall>b dh. channels (ls loop) b = Some dh \<longrightarrow> m_fd dh \<noteq> fd) \<and> 0 \<le> n \<and> n < 2 ^ 31 \<and> (\<forall>i. startLoop i \<noteq> 0)"

lemma TcpServer_new_fields:
  assumes "TcpServer_new big (Inr fd) bind ls loop addr name opt a = Inr s"
  shows "\<exists>fd' w0. Acceptor_new (Inr fd) bind addr opt a (ls loop) = Inr (fd', w0) \<and> loop \<noteq> 0 \<and> sv_ipPort s = InetAddress_toIpPort big addr \<and> m_started_n s = 0 \<and>
    sv_baseLoop s = loop \<and> m_acceptSocket s = fd' \<and> m_acceptChannel s = a \<and> sv_pool s = EventLoopThreadPool_new loop name \<and> m_nextConnId s = 1 \<and>
    m_connections s = (\<lambda>_. None) \<and> loops s = ls(loop := w0) \<and> sv_writeCompleteCallback s = None"
  using assms by (auto simp: TcpServer_new_def res_simps check_def split: if_splits)

lemma TcpServer_start_eff:
  assumes s: "TcpServer_start E startLoop tid s = Inr s'" and f: "m_started_n s = 0" and t: "m_threadId (loops s (sv_baseLoop s)) = tid"
    and e: "ep_inv (loops s (sv_baseLoop s))" and a: "channels (loops s (sv_baseLoop s)) (m_acceptChannel s) = Some ch" and k: "kernel_accepts (e_ctl E)"
  shows "\<exists>u. s' = s\<lparr>m_started_n := 1, sv_pool := EventLoopThreadPool_start startLoop (sv_threadInitCallback s) (sv_pool s), m_listenning := True,
      loops := (loops s)(sv_baseLoop s := u)\<rparr> \<and> ep_inv u \<and>
    channels u = (channels (loops s (sv_baseLoop s)))(m_acceptChannel s \<mapsto>
      ch\<lparr>m_events := m_events ch OR kReadEvent, m_index := next_index ch (m_events ch OR kReadEvent)\<rparr>) \<and>
    conns u = conns (loops s (sv_baseLoop s)) \<and> refs u = refs (loops s (sv_baseLoop s)) \<and>
    m_pendingFunctors u = m_pendingFunctors (loops s (sv_baseLoop s)) \<and> m_threadId u = tid"
proof -
  let ?L = "sv_baseLoop s" and ?a = "m_acceptChannel s"
  let ?s1 = "s\<lparr>m_started_n := 1, sv_pool := EventLoopThreadPool_start startLoop (sv_threadInitCallback s) (sv_pool s)\<rparr>"
  let ?s = "?s1\<lparr>m_listenning := True\<rparr>"
  have "Acceptor_listen E ?s1 = Inr s'"
    using s f t by (auto simp: TcpServer_start_def srv_runInLoop_def in_thread_def EventLoop_isInLoopThread_def at_loop_def srv_run_def
        srv_functor_def in_server_def srv_drop_def Let_def res_simps)
  then obtain w where w: "Channel_enableReading (e_ctl E) ?a (enter ?L ?s) = Inr w" "s' = leave ?L w"
    by (auto simp: Acceptor_listen_def at_loop_def Let_def res_simps)
  have "ep_inv (enter ?L ?s)" "channels (enter ?L ?s) ?a = Some ch" using e a by (simp_all add: ep_inv_enter)
  from set_events_ok [OF this k, of "\<lambda>e. e OR kReadEvent"] w(1)
  have u: "ep_inv w" "channels w = (channels (enter ?L ?s))(?a \<mapsto> ch\<lparr>m_events := m_events ch OR kReadEvent,
      m_index := next_index ch (m_events ch OR kReadEvent)\<rparr>)" "refs w = refs (enter ?L ?s)" "poller.more w = poller.more (enter ?L ?s)"
    by (auto simp: Channel_enableReading_def)
  note m = world_more [OF u(4)] world_of_poller [OF u(4)]
  show ?thesis using w(2) u(1-3) m t by (intro exI [of _ "world.truncate w"]) (simp add: leave_def)
qed

lemma serve_inv:
  assumes s: "serve E big (Inr fd) bind ls loop addr name a n startLoop = Inr s" and o: "serve_ok ls loop a fd n startLoop"
    and k: "kernel_accepts (e_ctl E)"
  shows "srv_inv (\<lambda>_. 0) (\<lambda>_. AtPoll) s" and "m_pendingFunctors (loops s L) = []"
proof -
  let ?set = "\<lambda>s. TcpServer_setThreadNum n (TcpServer_setMessageCallback (Some 0) (TcpServer_setConnectionCallback (Some 0) s))"
  obtain s0 where s0: "TcpServer_new big (Inr fd) bind ls loop addr name False a = Inr s0" and st: "TcpServer_start E startLoop (m_threadId (ls loop)) (?set s0) = Inr s"
    using s by (auto simp: serve_def res_simps)
  obtain fd' w0 where n: "Acceptor_new (Inr fd) bind addr False a (ls loop) = Inr (fd', w0)" "loop \<noteq> 0" "sv_ipPort s0 = InetAddress_toIpPort big addr"
    "m_started_n s0 = 0" "sv_baseLoop s0 = loop" "m_acceptChannel s0 = a" "sv_pool s0 = EventLoopThreadPool_new loop name" "m_nextConnId s0 = 1"
    "m_connections s0 = (\<lambda>_. None)" "loops s0 = ls(loop := w0)" "sv_writeCompleteCallback s0 = None" using TcpServer_new_fields [OF s0] by blast
  have ls: "ep_inv (ls L)" "conns (ls L) = (\<lambda>_. None)" "refs (ls L) = (\<lambda>_. 0)" "m_pendingFunctors (ls L) = []"
    "channels (ls L) b = Some dh \<Longrightarrow> loop_channel dh" "L \<noteq> loop \<Longrightarrow> m_threadId (ls L) \<noteq> m_threadId (ls loop)" for L b dh
    using o unfolding serve_ok_def fresh_loops_def by blast+
  let ?ch = "(Channel_new fd)\<lparr>m_readCallBack := Some cb_accept\<rparr>"
  have w0: "ep_inv w0" "channels w0 = (channels (ls loop))(a \<mapsto> ?ch)" "conns w0 = conns (ls loop)" "refs w0 = refs (ls loop)"
    "m_pendingFunctors w0 = m_pendingFunctors (ls loop)" "m_threadId w0 = m_threadId (ls loop)"
    using Acceptor_new_eff [OF n(1) ls(1)] o by (auto simp: serve_ok_def)
  have f: "loops (?set s0) = ls(loop := w0)" "sv_baseLoop (?set s0) = loop" "m_acceptChannel (?set s0) = a" "m_started_n (?set s0) = 0"
    "sv_pool (?set s0) = EventLoopThreadPool_setThreadNum n (EventLoopThreadPool_new loop name)"
    using n by (simp_all add: TcpServer_setThreadNum_def TcpServer_setMessageCallback_def TcpServer_setConnectionCallback_def)
  obtain u x where u: "s = (?set s0)\<lparr>m_started_n := 1, sv_pool := EventLoopThreadPool_start startLoop (sv_threadInitCallback (?set s0)) (sv_pool (?set s0)),
      m_listenning := True, loops := (loops (?set s0))(loop := u)\<rparr>" "ep_inv u" "channels u = (channels w0)(a \<mapsto> x)" "conns u = conns w0" "refs u = refs w0"
    "m_pendingFunctors u = m_pendingFunctors w0" "m_threadId u = m_threadId (ls loop)" "own_channel s loop x"
    using TcpServer_start_eff [OF st f(4) _ _ _ k, of ?ch] w0(1,2,6) f
    by (auto simp: own_channel_def Channel_new_def TcpServer_setThreadNum_def TcpServer_setMessageCallback_def TcpServer_setConnectionCallback_def)
  have l: "loops s = ls(loop := u)" "sv_baseLoop s = loop" using u(1) f by simp_all
  show "m_pendingFunctors (loops s L) = []" using l(1) u(6) w0(5) ls(4) by simp
  show "srv_inv (\<lambda>_. 0) (\<lambda>_. AtPoll) s"
  proof (rule srv_inv_fresh)
    show "own_channel s L dh" if "channels (loops s L) b = Some dh" for L b dh
      using that ls(5) [of L b dh] u(3,8) w0(2) l by (auto simp: own_channel_def loop_channel_def split: if_splits)
    show "own_threads s" using ls(6) u(7) l by (simp add: own_threads_def)
    show "names_inv s" using u(1) n length_toIpPort [of big addr]
      by (simp add: names_inv_def int32_ok_def TcpServer_setThreadNum_def TcpServer_setMessageCallback_def TcpServer_setConnectionCallback_def)
    show "pool_ok s" by (rule pool_started [of n loop startLoop s "sv_threadInitCallback (?set s0)" name]) (use o n(2) u(1) f(5) l in \<open>simp_all add: serve_ok_def\<close>)
  qed (use ls w0 u l n in \<open>simp_all add: TcpServer_setThreadNum_def TcpServer_setMessageCallback_def TcpServer_setConnectionCallback_def\<close>)
qed

section \<open>Properties\<close>

lemma mapped_conn:
  assumes inv: "srv_inv X at s" and n: "m_connections s n = Some c"
  shows "\<exists>tc. conns (loops s (home s c)) c = Some tc \<and> tc_name tc = n"
proof -
  let ?v = "view at s c"
  have nv: "n \<in> v_names ?v" using n by (simp add: view_sel(4))
  then have "v_refs ?v \<noteq> 0" using goodD(1) [OF srv_invD(1) [OF inv, of c]] by auto
  then obtain tc where tc: "conns (loops s (home s c)) c = Some tc"
    using goodD(3) [OF srv_invD(1) [OF inv, of c]] by (fastforce simp: view_sel(1))
  then obtain ch k where "in_life k c tc ch ?v" using chan_ofD [OF inv, of c "home s c" "m_channel tc"] by (auto simp: chan_of_def)
  then have "tc_name tc = n" using nv by (cases k) auto
  then show ?thesis using tc by blast
qed

lemma conn_watched:
  assumes inv: "srv_inv X at s" and c: "conns (loops s L) c = Some tc"
  shows "\<exists>ch. home s c = L \<and> channels (loops s L) (m_channel tc) = Some ch \<and> m_fd ch = tc_sockfd tc \<and>
    (m_state tc = kConnected \<longrightarrow> m_index ch = kAdded \<and> Channel_isReading ch \<and> (Channel_isWriting ch \<longleftrightarrow> out_bytes tc \<noteq> [])) \<and>
    (m_state tc = kDisconnected \<longrightarrow> m_events ch = 0)"
proof -
  obtain ch k where h: "home s c = L" "channels (loops s L) (m_channel tc) = Some ch" "conn_parts c tc ch" "in_life k c tc ch (view at s c)"
    using chan_ofD [OF inv conn_chan_of(2) [OF inv c]] c by auto
  have "m_fd ch = tc_sockfd tc" using h(3) by (simp add: conn_parts_def)
  moreover have "m_index ch = kAdded \<and> Channel_isReading ch \<and> (Channel_isWriting ch \<longleftrightarrow> out_bytes tc \<noteq> [])" if "m_state tc = kConnected" using h(4) that by (cases k) simp_all
  moreover have "m_events ch = 0" if "m_state tc = kDisconnected" using h(4) that by (cases k) simp_all
  ultimately show ?thesis using h(1,2) by blast
qed

lemma idle_open:
  assumes inv: "srv_inv (\<lambda>_. 0) at s" and idle: "\<And>L. at L = AtPoll" "\<And>L. m_pendingFunctors (loops s L) = []" and c: "conns (loops s L) c = Some tc"
  shows "refs (loops s L) c = 1 \<and> m_connections s (tc_name tc) = Some c \<and> (m_state tc = kConnected \<or> m_state tc = kDisconnecting) \<and>
    (\<exists>ev. interest (ctlLog (loops s L)) (tc_sockfd tc) = Some (ev, m_channel tc) \<and> ev AND kReadEvent \<noteq> 0)"
proof -
  let ?v = "view at s c"
  obtain ch k where h: "home s c = L" "channels (loops s L) (m_channel tc) = Some ch" "conn_parts c tc ch" "in_life k c tc ch ?v"
    using chan_ofD [OF inv conn_chan_of(2) [OF inv c]] c by auto
  have q: "held at s M = []" "unrun at s M = []" for M using idle by (simp_all add: held_def unrun_def)
  then have z: "v_own ?v = 0" "v_est ?v = 0" "v_rem ?v = 0" "v_des ?v = 0" by (simp_all add: view_sel)
  note g = goodD [OF srv_invD(1) [OF inv, of c]]
  have "0 < v_refs ?v" using g(2) c h(1) by (simp add: view_sel(1))
  then have n: "v_names ?v \<noteq> {}" "v_refs ?v = 1" using g(1) z by (cases "v_names ?v = {}"; simp)+
  then have o: "in_life Open c tc ch ?v" using h(4) z by (cases k) auto
  then have "{n. m_connections s n = Some c} = {tc_name tc}" by (simp add: view_sel(4))
  then have "m_connections s (tc_name tc) = Some c" by blast
  moreover have "interest (ctlLog (loops s L)) (m_fd ch) = Some (m_events ch, m_channel tc)"
    using ep_inv_interest [OF srv_invD(2) [OF inv] h(2)] o by simp
  ultimately show ?thesis using o n(2) h(1,3) by (auto simp: view_sel(3) conn_parts_def Channel_isReading_def)
qed

abbreviation started :: "srv \<Rightarrow> mach" where
  "started s \<equiv> \<lparr>server = s, place_of = (\<lambda>_. AtPoll)\<rparr>"


text \<open>A server with one pool thread, started on loops that have no channels of their own.\<close>

definition ex_served :: "int \<Rightarrow> srv" where
  "ex_served n = \<lparr>sv_connectionCallback = Some 0, sv_messageCallback = Some 0, sv_writeCompleteCallback = None, sv_threadInitCallback = False,
     sv_ipPort = InetAddress_toIpPort False sockaddr_zero, sv_name = ''s'', m_started_n = 1, sv_baseLoop = 1, m_acceptSocket = 4,
     m_acceptChannel = 3, m_listenning = True, m_newConnectionCallback = Some 0,
     sv_pool = EventLoopThreadPool_start (\<lambda>_. 2) False (EventLoopThreadPool_setThreadNum n (EventLoopThreadPool_new 1 ''s'')),
     m_nextConnId = 1, m_connections = (\<lambda>_. None), home = (\<lambda>_. 0),
     loops = (\<lambda>L. idle_world (int L))(1 := (idle_world 1)\<lparr>
       channels := [3 \<mapsto> (Channel_new 4)\<lparr>m_readCallBack := Some cb_accept, m_events := kReadEvent, m_index := kAdded\<rparr>],
       m_channel_map := [4 \<mapsto> 3], ctlLog := [(EPOLL_CTL_ADD, 4, kReadEvent, 3)],
       netlog := [NetOpt 4 SOL_SOCKET SO_REUSEADDR True, NetOpt 4 SOL_SOCKET SO_REUSEPORT True]\<rparr>)\<rparr>"

lemma ex_serve:
  "serve ex_env False (Inr 4) (\<lambda>_ _. Inr ()) (\<lambda>L. idle_world (int L)) 1 sockaddr_zero ''s'' 3 n (\<lambda>_. 2) = Inr (ex_served n)"
  by (simp add: serve_def TcpServer_new_def check_def Acceptor_new_def createSockWithNonBlock_def Socket_bindAddress_def ch_defs Let_def
      Socket_set_reusePort_def Socket_set_reuseAddr_def Socket_setsockopt_def TcpServer_start_def TcpServer_setThreadNum_def
      TcpServer_setMessageCallback_def TcpServer_setConnectionCallback_def srv_runInLoop_def in_thread_def EventLoop_isInLoopThread_def
      at_loop_def srv_run_def srv_functor_def in_server_def srv_drop_def Acceptor_listen_def Socket_listen_def Channel_enableReading_def
      Channel_set_events_def EpollPoller_updateChannel_def idle_world_def enter_def leave_def world.defs Channel_new_def ex_env_def
      ex_ctl_def kNew_def kAdded_def kDeleted_def ex_served_def)

lemma ex_serve_ok: "0 \<le> n \<Longrightarrow> n < 2 ^ 31 \<Longrightarrow> serve_ok (\<lambda>L. idle_world (int L)) 1 3 4 n (\<lambda>_. 2)"
  by (simp add: serve_ok_def fresh_loops_def idle_world_def ep_inv_def)

text \<open>The listening socket becomes readable.\<close>

definition ex_readable :: "int \<Rightarrow> srv" where
  "ex_readable n = (ex_served n)\<lparr>loops := (loops (ex_served n))(1 := (loops (ex_served n) 1)\<lparr>
     channels := [3 \<mapsto> (Channel_new 4)\<lparr>m_readCallBack := Some cb_accept, m_events := kReadEvent, m_index := kAdded, m_revents := EPOLLIN\<rparr>],
     m_activeChannels := [3], m_pollReturnTime := 7\<rparr>)\<rparr>"

lemma ex_poll: "srv_poll (\<lambda>_. Inr [(EPOLLIN, 3)]) 7 1 (ex_served n) = Inr ([3], ex_readable n)"
  by (simp add: srv_poll_def EpollPoller_poll_def ex_served_def ex_readable_def enter_def leave_def world.defs idle_world_def ch_defs
      Channel_set_revents_def Channel_new_def)

lemma ex_poll_legal: "poll_legal (\<lambda>_. Inr [(EPOLLIN, 3)]) (loops (ex_served n) 1)"
  by (auto simp: poll_legal_def ex_served_def idle_world_def revent_max_def sane_def EPOLLIN_def EPOLLHUP_def interest_def intro!: exI [of _ 4])

lemma ex_accept_legal: "event_legal ex_env 1 3 (ex_readable n)"
  by (simp add: event_legal_def accept_legal_def ex_env_def ex_readable_def ex_served_def idle_world_def int32_ok_def Channel_new_def)

lemma ex_env_legal: "env_ok ex_env"
proof -
  have "\<exists>ss. w = w\<lparr>strings := ss\<rparr>" for w :: sworld by (rule exI [of _ "strings w"]) simp
  then show ?thesis using ex_env_ok(1) quiet_polite [OF ex_env_ok(2)] by (simp add: env_ok_def) (simp add: ex_env_def)
qed

abbreviation ex_mach :: "srv \<Rightarrow> place \<Rightarrow> mach" where
  "ex_mach s p \<equiv> \<lparr>server = s, place_of = (\<lambda>_. AtPoll)(1 := p)\<rparr>"

lemma ex_polled: "msucc (started (ex_served n)) (ex_mach (ex_readable n) (InEvents [3]))"
  using m_poll [of "started (ex_served n)" 1 "\<lambda>_. Inr [(EPOLLIN, 3)]" 7] ex_poll_legal [of n] ex_poll [of n] by (simp add: msucc_def)

lemma ex_accepted: "srv_event ex_env 1 7 3 (ex_readable n) = Inr s \<Longrightarrow> msucc (ex_mach (ex_readable n) (InEvents [3])) (ex_mach s (InEvents []))"
  using m_event [of "ex_mach (ex_readable n) (InEvents [3])" 1 3 "[]" ex_env] ex_env_legal ex_accept_legal [of n]
  by (simp add: ex_readable_def msucc_def)

lemma ex_swapped: "m_pendingFunctors (loops s 1) = [] \<Longrightarrow> msucc (ex_mach s (InEvents [])) (ex_mach (snd (srv_swap 1 s)) (InFunctors [] []))"
  using m_swap [of "ex_mach s (InEvents [])" 1 "[]" "snd (srv_swap 1 s)"] by (simp add: msucc_def srv_swap_def pending_swap_def)


text \<open>C2: Whenever the loops of a server are all back at polling with empty queues, nothing is leaked and nothing
  dangles: the connections that exist are exactly those in the map, each of them is open, is
  referred to by the map only, and the kernel watches its descriptor for reading.\<close>

theorem TcpServer_idle_no_leak:
  assumes s: "serve E big (Inr fd) bind ls loop addr name a n startLoop = Inr s" and o: "serve_ok ls loop a fd n startLoop"
    and k: "kernel_accepts (e_ctl E)" and m: "msucc\<^sup>*\<^sup>* (started s) m"
    and idle: "\<forall>L. place_of m L = AtPoll \<and> m_pendingFunctors (loops (server m) L) = []"
  shows "(conns (loops (server m) L) c \<noteq> None \<longleftrightarrow> home (server m) c = L \<and> (\<exists>x. m_connections (server m) x = Some c)) \<and>
    (\<forall>tc. conns (loops (server m) L) c = Some tc \<longrightarrow>
      refs (loops (server m) L) c = 1 \<and> m_connections (server m) (tc_name tc) = Some c \<and> (m_state tc = kConnected \<or> m_state tc = kDisconnecting) \<and>
      (\<exists>ev. interest (ctlLog (loops (server m) L)) (tc_sockfd tc) = Some (ev, m_channel tc) \<and> ev AND kReadEvent \<noteq> 0))"
proof -
  have inv: "mach_inv m" using msucc_inv [OF m] serve_inv(1) [OF s o k] by simp
  have op: "refs (loops (server m) L) c = 1 \<and> m_connections (server m) (tc_name tc) = Some c \<and> (m_state tc = kConnected \<or> m_state tc = kDisconnecting) \<and>
      (\<exists>ev. interest (ctlLog (loops (server m) L)) (tc_sockfd tc) = Some (ev, m_channel tc) \<and> ev AND kReadEvent \<noteq> 0)"
    if "conns (loops (server m) L) c = Some tc" for tc
    using idle_open [OF inv _ _ that] idle by blast
  have "conns (loops (server m) L) c \<noteq> None" if "home (server m) c = L" "m_connections (server m) x = Some c" for x
    using mapped_conn [OF inv that(2)] that(1) by auto
  moreover have "home (server m) c = L" if "conns (loops (server m) L) c \<noteq> None" using conn_chan_of(1) [OF inv] that by blast
  ultimately show ?thesis using op by blast
qed

lemma ex_readable_inv: "srv_inv (\<lambda>_. 0) ((\<lambda>_. AtPoll)(1 := InEvents [3])) (ex_readable n)" if "0 \<le> n" "n < 2 ^ 31"
  using srv_poll_inv [OF serve_inv(1) [OF ex_serve ex_serve_ok [OF that] ex_env_ok(1)] _ ex_poll_legal, of 7] ex_poll by auto

text \<open>The server accepts a connection into its only loop and comes back to polling.\<close>

lemma ex_accept:
  "\<exists>s name. srv_event ex_env 1 7 3 (ex_readable 0) = Inr s \<and> m_connections s name = Some 9 \<and> home s 9 = 1 \<and> (\<forall>M. m_pendingFunctors (loops s M) = [])"
proof -
  let ?s = "ex_readable 0" and ?peer = "InetAddress_setSockAddr sockaddr_zero (InetAddress_new False (\<lambda>_. 0) ''127.0.0.1'' 6000)"
  have inv: "srv_inv (\<lambda>_. 0) ((\<lambda>_. AtPoll)(1 := InEvents [3])) ?s" by (rule ex_readable_inv) simp_all
  have l: "int32_ok (m_nextConnId ?s + 1)" "\<forall>M b dh. channels (loops ?s M) b = Some dh \<longrightarrow> m_fd dh \<noteq> 7" "e_new ex_env ?s = (9, 5)"
    "conns (loops ?s M) 9 = None" "channels (loops ?s M) 5 = None" "sv_baseLoop ?s = 1" "m_pendingFunctors (loops ?s M) = []" "m_threadId (loops ?s 1) = 1"
    "EventLoopThreadPool_getNextLoop (sv_pool ?s) = Inr (1, sv_pool ?s)" "m_acceptSocket ?s = 4" "m_newConnectionCallback ?s = Some 0" for M
    by (simp_all add: ex_readable_def ex_served_def ex_env_def idle_world_def int32_ok_def Channel_new_def EventLoopThreadPool_getNextLoop_def
        EventLoopThreadPool_start_def EventLoopThreadPool_setThreadNum_def EventLoopThreadPool_new_def)
  let ?ch = "(Channel_new 4)\<lparr>m_readCallBack := Some cb_accept, m_events := kReadEvent, m_index := kAdded, m_revents := EPOLLIN\<rparr>"
  have at: "channels (loops ?s 1) 3 = Some ?ch" by (simp add: ex_readable_def)
  have t: "1 = m_threadId (loops ?s (sv_baseLoop ?s))" using l(6,8) by simp
  let ?name = "conn_name (sv_name ?s) (sv_ipPort ?s) (m_nextConnId ?s)"
  obtain tc where acc: "accepted ex_env 1 7 ?peer ?s 9 5 1 (sv_pool ?s) ?name tc" "m_channel tc = 5"
    using newConnection_eff [OF inv ex_env_legal l(1) t l(2-5,9) _ refl, of ?peer] by (auto simp: born_def fresh_conn_def)
  let ?en = "enrolled 9 1 (sv_pool ?s) (m_nextConnId ?s + 1) ?name ?s"
  have "\<exists>s' tc' ch'. TcpServer_newConnection ex_env 1 7 ?peer ?s = Inr s' \<and> seff 9 1 ?en s' tc' ch' 1 \<and>
      used (tc\<lparr>m_state := kConnected\<rparr>) (opened (fresh_channel 7 9) 9) tc' ch'"
    using acc(1) unfolding accepted_def by (simp only: l(6) refl if_True)
  then obtain s' tc' ch' where s': "TcpServer_newConnection ex_env 1 7 ?peer ?s = Inr s'" "m_channel tc' = 5"
    "seff 9 1 ?en s' tc' ch' 1" using acc(2) usedD(1) by fastforce
  have at': "channels (loops s' 1) 3 = Some ?ch" using at s'(2) by (simp add: seff_enrolled [OF s'(3)])
  have q: "m_pendingFunctors (loops s' M) = []" for M
    using seff_enrolled(4) [OF s'(3), of "\<lambda>_. AtPoll" M] l(7) [of M] by (simp add: unrun_def)
  have "Acceptor_handleRead ex_env 1 ?s = Inr s'"
    using s'(1) l(10,11) by (simp add: Acceptor_handleRead_def Socket_accept_def) (simp add: ex_env_def)
  then have r: "srv_cbs ex_env 1 cb_accept 7 (enter 1 ?s) = Inr (enter 1 s')" using l(8) by (simp add: srv_cbs_own in_server_def)
  have g: "Channel_handleEventWithGuard (srv_cbs ex_env 1) 7 3 (enter 1 ?s) = Inr (if EPOLLIN AND (EPOLLIN OR EPOLLPRI) \<noteq> 0 then enter 1 s' else enter 1 ?s)"
    using guard_own [where run = "srv_cbs ex_env 1" and f = cb_accept, OF _ _ _ _ _ r, of 3 ?ch ?ch] at at' by (simp add: Channel_at_def Channel_new_def)
  then have "srv_event ex_env 1 7 3 ?s = Inr s'"
    using at by (simp add: srv_event_def at_loop_def Channel_handleEvent_def Channel_at_def Channel_new_def EPOLLIN_def EPOLLPRI_def)
  then show ?thesis using q by (intro exI [of _ s'] exI [of _ "conn_name (sv_name ?s) (sv_ipPort ?s) (m_nextConnId ?s)"])
    (simp add: seff_enrolled [OF s'(3)])
qed

theorem TcpServer_idle_no_leak_witness:
  "\<exists>m tc. msucc\<^sup>*\<^sup>* (started (ex_served 0)) m \<and> conns (loops (server m) 1) 9 = Some tc \<and> refs (loops (server m) 1) 9 = 1 \<and>
     (\<exists>ev. interest (ctlLog (loops (server m) 1)) (tc_sockfd tc) = Some (ev, m_channel tc))"
proof -
  obtain s x where s: "srv_event ex_env 1 7 3 (ex_readable 0) = Inr s" "m_connections s x = Some 9" "home s 9 = 1" "\<And>M. m_pendingFunctors (loops s M) = []"
    using ex_accept by blast
  let ?s2 = "snd (srv_swap 1 s)" and ?s3 = "srv_unflag 1 (snd (srv_swap 1 s))"
  let ?m3 = "ex_mach ?s2 (InFunctors [] [])" and ?m4 = "ex_mach ?s3 (InDrop [])" and ?m5 = "started ?s3"
  have 4: "msucc ?m3 ?m4" using m_ran [of ?m3 1 "[]"] by (simp add: msucc_def)
  have 5: "msucc ?m4 ?m5" using m_again [of ?m4 1] by (simp add: fun_upd_idem msucc_def)
  have reach: "msucc\<^sup>*\<^sup>* (started (ex_served 0)) ?m5"
    using ex_polled ex_accepted [OF s(1)] ex_swapped [OF s(4)] 4 5 by (meson rtranclp.rtrancl_refl rtranclp.rtrancl_into_rtrancl)
  have idle: "\<forall>L. place_of ?m5 L = AtPoll \<and> m_pendingFunctors (loops (server ?m5) L) = []"
    using s(4) by (simp add: srv_swap_def pending_swap_def srv_unflag_def)
  have "home ?s3 9 = 1" "m_connections ?s3 x = Some 9" using s(2,3) by (simp_all add: srv_swap_def pending_swap_def srv_unflag_def)
  then obtain tc where "conns (loops ?s3 1) 9 = Some tc" "refs (loops ?s3 1) 9 = 1"
    "\<exists>ev. interest (ctlLog (loops ?s3 1)) (tc_sockfd tc) = Some (ev, m_channel tc)"
    using TcpServer_idle_no_leak [OF ex_serve ex_serve_ok ex_env_ok(1) reach idle, of 1 9] by auto
  then show ?thesis using reach by (intro exI [of _ ?m5] exI [of _ tc]) simp
qed

section \<open>The life of a connection, step by step\<close>

lemma step_forward:
  assumes "msucc m m'" and inv: "mach_inv m"
  shows "forward (server m) (server m')"
proof -
  have p: "forward s s'" if "pushed fs s s'" for fs s s' using that by (simp add: pushed_def)
  have g: "forward s s'" if "grows s s'" for s s' using that p by (auto simp: grows_def)
  have "mstep m (Inr m')" using assms(1) by (simp add: msucc_def)
  then show ?thesis
  proof cases
    case (m_poll L wait now)
    then show ?thesis using srv_poll_inv [OF inv, of L wait now] p by auto
  next
    case (m_event L a as E)
    then show ?thesis using srv_event_inv [OF inv m_event(2-4), of "m_pollReturnTime (loops (server m) L)"] m_event(1) g by auto
  next
    case (m_run L f fs ds E)
    then show ?thesis using srv_run_inv [OF inv m_run(2,3)] m_run(1) p by auto
  next
    case (m_drop L f fs)
    then show ?thesis using srv_drop_inv [OF inv m_drop(2)] m_drop(1) p by auto
  qed (auto simp: srv_swap_def pending_swap_def srv_unflag_def intro!: forward_same)
qed



end
