(* ===== verification/Server_Rest.thy ===== *)
theory Server_Rest
  imports Server_Safety
begin

text \<open>
  Left alone, a server comes to rest: while nothing happens outside, only finitely many steps are left in
  every interleaving of its loops, apart from the rounds of loops that have nothing to do, and it ends
  with all loops polling and all queues empty.
\<close>

section \<open>The work that is left\<close>

text \<open>Running a removal queues a destruction, so it counts for more. A functor in the queue has the swap
  still before it.\<close>

fun heavy :: "pfunctor \<Rightarrow> nat" where
  "heavy (FRemove c) = 11"
| "heavy f = 2"

definition queue_work :: "pfunctor list \<Rightarrow> nat" where
  "queue_work fs = sum_list (map (\<lambda>f. heavy f + 1) fs)"

text \<open>A loop with functors waiting has another round to go, which begins where it polls. Being woken is an
  event that queues nothing.\<close>

definition event_work :: "(addr \<Rightarrow> bool) \<Rightarrow> addr \<Rightarrow> nat" where
  "event_work wk a = (if wk a then 1 else 19)"

fun place_work :: "(addr \<Rightarrow> bool) \<Rightarrow> place \<Rightarrow> bool \<Rightarrow> nat" where
  "place_work wk AtPoll waiting = (if waiting then 6 else 0)"
| "place_work wk (InEvents as) waiting = (if waiting then 4 else 3) + sum_list (map (event_work wk) as)"
| "place_work wk (InFunctors fs ds) waiting = (if waiting then 8 else 2) + sum_list (map heavy fs) + length ds"
| "place_work wk (InDrop ds) waiting = (if waiting then 7 else 1) + length ds"

definition loop_work :: "(addr \<Rightarrow> bool) \<Rightarrow> place \<Rightarrow> pfunctor list \<Rightarrow> nat" where
  "loop_work wk p q = place_work wk p (q \<noteq> []) + queue_work q"

definition work :: "mach \<Rightarrow> addr \<Rightarrow> nat" where
  "work m L = loop_work (wakes (server m) L) (place_of m L) (m_pendingFunctors (loops (server m) L))"

definition total_work :: "mach \<Rightarrow> nat" where
  "total_work m = sum (work m) {L. work m L \<noteq> 0}"

lemma queue_work_simps [simp]: "queue_work [] = 0" "queue_work (f # fs) = heavy f + 1 + queue_work fs" "queue_work (fs @ gs) = queue_work fs + queue_work gs"
  by (simp_all add: queue_work_def)

lemma place_work_flag: "place_work wk p w' \<le> place_work wk p w + 6"
  by (cases p) simp_all

lemma event_work_mono: "(\<And>a. wk a \<Longrightarrow> wk' a) \<Longrightarrow> event_work wk' a \<le> event_work wk a"
  by (simp add: event_work_def)

lemma place_work_mono: "(\<And>a. wk a \<Longrightarrow> wk' a) \<Longrightarrow> place_work wk' p w \<le> place_work wk p w"
  by (cases p) (auto intro!: sum_list_mono event_work_mono)

lemma heavy_bounds: "heavy f \<le> 11"
  by (cases f) simp_all

lemma queue_work_todo: "sum_list (map heavy fs) + length fs = queue_work fs"
  by (induction fs) simp_all

abbreviation pushed_work :: "pfunctor list \<Rightarrow> nat" where
  "pushed_work fs \<equiv> (if fs = [] then 0 else 6) + queue_work fs"

lemma loop_work_push:
  assumes "\<And>a. wk a \<Longrightarrow> wk' a"
  shows "loop_work wk' p (q @ fs) \<le> loop_work wk p q + pushed_work fs"
  using place_work_mono [of wk wk' p "q @ fs \<noteq> []"] place_work_flag [of wk p True "q \<noteq> []"] assms by (cases "fs = []") (simp_all add: loop_work_def)

text \<open>A step takes loop \<open>L\<close> from its work to \<open>y\<close> and gives \<open>x\<close> more to a loop \<open>K\<close>.\<close>

definition moves_work :: "(addr \<Rightarrow> nat) \<Rightarrow> (addr \<Rightarrow> nat) \<Rightarrow> addr \<Rightarrow> nat \<Rightarrow> addr \<Rightarrow> nat \<Rightarrow> bool" where
  "moves_work g g' L y K x \<longleftrightarrow> (\<forall>M. g' M \<le> (if M = L then y else g M) + (if M = K then x else 0))"

lemma moves_work_finite:
  assumes "moves_work g g' L y K x" and "finite {M. g M \<noteq> 0}"
  shows "finite {M. g' M \<noteq> 0}"
proof (rule finite_subset)
  show "{M. g' M \<noteq> 0} \<subseteq> insert L (insert K {M. g M \<noteq> 0})"
  proof
    fix M assume "M \<in> {M. g' M \<noteq> 0}"
    moreover have "g' M \<le> (if M = L then y else g M) + (if M = K then x else 0)" using assms(1) unfolding moves_work_def by blast
    ultimately show "M \<in> insert L (insert K {M. g M \<noteq> 0})" by (cases "M = L"; cases "M = K") auto
  qed
qed (use assms(2) in simp)

lemma moves_work_sum:
  assumes m: "moves_work g g' L y K x" and f: "finite {M. g M \<noteq> 0}"
  shows "sum g' {M. g' M \<noteq> 0} + g L \<le> sum g {M. g M \<noteq> 0} + y + x"
proof -
  let ?S = "insert L {M. g M \<noteq> 0} \<union> {M. g' M \<noteq> 0}"
  have S: "finite ?S" "L \<in> ?S" using f moves_work_finite [OF m f] by simp_all
  have "sum g' {M. g' M \<noteq> 0} = sum g' ?S" by (rule sum.mono_neutral_left) (use S in auto)
  also have "\<dots> \<le> (\<Sum>M \<in> ?S. (if M = L then y else g M) + (if M = K then x else 0))"
    using m unfolding moves_work_def by (intro sum_mono) blast
  also have "\<dots> = (\<Sum>M \<in> ?S. if M = L then y else g M) + (\<Sum>M \<in> ?S. if M = K then x else 0)" by (rule sum.distrib)
  also have "\<dots> \<le> y + sum g (?S - {L}) + x"
  proof -
    have "(\<Sum>M \<in> ?S. if M = L then y else g M) = y + sum g (?S - {L})"
      by (subst sum.remove [OF S]) (auto intro!: sum.cong)
    moreover have "(\<Sum>M \<in> ?S. if M = K then x else 0) \<le> x" using sum.delta [OF S(1), of K "\<lambda>_. x"] by simp
    ultimately show ?thesis by simp
  qed
  finally have "sum g' {M. g' M \<noteq> 0} \<le> y + sum g (?S - {L}) + x" .
  moreover have "g L + sum g (?S - {L}) = sum g ?S" by (rule sum.remove [OF S, symmetric])
  moreover have "sum g ?S = sum g {M. g M \<noteq> 0}" by (rule sum.mono_neutral_right) (use S in auto)
  ultimately show ?thesis by simp
qed

text \<open>The new place of loop \<open>L\<close> and the functors that were queued determine the work that is moved.\<close>

lemma pushed_moves:
  assumes "pushed fs (server m) s'"
  shows "\<exists>K. moves_work (work m) (work (m\<lparr>server := s', place_of := (place_of m)(L := p)\<rparr>))
    L (loop_work (wakes (server m) L) p (m_pendingFunctors (loops (server m) L))) K (pushed_work fs)"
proof -
  obtain K where K: "\<And>M. m_pendingFunctors (loops s' M) = m_pendingFunctors (loops (server m) M) @ (if M = K then fs else [])"
    and w: "\<And>M a. wakes (server m) M a \<Longrightarrow> wakes s' M a" using assms by (auto simp: pushed_def)
  have b: "loop_work (wakes s' M) q (m_pendingFunctors (loops s' M)) \<le> loop_work (wakes (server m) M) q (m_pendingFunctors (loops (server m) M)) +
      (if M = K then pushed_work fs else 0)" for q M
    using loop_work_push [of "wakes (server m) M" "wakes s' M" q "m_pendingFunctors (loops (server m) M)" "if M = K then fs else []"] w
    by (cases "M = K") (simp_all add: K add.assoc)
  have "work (m\<lparr>server := s', place_of := (place_of m)(L := p)\<rparr>) M \<le>
      (if M = L then loop_work (wakes (server m) L) p (m_pendingFunctors (loops (server m) L)) else work m M) + (if M = K then pushed_work fs else 0)" for M
    using b [of M "if M = L then p else place_of m M"] by (cases "M = L") (simp_all add: work_def)
  then show ?thesis unfolding moves_work_def by blast
qed

section \<open>Steps while nothing happens outside\<close>

text \<open>While nothing happens outside, \<^verbatim>\<open>epoll_wait\<close> reports at most that a loop is woken. A poll is idle when
  no functors are waiting for the loop: it timed out, or was woken for functors that have run already.\<close>

definition undisturbed :: "mach \<Rightarrow> mach \<Rightarrow> bool" where
  "undisturbed m m' \<longleftrightarrow> (\<forall>L. place_of m L = AtPoll \<and> place_of m' L \<noteq> AtPoll \<longrightarrow>
     (\<exists>as. place_of m' L = InEvents as \<and> length as \<le> 1 \<and> (\<forall>a \<in> set as. wakes (server m) L a)))"

definition idle_poll :: "mach \<Rightarrow> mach \<Rightarrow> bool" where
  "idle_poll m m' \<longleftrightarrow> (\<exists>L. place_of m L = AtPoll \<and> place_of m' L \<noteq> AtPoll \<and> m_pendingFunctors (loops (server m) L) = [])"

text \<open>A run of \<open>k\<close> steps of which \<open>p\<close> are idle polls.\<close>

inductive rests :: "nat \<Rightarrow> nat \<Rightarrow> mach \<Rightarrow> mach \<Rightarrow> bool" where
  rests_none: "rests 0 0 m m"
| rests_more: "rests k p m m1 \<Longrightarrow> msucc m1 m' \<Longrightarrow> undisturbed m1 m' \<Longrightarrow>
    rests (Suc k) (if idle_poll m1 m' then Suc p else p) m m'"

lemma poll_work:
  assumes l: "place_of m L = AtPoll" and u: "undisturbed m m'" and p: "place_of m' L = InEvents as"
  shows "loop_work (wakes (server m) L) (InEvents as) (m_pendingFunctors (loops (server m) L)) < work m L + (if idle_poll m m' then 5 else 0)"
proof -
  have a: "length as \<le> 1" "\<forall>a \<in> set as. wakes (server m) L a" using u l p unfolding undisturbed_def by fastforce+
  then have "sum_list (map (event_work (wakes (server m) L)) as) \<le> 1" by (cases as) (simp_all add: event_work_def)
  moreover have "idle_poll m m'" if "m_pendingFunctors (loops (server m) L) = []" using that l p by (auto simp: idle_poll_def)
  ultimately show ?thesis using l by (cases "m_pendingFunctors (loops (server m) L) = []") (simp_all add: work_def loop_work_def)
qed

lemma swap_moves:
  assumes "srv_swap L (server m) = (fs, s)" and "place_of m L = InEvents []"
  shows "moves_work (work m) (work (m\<lparr>server := s, place_of := (place_of m)(L := InFunctors fs [])\<rparr>)) L (2 + sum_list (map heavy fs)) L 0 \<and>
    2 + sum_list (map heavy fs) < work m L"
proof -
  have f: "fs = m_pendingFunctors (loops (server m) L)" "s = (server m)\<lparr>loops := (loops (server m))(L := (loops (server m) L)\<lparr>
      m_callingPendingFunctors := True, m_pendingFunctors := []\<rparr>)\<rparr>" using assms(1) by (auto simp: srv_swap_def pending_swap_def)
  then have w: "wakes s M = wakes (server m) M" for M by (auto simp: wakes_def fun_eq_iff)
  have "2 + sum_list (map heavy fs) < work m L"
    using queue_work_todo [of fs] assms(2) f(1) by (cases fs) (auto simp: work_def loop_work_def)
  moreover have "work (m\<lparr>server := s, place_of := (place_of m)(L := InFunctors fs [])\<rparr>) M \<le> (if M = L then 2 + sum_list (map heavy fs) else work m M)" for M
    by (cases "M = L") (simp_all add: work_def loop_work_def w, simp_all add: f)
  ultimately show ?thesis unfolding moves_work_def by simp
qed

text \<open>An event queues at most one functor, and being woken none.\<close>

lemma event_moves:
  assumes inv: "mach_inv m" and l: "place_of m L = InEvents (a # as)" and e: "env_ok E" "event_legal E L a (server m)"
    and m': "Inr m' = rbind (srv_event E L (m_pollReturnTime (loops (server m) L)) a (server m)) (\<lambda>s.
      Inr (m\<lparr>server := s, place_of := (place_of m)(L := InEvents as)\<rparr>))"
  shows "\<exists>y K x. moves_work (work m) (work m') L y K x \<and> y + x < work m L"
proof -
  let ?w = "wakes (server m) L"
  obtain s' fs where s': "srv_event E L (m_pollReturnTime (loops (server m) L)) a (server m) = Inr s'" "pushed fs (server m) s'"
      "length fs \<le> 1" "?w a \<Longrightarrow> fs = []"
  proof (cases "?w a")
    case True
    then show ?thesis using that [of _ "[]"] srv_event_inv [OF inv l e] by force
  next
    case False
    then show ?thesis using that srv_event_inv [OF inv l e, of "m_pollReturnTime (loops (server m) L)"] by (auto simp: grows_def)
  qed
  have "pushed_work fs < event_work ?w a"
  proof (cases fs)
    case (Cons f gs)
    then show ?thesis using s'(3,4) heavy_bounds [of f] by (auto simp: event_work_def)
  qed (simp add: event_work_def)
  then have "loop_work ?w (InEvents as) (m_pendingFunctors (loops (server m) L)) + pushed_work fs < work m L"
    using l by (simp add: work_def loop_work_def)
  moreover have "m' = m\<lparr>server := s', place_of := (place_of m)(L := InEvents as)\<rparr>" using m' s'(1) by simp
  ultimately show ?thesis using pushed_moves [OF s'(2), of L "InEvents as"] by blast
qed

lemma step_work:
  assumes "msucc m m'" and inv: "mach_inv m"
  shows "\<exists>L y K x. moves_work (work m) (work m') L y K x \<and> (undisturbed m m' \<longrightarrow> y + x < work m L + (if idle_poll m m' then 5 else 0))"
proof -
  have "mstep m (Inr m')" using assms(1) by (simp add: msucc_def)
  then show ?thesis
  proof cases
    case (m_poll L wait now)
    then obtain as s' where s': "srv_poll wait now L (server m) = Inr (as, s')" "pushed [] (server m) s'"
      using srv_poll_inv [OF inv, of L wait now] by auto
    then have m': "m' = m\<lparr>server := s', place_of := (place_of m)(L := InEvents as)\<rparr>" using m_poll(1) by simp
    then have "place_of m' L = InEvents as" by simp
    then show ?thesis using pushed_moves [OF s'(2), of L "InEvents as"] m' poll_work [OF m_poll(2), of m' as] by fastforce
  next
    case (m_event L a as E)
    then show ?thesis using event_moves [OF inv m_event(2-4,1)] by (meson trans_less_add1)
  next
    case (m_swap L fs s)
    then show ?thesis using swap_moves [of L m fs s] by fastforce
  next
    case (m_run L f fs ds E)
    then obtain s' where s': "at_loop L (srv_run E L f) (server m) = Inr s'" "pushed (spawned f) (server m) s'"
      using srv_run_inv [OF inv, of L f fs ds E] by auto
    then have m': "m' = m\<lparr>server := s', place_of := (place_of m)(L := InFunctors fs (ds @ [f]))\<rparr>" using m_run(1) by simp
    have "loop_work (wakes (server m) L) (InFunctors fs (ds @ [f])) (m_pendingFunctors (loops (server m) L)) + pushed_work (spawned f) < work m L"
      using m_run(2) by (cases f) (simp_all add: work_def loop_work_def)
    then show ?thesis using pushed_moves [OF s'(2), of L "InFunctors fs (ds @ [f])"] m' by (meson trans_less_add1)
  next
    case (m_ran L ds)
    have p: "pushed [] (server m) (srv_unflag L (server m))" by (rule pushed_none) (auto simp: srv_unflag_def wakes_def intro!: forward_same)
    have "loop_work (wakes (server m) L) (InDrop ds) (m_pendingFunctors (loops (server m) L)) < work m L"
      using m_ran(2) by (simp add: work_def loop_work_def)
    then show ?thesis using pushed_moves [OF p, of L "InDrop ds"] m_ran(1) by fastforce
  next
    case (m_drop L f fs)
    then obtain s' where s': "at_loop L (srv_drop L f) (server m) = Inr s'" "pushed [] (server m) s'"
      using srv_drop_inv [OF inv, of L f fs] by auto
    then have m': "m' = m\<lparr>server := s', place_of := (place_of m)(L := InDrop fs)\<rparr>" using m_drop(1) by simp
    have "loop_work (wakes (server m) L) (InDrop fs) (m_pendingFunctors (loops (server m) L)) < work m L"
      using m_drop(2) by (simp add: work_def loop_work_def)
    then show ?thesis using pushed_moves [OF s'(2), of L "InDrop fs"] m' by fastforce
  next
    case (m_again L)
    have p: "pushed [] (server m) (server m)" by (rule pushed_none) (simp_all add: forward_same)
    have "loop_work (wakes (server m) L) AtPoll (m_pendingFunctors (loops (server m) L)) < work m L"
      using m_again(2) by (simp add: work_def loop_work_def)
    then show ?thesis using pushed_moves [OF p, of L AtPoll] m_again(1) by fastforce
  qed
qed

lemma busy_step: "msucc m m' \<Longrightarrow> mach_inv m \<Longrightarrow> finite {L. work m L \<noteq> 0} \<Longrightarrow> mach_inv m' \<and> finite {L. work m' L \<noteq> 0}"
  using step_work moves_work_finite mstep_inv [of m "Inr m'"] by (auto simp: msucc_def) blast+

lemma busy_reach:
  assumes "msucc\<^sup>*\<^sup>* m m'" and "mach_inv m" and "finite {L. work m L \<noteq> 0}"
  shows "mach_inv m' \<and> finite {L. work m' L \<noteq> 0}"
  using assms by (induction rule: rtranclp_induct) (blast dest: busy_step)+

lemma rests_work:
  assumes "rests k p m m'" and "mach_inv m" and "finite {L. work m L \<noteq> 0}"
  shows "mach_inv m' \<and> finite {L. work m' L \<noteq> 0} \<and> total_work m' + k \<le> total_work m + 5 * p"
  using assms
proof (induction rule: rests.induct)
  case (rests_more k p m m1 m')
  then have i: "mach_inv m1" "finite {L. work m1 L \<noteq> 0}" "total_work m1 + k \<le> total_work m + 5 * p" by auto
  obtain L y K x where "moves_work (work m1) (work m') L y K x" "y + x < work m1 L + (if idle_poll m1 m' then 5 else 0)"
    using step_work [OF rests_more(2) i(1)] rests_more(3) by blast
  then have "total_work m' < total_work m1 + (if idle_poll m1 m' then 5 else 0)"
    using moves_work_sum [OF _ i(2), of "work m'" L y K x] unfolding total_work_def by linarith
  then show ?case using i busy_step [OF rests_more(2) i(1,2)] by (simp split: if_splits)
qed simp

section \<open>Going on\<close>

text \<open>An environment in which nothing happens: nobody connects and reads find nothing.\<close>

definition still_env :: env where
  "still_env = ex_env\<lparr>e_accept := (\<lambda>_. Inl 0), e_readv := (\<lambda>_ _. Inl 0)\<rparr>"

lemma still_env_ok: "env_ok still_env" "event_legal still_env L a s"
  using ex_env_legal by (simp_all add: still_env_def env_ok_def event_legal_def accept_legal_def read_fits_def)

lemma rest_step:
  assumes "mstep m r" and inv: "mach_inv m" and p: "\<And>m'. r = Inr m' \<Longrightarrow> place_of m' = (place_of m)(L := p')" and l: "place_of m L \<noteq> AtPoll"
  shows "\<exists>m'. msucc m m' \<and> undisturbed m m' \<and> \<not> idle_poll m m'"
proof -
  obtain m' where m': "r = Inr m'" using mstep_inv [OF assms(1) inv] by blast
  have "undisturbed m m'" "\<not> idle_poll m m'" using p [OF m'] l by (auto simp: undisturbed_def idle_poll_def)
  then show ?thesis using assms(1) m' by (auto simp: msucc_def)
qed

lemma poll_nothing:
  assumes inv: "mach_inv m" and l: "place_of m L = AtPoll" and q: "m_pendingFunctors (loops (server m) L) \<noteq> []"
  shows "\<exists>m'. msucc m m' \<and> undisturbed m m' \<and> \<not> idle_poll m m'"
proof -
  have "poll_legal (\<lambda>_. Inr []) (loops (server m) L)" by (simp add: poll_legal_def)
  from m_poll [OF l this, of 0] obtain s where "mstep m (Inr (m\<lparr>server := s, place_of := (place_of m)(L := InEvents [])\<rparr>))"
    by (auto simp: srv_poll_def EpollPoller_poll_def)
  moreover have "undisturbed m (m\<lparr>server := s, place_of := (place_of m)(L := InEvents [])\<rparr>)"
    "\<not> idle_poll m (m\<lparr>server := s, place_of := (place_of m)(L := InEvents [])\<rparr>)" using q by (auto simp: undisturbed_def idle_poll_def)
  ultimately show ?thesis unfolding msucc_def by blast
qed

lemma rest_progress:
  assumes inv: "mach_inv m" and busy: "place_of m L \<noteq> AtPoll \<or> m_pendingFunctors (loops (server m) L) \<noteq> []"
  shows "\<exists>m'. msucc m m' \<and> undisturbed m m' \<and> \<not> idle_poll m m'"
proof (cases "place_of m L")
  case AtPoll
  then show ?thesis using poll_nothing [OF inv] busy by blast
next
  case (InEvents as)
  show ?thesis
  proof (cases as)
    case Nil
    obtain fs s where "srv_swap L (server m) = (fs, s)" by (cases "srv_swap L (server m)")
    then show ?thesis using m_swap [of m L fs s] InEvents Nil by (intro rest_step [OF _ inv, where L = L]) auto
  next
    case (Cons a bs)
    then show ?thesis using m_event [of m L a bs still_env] InEvents still_env_ok
      by (intro rest_step [OF _ inv, where L = L]) (auto simp: res_simps)
  qed
next
  case (InFunctors fs ds)
  show ?thesis
  proof (cases fs)
    case Nil
    then show ?thesis using m_ran [of m L ds] InFunctors by (intro rest_step [OF _ inv, where L = L]) auto
  next
    case (Cons f gs)
    then show ?thesis using m_run [of m L f gs ds still_env] InFunctors still_env_ok(1)
      by (intro rest_step [OF _ inv, where L = L]) (auto simp: res_simps)
  qed
next
  case (InDrop ds)
  show ?thesis
  proof (cases ds)
    case Nil
    then show ?thesis using m_again [of m L] InDrop by (intro rest_step [OF _ inv, where L = L]) auto
  next
    case (Cons f gs)
    then show ?thesis using m_drop [of m L f gs] InDrop by (intro rest_step [OF _ inv, where L = L]) (auto simp: res_simps)
  qed
qed

text \<open>Going on as long as there is something to do leads to rest.\<close>

abbreviation at_rest :: "mach \<Rightarrow> bool" where
  "at_rest m \<equiv> \<forall>L. place_of m L = AtPoll \<and> m_pendingFunctors (loops (server m) L) = []"

lemma rests_end:
  assumes "mach_inv m" and "finite {L. work m L \<noteq> 0}" and "rests k 0 m m1"
  shows "\<exists>k' m'. rests k' 0 m m' \<and> at_rest m'"
  using assms(3)
proof (induction "total_work m1" arbitrary: k m1 rule: less_induct)
  case less
  have i: "mach_inv m1" "finite {L. work m1 L \<noteq> 0}" using rests_work [OF less(2) assms(1,2)] by simp_all
  show ?case
  proof (cases "at_rest m1")
    case False
    then obtain m2 where m2: "msucc m1 m2" "undisturbed m1 m2" "\<not> idle_poll m1 m2" using rest_progress [OF i(1)] by blast
    have "rests 1 0 m1 m2" using rests_more [OF rests_none m2(1,2)] m2(3) by simp
    then have "total_work m2 < total_work m1" using rests_work [OF _ i] by fastforce
    moreover have "rests (Suc k) 0 m m2" using rests_more [OF less(2) m2(1,2)] m2(3) by simp
    ultimately show ?thesis by (rule less(1))
  qed (use less(2) in blast)
qed

section \<open>Properties\<close>



end
