(* ===== verification/Server_App.thy ===== *)
theory Server_App
  imports Server_Rest
begin

text \<open>
  Applications: callbacks that take bytes out of the input buffer, send and shut down, in any order and any
  number of times, are among those the machine of the server allows. They run in the connection's
  own loop, as the library calls them.
\<close>

section \<open>Callbacks as programs\<close>

datatype act =
    ASend "byte list"
  | AShutdown
  | ARetrieve u32

text \<open>The string that is sent lives as long as the call. What is retrieved goes into a block of the caller.\<close>

fun act_run :: "ctl \<Rightarrow> relock \<Rightarrow> write_call \<Rightarrow> nat \<Rightarrow> act \<Rightarrow> 'a world_scheme \<Rightarrow> 'a world_scheme res" where
  "act_run ctl mx wr c (ASend bs) w =
     rbind (TcpConnection_send ctl mx wr (m_threadId w) 0 c (w\<lparr>strings := (strings w)(0 \<mapsto> bs)\<rparr>)) (\<lambda>w.
     Inr (w\<lparr>strings := (strings w)(0 := None)\<rparr>))"
| "act_run ctl mx wr c AShutdown w = TcpConnection_shutdown (m_threadId w) c w"
| "act_run ctl mx wr c (ARetrieve n) w =
     rbind (Conn_at w c) (\<lambda>tc.
     rbind (Kfifo_readBuffer mx (m_inputBuffer tc) (Some (replicate (unat n) 0)) n) (\<lambda>(_, _, k).
     Inr (Conn_put c (tc\<lparr>m_inputBuffer := k\<rparr>) w)))"

primrec acts_run :: "ctl \<Rightarrow> relock \<Rightarrow> write_call \<Rightarrow> nat \<Rightarrow> act list \<Rightarrow> 'a world_scheme \<Rightarrow> 'a world_scheme res" where
  "acts_run ctl mx wr c [] w = Inr w"
| "acts_run ctl mx wr c (a # as) w = rbind (act_run ctl mx wr c a w) (acts_run ctl mx wr c as)"

text \<open>\<open>prog\<close> says what the application does in each callback, seeing the whole state.\<close>

definition app_user :: "ctl \<Rightarrow> relock \<Rightarrow> write_call \<Rightarrow> (ucall \<Rightarrow> 'a world_scheme \<Rightarrow> act list) \<Rightarrow> 'a user" where
  "app_user ctl mx wr prog u w = acts_run ctl mx wr (call_conn u) (prog u w) w"

section \<open>What an action does\<close>

text \<open>From \<open>w\<close>, with the connection \<open>tc\<close> and its channel \<open>ch\<close>, the result is a world in which the connection was used.\<close>

definition uses_well :: "nat \<Rightarrow> tcpconn \<Rightarrow> channel \<Rightarrow> nat \<Rightarrow> 'a world_scheme \<Rightarrow> 'a world_scheme res \<Rightarrow> bool" where
  "uses_well c tc ch r w0 x \<longleftrightarrow> (\<exists>w tc' ch'. x = Inr w \<and> eff c w0 w tc' ch' r \<and> used tc ch tc' ch')"

definition usable :: "nat \<Rightarrow> tcpconn \<Rightarrow> channel \<Rightarrow> bool" where
  "usable c tc ch \<longleftrightarrow> conn_parts c tc ch \<and> (m_state tc = kDisconnected \<or> lively tc ch)"

lemma uses_wellI: "eff c w0 w tc' ch' r \<Longrightarrow> used tc ch tc' ch' \<Longrightarrow> uses_well c tc ch r w0 (Inr w)"
  by (auto simp: uses_well_def)

lemma usable_used: "usable c tc ch \<Longrightarrow> used tc ch tc ch"
  using used_same [of tc ch] conn_parts_ready [of c tc ch] by (simp add: usable_def)

lemma used_usable:
  assumes "usable c tc ch" and u: "used tc ch tc' ch'"
  shows "usable c tc' ch'"
proof (cases "m_state tc = kDisconnected")
  case True
  then show ?thesis using assms(1) usedD(7) [OF u, of c] used_closed [OF u True] by (auto simp: usable_def)
next
  case False
  then show ?thesis using assms(1) usedD(7) [OF u, of c] usedD(8) [OF u False] by (simp add: usable_def)
qed

lemma uses_well_same: "usable c tc ch \<Longrightarrow> eff c w0 w tc ch r \<Longrightarrow> uses_well c tc ch r w0 (Inr w)"
  using uses_wellI usable_used by blast

lemma uses_well_bind:
  assumes x: "uses_well c tc ch r w0 x" and f: "\<And>w tc' ch'. eff c w0 w tc' ch' r \<Longrightarrow> used tc ch tc' ch' \<Longrightarrow> uses_well c tc' ch' r w0 (f w)"
  shows "uses_well c tc ch r w0 (rbind x f)"
proof -
  obtain w tc' ch' where x: "x = Inr w" "eff c w0 w tc' ch' r" "used tc ch tc' ch'" using x by (auto simp: uses_well_def)
  then obtain w2 tc2 ch2 where "f w = Inr w2" "eff c w0 w2 tc2 ch2 r" "used tc' ch' tc2 ch2"
    using f [OF x(2,3)] by (auto simp: uses_well_def)
  then show ?thesis using x used_trans [OF x(3)] by (auto simp: uses_well_def)
qed

section \<open>Sending\<close>

lemma lively_kept:
  assumes "lively tc ch" and "m_state tc' = m_state tc" and "out_bytes tc' = out_bytes tc" and "ch' = ch"
  shows "lively tc' ch'"
  using assms by (simp add: lively_def)

lemma empty_room: "Kfifo_ready q \<Longrightarrow> Kfifo_contents q = [] \<Longrightarrow> 0 < Kfifo_room q"
  by (auto simp: Kfifo_ready_def Kfifo_inv_def Kfifo_room_def is_power_of_two_def unat_gt_0)

text \<open>What is left is queued as far as there is room, and there is some unless output was queued already.\<close>

lemma send_rest_eff:
  assumes e: "eff c w0 w tc ch r" and p: "conn_parts c tc ch" and l: "lively tc ch" and k: "kernel_accepts ctl"
    and n: "0 < n" "n < 2 ^ 32" "length data = nwrote + n"
  shows "uses_well c tc ch r w0 (send_rest ctl RelockProceeds data nwrote n c w)"
proof -
  have q: "Kfifo_inv (m_outputBuffer tc)" "buffer (m_outputBuffer tc) \<noteq> None" "m_highWaterMarkCallback tc = None"
    using p by (auto simp: conn_parts_def Kfifo_ready_def)
  have z: "(of_nat n :: u32) \<noteq> 0" "unat (of_nat n :: u32) = n" using of_nat_u32_neq_0 unat_of_nat_u32 n by blast+
  obtain k' where k': "Kfifo_writeBuffer RelockProceeds (m_outputBuffer tc) (Some (drop nwrote data)) (of_nat n) =
      Inr (of_nat (min n (Kfifo_room (m_outputBuffer tc))), k')" "Kfifo_ready k'"
    "Kfifo_contents k' = out_bytes tc @ take (min n (Kfifo_room (m_outputBuffer tc))) (drop nwrote data)"
    "kread k' = 0"
    using Kfifo_writeBuffer_appends [OF q(1,2) z(1), of "drop nwrote data"] n(3) z(2) conn_parts_ready [OF p] by (auto simp: Kfifo_ready_def)
  have ne: "Kfifo_contents k' \<noteq> []"
    using k'(3) n empty_room [of "m_outputBuffer tc"] conn_parts_ready [OF p] by (cases "out_bytes tc = []") auto
  let ?tc = "tc\<lparr>m_outputBuffer := k'\<rparr>" and ?w = "Conn_put c (tc\<lparr>m_outputBuffer := k'\<rparr>) w"
  have w: "eff c w0 ?w ?tc ch r" using eff_put [OF e] by simp
  have r: "send_rest ctl RelockProceeds data nwrote n c w =
      (if \<not> Channel_isWriting ch then Channel_enableWriting ctl (m_channel tc) ?w else Inr ?w)"
    using effD(2,5) [OF e] effD(6) [OF w] k'(1) q
    by (simp add: send_rest_def readable_len_ok conn_set_out_def queue_highWater_def Let_def)
  have u: "used tc ch ?tc (ch\<lparr>m_events := ev\<rparr>)" if "ev AND kWriteEvent \<noteq> 0" "ev AND kReadEvent \<noteq> 0" for ev
  proof -
    have "lively (tc\<lparr>m_inputBuffer := m_inputBuffer tc, m_state := m_state tc, m_outputBuffer := k'\<rparr>) (ch\<lparr>m_events := ev\<rparr>)"
      using l ne that by (simp add: lively_def Channel_isReading_def Channel_isWriting_def)
    then show ?thesis using usedI [of "m_inputBuffer tc" k' tc "m_state tc" ev ch] k'(2,4) conn_parts_ready [OF p] l by (auto simp: lively_def)
  qed
  show ?thesis
  proof (cases "Channel_isWriting ch")
    case True
    then have "used tc ch ?tc ch" using u [of "m_events ch"] l by (simp add: lively_def Channel_isReading_def Channel_isWriting_def)
    then show ?thesis using True r uses_wellI [OF w] by simp
  next
    case False
    let ?ev = "m_events ch OR kWriteEvent"
    have "?ev AND kWriteEvent \<noteq> 0" "?ev AND kReadEvent \<noteq> 0"
      using event_bits(3,4) [of "m_events ch"] l by (simp_all add: lively_def Channel_isReading_def)
    moreover from this have "next_index ch ?ev = m_index ch" using l by (auto simp: next_index_def lively_def)
    moreover obtain w' where "Channel_enableWriting ctl (m_channel tc) ?w = Inr w'"
      "eff c w0 w' ?tc (ch\<lparr>m_events := ?ev, m_index := next_index ch ?ev\<rparr>) r"
      using eff_events [OF w k, of "\<lambda>e. e OR kWriteEvent"] by (auto simp: Channel_enableWriting_def)
    ultimately show ?thesis using False r uses_wellI u [of ?ev] by simp
  qed
qed

lemma sendInLoop_eff:
  assumes e: "eff c w0 w tc ch r" and p: "conn_parts c tc ch" and l: "lively tc ch" and k: "kernel_accepts ctl" and wr: "write_ok wr"
    and n: "length data < 2 ^ 32"
  shows "uses_well c tc ch r w0 (TcpConnection_sendInLoop ctl RelockProceeds wr data (length data) c w)"
proof -
  have ok: "conn_ok w c tc ch" using effD(1-3) [OF e] conn_parts_ready [OF p] by (simp add: conn_ok_def Kfifo_ready_def)
  have st: "m_state tc \<noteq> kDisconnected" using l by (auto simp: lively_def)
  have id: "uses_well c tc ch r w0 (Inr w)" using uses_well_same [OF _ e] p l by (simp add: usable_def)
  have rest: "uses_well c tc ch r w0 (send_rest ctl RelockProceeds data m (length data - m) c w)" if "m < length data" for m
    by (rule send_rest_eff [OF e p l k]) (use that n in simp_all)
  have wc: "queue_writeComplete c tc w = w" using p by (simp add: queue_writeComplete_def conn_parts_def)
  consider "out_bytes tc \<noteq> []" "data \<noteq> []" | "out_bytes tc \<noteq> []" "data = []" | "out_bytes tc = []" by blast
  then show ?thesis
  proof cases
    case 1
    then show ?thesis using sendInLoop_queued [OF ok st] rest [of 0] by simp
  next
    case 2
    then show ?thesis using id st l effD(5,6) [OF e] by (simp add: TcpConnection_sendInLoop_def lively_def)
  next
    case 3
    then have "\<not> Channel_isWriting ch" using l by (simp add: lively_def)
    moreover have "n \<le> length data" if "wr (m_fd ch) data = Inr n" for n using wr that by (auto simp: write_ok_def)
    ultimately show ?thesis using sendInLoop_direct [OF ok st _ 3, of ctl RelockProceeds wr data] id rest rest [of 0] wc
      by (auto simp: Let_def split: sum.split)
  qed
qed

section \<open>The actions\<close>

lemma eff_strings: "eff c w0 w tc ch r \<Longrightarrow> eff c w0 (w\<lparr>strings := ss\<rparr>) tc ch r"
  by (rule eff_same) (auto simp: effD(4))

lemma send_eff:
  assumes e: "eff c w0 w tc ch r" and a: "usable c tc ch" and k: "kernel_accepts ctl" and wr: "write_ok wr" and n: "length bs < 2 ^ 32"
  shows "uses_well c tc ch r w0 (act_run ctl RelockProceeds wr c (ASend bs) w)"
proof -
  let ?w = "w\<lparr>strings := (strings w)(0 \<mapsto> bs)\<rparr>"
  have e1: "eff c w0 ?w tc ch r" by (rule eff_strings [OF e])
  have "uses_well c tc ch r w0 (TcpConnection_send ctl RelockProceeds wr (m_threadId w) 0 c ?w)"
  proof (cases "m_state tc = kConnected")
    case True
    then have "lively tc ch" "conn_parts c tc ch" using a by (auto simp: usable_def)
    then show ?thesis using sendInLoop_eff [OF e1 _ _ k wr n] True effD(5) [OF e1]
      by (simp add: TcpConnection_send_def String_at_def EventLoop_isInLoopThread_def)
  next
    case False
    then show ?thesis using uses_well_same [OF a e1] effD(5) [OF e1] by (simp add: TcpConnection_send_def String_at_def)
  qed
  then show ?thesis unfolding act_run.simps(1)
    by (rule uses_well_bind) (use uses_well_same eff_strings used_usable [OF a] in blast)
qed

lemma shutdownInLoop_eff:
  assumes e: "eff c w0 w tc ch r" and a: "usable c tc ch"
  shows "uses_well c tc ch r w0 (TcpConnection_shutdownInLoop c w)"
proof -
  have s: "eff c w0 (Socket_shutdownWrite fd w) tc ch r" for fd
    by (rule eff_same [OF e]) (auto simp: effD(4) [OF e] Socket_shutdownWrite_def)
  then show ?thesis using uses_well_same [OF a s] uses_well_same [OF a e] effD(5,6) [OF e] by (simp add: TcpConnection_shutdownInLoop_def)
qed

lemma shutdown_eff:
  assumes e: "eff c w0 w tc ch r" and a: "usable c tc ch"
  shows "uses_well c tc ch r w0 (TcpConnection_shutdown (m_threadId w) c w)"
proof (cases "m_state tc = kConnected")
  case True
  then have l: "lively tc ch" and p: "conn_parts c tc ch" using a by (auto simp: usable_def)
  let ?tc = "tc\<lparr>m_state := kDisconnecting\<rparr>"
  obtain w1 where w1: "setState kDisconnecting c w = Inr w1" "eff c w0 w1 ?tc ch r" using eff_setState [OF e] by blast
  have l1: "lively (tc\<lparr>m_inputBuffer := m_inputBuffer tc, m_state := kDisconnecting, m_outputBuffer := m_outputBuffer tc\<rparr>)
      (ch\<lparr>m_events := m_events ch\<rparr>)" using l by (simp add: lively_def)
  have u: "used tc ch ?tc ch"
    using usedI [of "m_inputBuffer tc" "m_outputBuffer tc" tc kDisconnecting "m_events ch" ch, OF _ _ _ _ _ l1] True conn_parts_ready [OF p] by simp
  have t: "m_threadId w1 = m_threadId w" using effD(7) [OF w1(2)] effD(7) [OF e] by simp
  have "uses_well c tc ch r w0 (rbind (Inr w1) (TcpConnection_shutdownInLoop c))"
    by (rule uses_well_bind [OF uses_wellI [OF w1(2) u]]) (use shutdownInLoop_eff used_usable [OF a] in blast)
  then show ?thesis using True w1(1) t effD(5) [OF e] by (simp add: TcpConnection_shutdown_def EventLoop_isInLoopThread_def)
next
  case False
  then show ?thesis using uses_well_same [OF a e] effD(5) [OF e] by (simp add: TcpConnection_shutdown_def)
qed

lemma readBuffer_ready:
  assumes "Kfifo_ready k"
  shows "\<exists>x k'. Kfifo_readBuffer RelockProceeds k (Some (replicate (unat n) 0)) n = Inr (fst x, snd x, k') \<and> Kfifo_ready k'"
proof (cases "n = 0")
  case True
  have "Kfifo_unlock (k\<lparr>mutex := mutex k + 1\<rparr>) = k" by (simp add: Kfifo_unlock_def)
  then show ?thesis using assms True by (auto simp: Kfifo_readBuffer_def Kfifo_lock_def Kfifo_ready_def)
next
  case False
  then show ?thesis using Kfifo_readBuffer_removes [of k n "replicate (unat n) 0"] assms by (auto simp: Kfifo_ready_def)
qed

lemma retrieve_eff:
  assumes e: "eff c w0 w tc ch r" and a: "usable c tc ch"
  shows "uses_well c tc ch r w0 (act_run ctl RelockProceeds wr c (ARetrieve n) w)"
proof -
  have p: "conn_parts c tc ch" using a by (simp add: usable_def)
  obtain x k where k: "Kfifo_readBuffer RelockProceeds (m_inputBuffer tc) (Some (replicate (unat n) 0)) n = Inr (fst x, snd x, k)" "Kfifo_ready k"
    using readBuffer_ready conn_parts_ready [OF p] by blast
  let ?tc = "tc\<lparr>m_inputBuffer := k, m_state := m_state tc, m_outputBuffer := m_outputBuffer tc\<rparr>"
  have "m_state tc \<noteq> kDisconnected \<Longrightarrow> lively ?tc ch" using a by (auto simp: usable_def intro: lively_kept)
  then have "used tc ch ?tc (ch\<lparr>m_events := m_events ch\<rparr>)" using usedI [OF k(2), of "m_outputBuffer tc" tc "m_state tc" "m_events ch" ch] conn_parts_ready [OF p] by simp
  moreover have "eff c w0 (Conn_put c (tc\<lparr>m_inputBuffer := k\<rparr>) w) (tc\<lparr>m_inputBuffer := k\<rparr>) ch r" using eff_put [OF e] by simp
  ultimately show ?thesis using k(1) effD(5) [OF e] uses_wellI by simp
qed

definition short_acts :: "act list \<Rightarrow> bool" where
  "short_acts as \<longleftrightarrow> (\<forall>bs. ASend bs \<in> set as \<longrightarrow> length bs < 2 ^ 32)"

lemma acts_eff:
  assumes "eff c w0 w tc ch r" and "usable c tc ch" and "short_acts as" and k: "kernel_accepts ctl" and wr: "write_ok wr"
  shows "uses_well c tc ch r w0 (acts_run ctl RelockProceeds wr c as w)"
  using assms(1-3)
proof (induction as arbitrary: w tc ch)
  case Nil
  then show ?case using uses_well_same by simp
next
  case (Cons a as)
  have "uses_well c tc ch r w0 (act_run ctl RelockProceeds wr c a w)"
    using send_eff [OF Cons.prems(1,2) k wr] shutdown_eff [OF Cons.prems(1,2)] retrieve_eff [OF Cons.prems(1,2)] Cons.prems(3)
    by (cases a) (auto simp: short_acts_def)
  moreover have "short_acts as" using Cons.prems(3) by (simp add: short_acts_def)
  ultimately show ?case unfolding acts_run.simps(2)
    by (elim uses_well_bind) (use Cons.IH used_usable [OF Cons.prems(2)] in blast)
qed

lemma app_polite:
  assumes "kernel_accepts ctl" and "write_ok wr" and "\<And>u w. short_acts (prog u w)"
  shows "polite (app_user ctl RelockProceeds wr prog)"
  unfolding polite_def
proof (intro allI impI, elim conjE)
  fix u c tc ch and w :: sworld
  assume u: "call_conn u = c" and w: "ep_inv w" "conns w c = Some tc" "channels w (m_channel tc) = Some ch"
    and a: "conn_parts c tc ch" "m_state tc = kDisconnected \<or> lively tc ch"
  have "usable c tc ch" using a by (simp add: usable_def)
  from acts_eff [OF eff_start [OF w] this assms(3,1,2), of u w]
  show "\<exists>w' tc' ch'. app_user ctl RelockProceeds wr prog u w = Inr w' \<and> eff c w w' tc' ch' (refs w c) \<and> used tc ch tc' ch'"
    using u by (simp add: uses_well_def app_user_def)
qed

text \<open>The example server is such an application: its connection callback shuts a closed connection down, which
  changes nothing.\<close>

lemma chat_polite: "polite chat_user"
  unfolding polite_def
proof (intro allI impI, elim conjE)
  fix u c tc ch and w :: sworld
  assume u: "call_conn u = c" and w: "ep_inv w" "conns w c = Some tc" "channels w (m_channel tc) = Some ch"
    and a: "conn_parts c tc ch" "m_state tc = kDisconnected \<or> lively tc ch"
  have e: "eff c w w tc ch (refs w c)" and us: "usable c tc ch" using eff_start [OF w] a by (simp_all add: usable_def)
  have "uses_well c tc ch (refs w c) w (chat_user u w)"
    using shutdown_eff [OF e us] uses_well_same [OF us e] effD(5) [OF e] u
    by (cases u) (simp_all add: chat_user_def ChatServer_onConnection_def)
  then show "\<exists>w' tc' ch'. chat_user u w = Inr w' \<and> eff c w w' tc' ch' (refs w c) \<and> used tc ch tc' ch'"
    by (simp add: uses_well_def)
qed

section \<open>Property\<close>


text \<open>A server that greets everybody who connects, and hangs up.\<close>

definition greeter :: "ucall \<Rightarrow> sworld \<Rightarrow> act list" where
  "greeter u w = (case u of UConnection c True \<Rightarrow> [ASend [104, 105], AShutdown] | _ \<Rightarrow> [])"

definition greeting_env :: env where
  "greeting_env = ex_env\<lparr>e_mx := RelockProceeds\<rparr>"


end
