(* ===== verification/String_Piece.thy ===== *)
theory String_Piece
  imports Prelude "HOL-Library.Sublist"
begin

text \<open>
  \<^verbatim>\<open>StringPiece\<close> of \<^verbatim>\<open>src/mymuduo/StringPiece.h\<close>: a pointer and a signed length. A pointer is \<open>None\<close> (\<^verbatim>\<open>NULL\<close>) or a block of
  memory with an offset into it. The comparison operators compare unsigned bytes with \<^verbatim>\<open>memcmp\<close>; they
  are shown to be the lexicographic order on the contents.
\<close>

section \<open>Pieces\<close>

type_synonym ptr = "(byte list \<times> int) option"

record piece =
  sp_ptr :: ptr
  sp_length :: int

text \<open>\<^verbatim>\<open>static_cast<int>\<close> of a \<^verbatim>\<open>size_t\<close>.\<close>

definition int_of_size :: "nat \<Rightarrow> int" where
  "int_of_size n = sint (of_nat n :: u32)"

text \<open>\<open>mem_at p n\<close> reads \<open>n\<close> bytes at \<open>p\<close>; \<open>n\<close> is an \<^verbatim>\<open>int\<close> converted to \<^verbatim>\<open>size_t\<close>, so that a negative one is out of
  every block.\<close>

definition mem_at :: "ptr \<Rightarrow> int \<Rightarrow> byte list res" where
  "mem_at p n =
     (if n = 0 then Inr []
      else case p of None \<Rightarrow> Inl NullDeref
           | Some (b, off) \<Rightarrow> if 0 \<le> off \<and> 0 \<le> n then mem_read b (nat off) (nat n) else Inl OutOfBounds)"

definition ptr_add :: "ptr \<Rightarrow> int \<Rightarrow> ptr res" where
  "ptr_add p n =
     (case p of None \<Rightarrow> if n = 0 then Inr None else Inl NullDeref
      | Some (b, off) \<Rightarrow> if 0 \<le> off + n \<and> off + n \<le> int (length b) then Inr (Some (b, off + n)) else Inl OutOfBounds)"

definition c_strlen :: "ptr \<Rightarrow> nat res" where
  "c_strlen p =
     (case p of None \<Rightarrow> Inl NullDeref
      | Some (b, off) \<Rightarrow>
          rbind (check OutOfBounds (0 \<le> off \<and> 0 \<in> set (drop (nat off) b))) (\<lambda>_.
          Inr (length (takeWhile (\<lambda>x. x \<noteq> 0) (drop (nat off) b)))))"

text \<open>The sign of the first difference.\<close>

fun memcmp_bytes :: "byte list \<Rightarrow> byte list \<Rightarrow> int" where
  "memcmp_bytes (x # xs) (y # ys) = (if x = y then memcmp_bytes xs ys else if x < y then - 1 else 1)"
| "memcmp_bytes xs ys = 0"

definition memcmp :: "ptr \<Rightarrow> ptr \<Rightarrow> int \<Rightarrow> int res" where
  "memcmp p q n = rbind (mem_at p n) (\<lambda>xs. rbind (mem_at q n) (\<lambda>ys. Inr (memcmp_bytes xs ys)))"

definition StringPiece_new :: piece where
  "StringPiece_new = \<lparr>sp_ptr = None, sp_length = 0\<rparr>"

definition StringPiece_cstr :: "ptr \<Rightarrow> piece res" where
  "StringPiece_cstr str = rbind (c_strlen str) (\<lambda>n. Inr \<lparr>sp_ptr = str, sp_length = int_of_size n\<rparr>)"

text \<open>A \<^verbatim>\<open>std::string\<close>'s data are its characters and a terminator.\<close>

definition StringPiece_string :: "byte list \<Rightarrow> piece" where
  "StringPiece_string str = \<lparr>sp_ptr = Some (str @ [0], 0), sp_length = int_of_size (length str)\<rparr>"

definition StringPiece_range :: "ptr \<Rightarrow> int \<Rightarrow> piece" where
  "StringPiece_range offset len = \<lparr>sp_ptr = offset, sp_length = len\<rparr>"

definition StringPiece_data :: "piece \<Rightarrow> ptr" where "StringPiece_data p = sp_ptr p"
definition StringPiece_size :: "piece \<Rightarrow> int" where "StringPiece_size p = sp_length p"

definition StringPiece_empty :: "piece \<Rightarrow> bool" where
  "StringPiece_empty p \<longleftrightarrow> sp_length p = 0"

definition StringPiece_clear :: "piece \<Rightarrow> piece" where
  "StringPiece_clear p = p\<lparr>sp_ptr := None, sp_length := 0\<rparr>"

definition StringPiece_set :: "ptr \<Rightarrow> int \<Rightarrow> piece \<Rightarrow> piece" where
  "StringPiece_set buffer len p = p\<lparr>sp_ptr := buffer, sp_length := len\<rparr>"

definition StringPiece_set_cstr :: "ptr \<Rightarrow> piece \<Rightarrow> piece res" where
  "StringPiece_set_cstr str p = rbind (c_strlen str) (\<lambda>n. Inr (p\<lparr>sp_ptr := str, sp_length := int_of_size n\<rparr>))"

text \<open>The overload for \<^verbatim>\<open>const void*\<close>.\<close>

definition StringPiece_set_void :: "ptr \<Rightarrow> int \<Rightarrow> piece \<Rightarrow> piece" where
  "StringPiece_set_void buffer len p = p\<lparr>sp_ptr := buffer, sp_length := len\<rparr>"

definition StringPiece_nth :: "piece \<Rightarrow> int \<Rightarrow> byte res" where
  "StringPiece_nth p i = rbind (ptr_add (sp_ptr p) i) (\<lambda>q. rbind (mem_at q 1) (\<lambda>bs. Inr (hd bs)))"

definition StringPiece_remove_prefix :: "int \<Rightarrow> piece \<Rightarrow> piece res" where
  "StringPiece_remove_prefix n p =
     rbind (ptr_add (sp_ptr p) n) (\<lambda>q. rbind (to_int32 (sp_length p - n)) (\<lambda>l. Inr (p\<lparr>sp_ptr := q, sp_length := l\<rparr>)))"

definition StringPiece_remove_suffix :: "int \<Rightarrow> piece \<Rightarrow> piece res" where
  "StringPiece_remove_suffix n p = rbind (to_int32 (sp_length p - n)) (\<lambda>l. Inr (p\<lparr>sp_length := l\<rparr>))"

definition StringPiece_eq :: "piece \<Rightarrow> piece \<Rightarrow> bool res" where
  "StringPiece_eq p x =
     (if sp_length p = sp_length x then rbind (memcmp (sp_ptr p) (sp_ptr x) (sp_length p)) (\<lambda>r. Inr (r = 0)) else Inr False)"

definition StringPiece_neq :: "piece \<Rightarrow> piece \<Rightarrow> bool res" where
  "StringPiece_neq p x = rbind (StringPiece_eq p x) (\<lambda>b. Inr (\<not> b))"

text \<open>The macro \<^verbatim>\<open>STRINGPIECE_BINARY_PREDICATE(cmp, auxcmp)\<close> and its instances.\<close>

definition binary_predicate :: "(int \<Rightarrow> int \<Rightarrow> bool) \<Rightarrow> (int \<Rightarrow> int \<Rightarrow> bool) \<Rightarrow> piece \<Rightarrow> piece \<Rightarrow> bool res" where
  "binary_predicate cmp auxcmp p x =
     rbind (memcmp (sp_ptr p) (sp_ptr x) (if sp_length p < sp_length x then sp_length p else sp_length x)) (\<lambda>r.
     Inr (auxcmp r 0 \<or> r = 0 \<and> cmp (sp_length p) (sp_length x)))"

definition StringPiece_lt :: "piece \<Rightarrow> piece \<Rightarrow> bool res" where "StringPiece_lt = binary_predicate (<) (<)"
definition StringPiece_le :: "piece \<Rightarrow> piece \<Rightarrow> bool res" where "StringPiece_le = binary_predicate (\<le>) (<)"
definition StringPiece_ge :: "piece \<Rightarrow> piece \<Rightarrow> bool res" where "StringPiece_ge = binary_predicate (\<ge>) (>)"
definition StringPiece_gt :: "piece \<Rightarrow> piece \<Rightarrow> bool res" where "StringPiece_gt = binary_predicate (>) (>)"

definition StringPiece_compare :: "piece \<Rightarrow> piece \<Rightarrow> int res" where
  "StringPiece_compare p x =
     rbind (memcmp (sp_ptr p) (sp_ptr x) (if sp_length p < sp_length x then sp_length p else sp_length x)) (\<lambda>r.
     Inr (if r = 0 then if sp_length p < sp_length x then - 1 else if sp_length p > sp_length x then 1 else r else r))"

text \<open>A negative length is a \<^verbatim>\<open>size_t\<close> beyond every string's \<^verbatim>\<open>max_size\<close>.\<close>

definition StringPiece_as_string :: "piece \<Rightarrow> byte list res" where
  "StringPiece_as_string p = (if sp_length p < 0 then Inl LengthError else mem_at (sp_ptr p) (sp_length p))"

definition StringPiece_CopyToString :: "piece \<Rightarrow> byte list \<Rightarrow> byte list res" where
  "StringPiece_CopyToString p target = (if sp_length p < 0 then Inl LengthError else mem_at (sp_ptr p) (sp_length p))"

definition StringPiece_starts_with :: "piece \<Rightarrow> piece \<Rightarrow> bool res" where
  "StringPiece_starts_with p x =
     (if sp_length p \<ge> sp_length x then rbind (memcmp (sp_ptr p) (sp_ptr x) (sp_length x)) (\<lambda>r. Inr (r = 0)) else Inr False)"

section \<open>Contents\<close>

text \<open>A well-formed piece has a non-negative length and lies inside its block.\<close>

definition piece_ok :: "piece \<Rightarrow> bool" where
  "piece_ok p \<longleftrightarrow> 0 \<le> sp_length p \<and> sp_length p < 2 ^ 31 \<and>
     (case sp_ptr p of None \<Rightarrow> sp_length p = 0 | Some (b, off) \<Rightarrow> 0 \<le> off \<and> off + sp_length p \<le> int (length b))"

definition contents :: "piece \<Rightarrow> byte list" where
  "contents p = (case sp_ptr p of None \<Rightarrow> [] | Some (b, off) \<Rightarrow> take (nat (sp_length p)) (drop (nat off) b))"

lemma length_contents: "piece_ok p \<Longrightarrow> int (length (contents p)) = sp_length p"
  by (auto simp: piece_ok_def contents_def split: option.splits)

lemma mem_at_contents:
  assumes "piece_ok p" and "0 \<le> n" and "n \<le> sp_length p"
  shows "mem_at (sp_ptr p) n = Inr (take (nat n) (contents p))"
proof (cases "sp_ptr p")
  case None
  then show ?thesis using assms by (simp add: piece_ok_def mem_at_def)
next
  case (Some bo)
  then obtain b off where p: "sp_ptr p = Some (b, off)" "0 \<le> off" "off + sp_length p \<le> int (length b)"
    using assms by (cases bo) (auto simp: piece_ok_def)
  then have "nat off + nat n \<le> length b" using assms by simp
  then show ?thesis using p assms by (simp add: mem_at_def mem_read_def contents_def min_def)
qed

lemma as_string_contents: "piece_ok p \<Longrightarrow> StringPiece_as_string p = Inr (contents p)"
  using mem_at_contents [of p "sp_length p"] length_contents [of p]
  by (auto simp: StringPiece_as_string_def piece_ok_def)

lemma int_of_size_small: "n < 2 ^ 31 \<Longrightarrow> int_of_size n = int n"
  by (simp add: int_of_size_def signed_of_nat signed_take_bit_int_eq_self)

lemma string_ok: "length s < 2 ^ 31 \<Longrightarrow> piece_ok (StringPiece_string s)"
  by (simp add: piece_ok_def StringPiece_string_def int_of_size_small)

lemma string_contents: "length s < 2 ^ 31 \<Longrightarrow> contents (StringPiece_string s) = s"
  by (auto simp: contents_def StringPiece_string_def int_of_size_small)

text \<open>Dropping characters at either end.\<close>

lemma remove_prefix_contents:
  assumes "piece_ok p" and "0 \<le> n" and "n \<le> sp_length p"
  shows "\<exists>p'. StringPiece_remove_prefix n p = Inr p' \<and> piece_ok p' \<and> contents p' = drop (nat n) (contents p)"
proof (cases "sp_ptr p")
  case None
  then have "n = 0" "sp_length p = 0" using assms by (simp_all add: piece_ok_def)
  then have "StringPiece_remove_prefix n p = Inr p"
    using None by (cases p) (simp add: StringPiece_remove_prefix_def ptr_add_def to_int32_def int32_ok_def)
  then show ?thesis using assms \<open>n = 0\<close> by simp
next
  case (Some bo)
  then obtain b off where p: "sp_ptr p = Some (b, off)" "0 \<le> off" "off + sp_length p \<le> int (length b)"
    using assms by (cases bo) (auto simp: piece_ok_def)
  have "to_int32 (sp_length p - n) = Inr (sp_length p - n)" using assms by (simp add: to_int32_def int32_ok_def piece_ok_def)
  then have "StringPiece_remove_prefix n p = Inr (p\<lparr>sp_ptr := Some (b, off + n), sp_length := sp_length p - n\<rparr>)"
    using p assms by (simp add: StringPiece_remove_prefix_def ptr_add_def)
  moreover have "take (nat (sp_length p - n)) (drop (nat (off + n)) b) = drop (nat n) (take (nat (sp_length p)) (drop (nat off) b))"
    using p assms by (simp add: drop_take nat_diff_distrib nat_add_distrib add.commute)
  ultimately show ?thesis using p assms by (auto simp: piece_ok_def contents_def)
qed

lemma remove_suffix_contents:
  assumes "piece_ok p" and "0 \<le> n" and "n \<le> sp_length p"
  shows "\<exists>p'. StringPiece_remove_suffix n p = Inr p' \<and> piece_ok p' \<and>
    contents p' = take (length (contents p) - nat n) (contents p)"
proof -
  have "to_int32 (sp_length p - n) = Inr (sp_length p - n)" using assms by (simp add: to_int32_def int32_ok_def piece_ok_def)
  moreover have "piece_ok (p\<lparr>sp_length := sp_length p - n\<rparr>)" using assms by (auto simp: piece_ok_def split: option.splits)
  moreover have "length (contents p) - nat n = nat (sp_length p - n)" using length_contents [OF assms(1)] assms by simp
  ultimately show ?thesis using assms
    by (auto simp: StringPiece_remove_suffix_def contents_def min_def piece_ok_def split: option.splits)
qed

section \<open>Comparison\<close>

lemma memcmp_bytes_sign: "memcmp_bytes xs ys \<in> {- 1, 0, 1}"
  by (induction xs ys rule: memcmp_bytes.induct) auto

lemma memcmp_bytes_eq: "length xs = length ys \<Longrightarrow> memcmp_bytes xs ys = 0 \<longleftrightarrow> xs = ys"
  by (induction xs ys rule: memcmp_bytes.induct) auto

abbreviation common :: "byte list \<Rightarrow> byte list \<Rightarrow> nat" where
  "common xs ys \<equiv> min (length xs) (length ys)"

text \<open>The comparison of the common part and then of the lengths is the lexicographic order.\<close>

lemma lexordp_memcmp:
  "ord_class.lexordp xs ys \<longleftrightarrow> memcmp_bytes (take (common xs ys) xs) (take (common xs ys) ys) < 0 \<or>
    memcmp_bytes (take (common xs ys) xs) (take (common xs ys) ys) = 0 \<and> length xs < length ys"
  by (induction xs ys rule: memcmp_bytes.induct) auto

lemma memcmp_bytes_swap: "memcmp_bytes ys xs = - memcmp_bytes xs ys"
  by (induction xs ys rule: memcmp_bytes.induct) auto

lemma lexordp_memcmp_rev:
  "ord_class.lexordp ys xs \<longleftrightarrow> memcmp_bytes (take (common xs ys) xs) (take (common xs ys) ys) > 0 \<or>
    memcmp_bytes (take (common xs ys) xs) (take (common xs ys) ys) = 0 \<and> length ys < length xs"
  using lexordp_memcmp [of ys xs] memcmp_bytes_swap [of "take (common xs ys) ys" "take (common xs ys) xs"]
  by (simp add: min.commute)

lemma equal_memcmp:
  "xs = ys \<longleftrightarrow> memcmp_bytes (take (common xs ys) xs) (take (common xs ys) ys) = 0 \<and> length xs = length ys"
  using memcmp_bytes_eq [of xs ys] by auto

lemma memcmp_pieces:
  assumes "piece_ok x" and "piece_ok y"
  shows "memcmp (sp_ptr x) (sp_ptr y) (if sp_length x < sp_length y then sp_length x else sp_length y) =
    Inr (memcmp_bytes (take (common (contents x) (contents y)) (contents x)) (take (common (contents x) (contents y)) (contents y)))"
proof -
  let ?n = "if sp_length x < sp_length y then sp_length x else sp_length y"
  have "nat ?n = common (contents x) (contents y)" "0 \<le> ?n" "?n \<le> sp_length x" "?n \<le> sp_length y"
    using length_contents [OF assms(1)] length_contents [OF assms(2)] by (auto simp: min_def)
  then show ?thesis using mem_at_contents [OF assms(1), of ?n] mem_at_contents [OF assms(2), of ?n] by (simp add: memcmp_def)
qed

lemma starts_with_prefix:
  assumes x: "piece_ok x" and y: "piece_ok y"
  shows "StringPiece_starts_with x y = Inr (prefix (contents y) (contents x))"
proof (cases "sp_length y \<le> sp_length x")
  case True
  let ?n = "length (contents y)"
  note l = length_contents [OF x] length_contents [OF y]
  have n: "nat (sp_length y) = ?n" "0 \<le> sp_length y" using l(2) by simp_all
  have "memcmp (sp_ptr x) (sp_ptr y) (sp_length y) = Inr (memcmp_bytes (take ?n (contents x)) (contents y))"
    using mem_at_contents [OF x n(2) True] mem_at_contents [OF y n(2)] by (simp add: memcmp_def n(1))
  moreover have "memcmp_bytes (take ?n (contents x)) (contents y) = 0 \<longleftrightarrow> take ?n (contents x) = contents y"
    using True l by (intro memcmp_bytes_eq) simp
  moreover have "take ?n (contents x) = contents y \<longleftrightarrow> prefix (contents y) (contents x)"
    by (metis append_eq_conv_conj prefix_def take_is_prefix)
  ultimately show ?thesis using True by (simp add: StringPiece_starts_with_def)
next
  case False
  then have "\<not> prefix (contents y) (contents x)"
    using length_contents [OF x] length_contents [OF y] prefix_length_le by fastforce
  then show ?thesis using False by (simp add: StringPiece_starts_with_def)
qed

text \<open>C30: On well-formed pieces the comparison operators are the lexicographic order of the contents as
  unsigned bytes, \<^verbatim>\<open>compare\<close> has the sign of that order, and \<^verbatim>\<open>starts_with\<close> is the prefix relation; none
  of them reads outside the pieces.\<close>

theorem StringPiece_order:
  assumes x: "piece_ok x" and y: "piece_ok y"
  shows "StringPiece_eq x y = Inr (contents x = contents y) \<and> StringPiece_neq x y = Inr (contents x \<noteq> contents y) \<and>
    StringPiece_lt x y = Inr (ord_class.lexordp (contents x) (contents y)) \<and>
    StringPiece_le x y = Inr (contents x = contents y \<or> ord_class.lexordp (contents x) (contents y)) \<and>
    StringPiece_gt x y = Inr (ord_class.lexordp (contents y) (contents x)) \<and>
    StringPiece_ge x y = Inr (contents x = contents y \<or> ord_class.lexordp (contents y) (contents x)) \<and>
    StringPiece_compare x y = Inr (if contents x = contents y then 0 else if ord_class.lexordp (contents x) (contents y) then - 1 else 1) \<and>
    StringPiece_starts_with x y = Inr (prefix (contents y) (contents x))"
proof -
  define r where "r = memcmp_bytes (take (common (contents x) (contents y)) (contents x)) (take (common (contents x) (contents y)) (contents y))"
  note l = length_contents [OF x] length_contents [OF y]
  have len: "length (contents x) < length (contents y) \<longleftrightarrow> sp_length x < sp_length y"
    "length (contents y) < length (contents x) \<longleftrightarrow> sp_length y < sp_length x"
    "length (contents x) = length (contents y) \<longleftrightarrow> sp_length x = sp_length y" using l by linarith+
  have e: "contents x = contents y \<longleftrightarrow> r = 0 \<and> sp_length x = sp_length y"
    using equal_memcmp [of "contents x" "contents y"] unfolding r_def [symmetric] len .
  have lt: "ord_class.lexordp (contents x) (contents y) \<longleftrightarrow> r < 0 \<or> r = 0 \<and> sp_length x < sp_length y"
    using lexordp_memcmp [of "contents x" "contents y"] unfolding r_def [symmetric] len .
  have gt: "ord_class.lexordp (contents y) (contents x) \<longleftrightarrow> 0 < r \<or> r = 0 \<and> sp_length y < sp_length x"
    using lexordp_memcmp_rev [where xs = "contents x" and ys = "contents y"] unfolding r_def [symmetric] len .
  note m = memcmp_pieces [OF x y, folded r_def]
  have s: "r \<in> {- 1, 0, 1}" unfolding r_def by (rule memcmp_bytes_sign)
  have "StringPiece_eq x y = Inr (contents x = contents y)" unfolding e using m by (auto simp: StringPiece_eq_def)
  moreover have "StringPiece_lt x y = Inr (ord_class.lexordp (contents x) (contents y))"
    "StringPiece_le x y = Inr (contents x = contents y \<or> ord_class.lexordp (contents x) (contents y))"
    "StringPiece_gt x y = Inr (ord_class.lexordp (contents y) (contents x))"
    "StringPiece_ge x y = Inr (contents x = contents y \<or> ord_class.lexordp (contents y) (contents x))"
    unfolding StringPiece_lt_def StringPiece_le_def StringPiece_gt_def StringPiece_ge_def binary_predicate_def m rbind_Inr e lt gt
    by auto
  moreover have "StringPiece_compare x y =
      Inr (if contents x = contents y then 0 else if ord_class.lexordp (contents x) (contents y) then - 1 else 1)"
    unfolding StringPiece_compare_def m rbind_Inr e lt using s by auto
  moreover have "StringPiece_starts_with x y = Inr (prefix (contents y) (contents x))"
    using starts_with_prefix [OF x y] .
  ultimately show ?thesis by (simp add: StringPiece_neq_def)
qed

theorem StringPiece_order_witness:
  "StringPiece_lt (StringPiece_string [97, 98]) (StringPiece_string [97, 200]) = Inr True \<and>
   StringPiece_starts_with (StringPiece_string [97, 98]) (StringPiece_string [97]) = Inr True"
  using StringPiece_order [of "StringPiece_string [97, 98]" "StringPiece_string [97, 200]"]
    StringPiece_order [of "StringPiece_string [97, 98]" "StringPiece_string [97]"]
  by (simp add: string_ok string_contents)

end
