(* ===== verification/Log.thy ===== *)
theory Log
  imports Timestamp
begin

text \<open>
  \<^verbatim>\<open>Logger\<close> of \<^verbatim>\<open>src/mymuduo/Logger.h\<close> and \<^verbatim>\<open>Logger.cpp\<close>. There is one logger in the process. A logging macro first stores
  its level in the logger and then prints, so that it is two steps of its thread; several threads
  interleave them. \<^verbatim>\<open>LOG_FATAL\<close> then ends the process, whatever the other threads are doing. A step of \<open>log\<close> carries the time at which it runs.
\<close>

definition kINFO :: int where "kINFO = 0"
definition kERROR :: int where "kERROR = 1"
definition kDEBUG :: int where "kDEBUG = 2"
definition kFATAL :: int where "kFATAL = 3"

definition level_tag :: "int \<Rightarrow> string" where
  "level_tag level =
     (if level = kINFO then ''[INFO] '' else if level = kERROR then ''[ERROR] ''
      else if level = kDEBUG then ''[DEBUG] '' else if level = kFATAL then ''[FATAL] '' else '''')"

definition Logger_log :: "int \<Rightarrow> timestamp \<Rightarrow> string \<Rightarrow> string" where
  "Logger_log m_logLevel now msg = level_tag m_logLevel @ Timestamp_toString now @ msg"

datatype log_step = SetLogLevel int | Emit timestamp string | Exit int

fun run_log :: "log_step list \<Rightarrow> int \<Rightarrow> string list" where
  "run_log [] level = []"
| "run_log (SetLogLevel l # ss) level = run_log ss l"
| "run_log (Emit now msg # ss) level = Logger_log level now msg # run_log ss level"
| "run_log (Exit r # ss) level = []"

text \<open>One use of a macro: the formatted message is cut at 1023 characters.\<close>

definition LOG :: "int \<Rightarrow> timestamp \<Rightarrow> string \<Rightarrow> log_step list" where
  "LOG level now msg = [SetLogLevel level, Emit now (snprintf 1024 msg)]"

definition LOG_INFO :: "timestamp \<Rightarrow> string \<Rightarrow> log_step list" where
  "LOG_INFO now msg = LOG kINFO now msg"

definition LOG_ERROR :: "timestamp \<Rightarrow> string \<Rightarrow> log_step list" where
  "LOG_ERROR now msg = LOG kERROR now msg"

definition LOG_FATAL :: "timestamp \<Rightarrow> string \<Rightarrow> log_step list" where
  "LOG_FATAL now msg = LOG kFATAL now msg @ [Exit (- 1)]"

text \<open>\<open>mudebug\<close>: whether \<^verbatim>\<open>MUDEBUG\<close> was defined when the file was compiled.\<close>

definition LOG_DEBUG :: "bool \<Rightarrow> timestamp \<Rightarrow> string \<Rightarrow> log_step list" where
  "LOG_DEBUG mudebug now msg = (if mudebug then LOG kDEBUG now msg else [])"

lemma run_log_append_LOG: "run_log (LOG l now msg @ ss) level = Logger_log l now (snprintf 1024 msg) # run_log ss l"
  by (simp add: LOG_def)

lemma run_log_sequential:
  "run_log (concat (map (\<lambda>(l, now, msg). LOG l now msg) calls)) level =
    map (\<lambda>(l, now, msg). Logger_log l now (snprintf 1024 msg)) calls"
  by (induction calls arbitrary: level) (auto simp: run_log_append_LOG)

text \<open>What each macro prints when no other thread logs, and that nothing is printed after \<^verbatim>\<open>LOG_FATAL\<close>.\<close>

lemma run_log_macros:
  "run_log (LOG_INFO now msg @ ss) level = (''[INFO] '' @ Timestamp_toString now @ snprintf 1024 msg) # run_log ss kINFO"
  "run_log (LOG_ERROR now msg @ ss) level = (''[ERROR] '' @ Timestamp_toString now @ snprintf 1024 msg) # run_log ss kERROR"
  "run_log (LOG_FATAL now msg @ ss) level = [''[FATAL] '' @ Timestamp_toString now @ snprintf 1024 msg]"
  "run_log (LOG_DEBUG True now msg @ ss) level = (''[DEBUG] '' @ Timestamp_toString now @ snprintf 1024 msg) # run_log ss kDEBUG"
  "run_log (LOG_DEBUG False now msg @ ss) level = run_log ss level"
  by (simp_all add: LOG_INFO_def LOG_ERROR_def LOG_FATAL_def LOG_DEBUG_def LOG_def Logger_log_def level_tag_def
      kINFO_def kERROR_def kDEBUG_def kFATAL_def)

text \<open>Uses of the macros that do not overlap print one line each, in order, each with its own level. Two
  threads that log at the same time may print a message under the other thread's level: the level
  is shared and nothing keeps the two steps of a macro together.\<close>

lemma Logger_levels:
  "run_log (concat (map (\<lambda>(l, now, msg). LOG l now msg) calls)) level =
     map (\<lambda>(l, now, msg). Logger_log l now (snprintf 1024 msg)) calls \<and>
   (\<exists>ss \<in> shuffles (LOG l1 t1 m1) (LOG l2 t2 m2).
     run_log ss level = [Logger_log l2 t1 (snprintf 1024 m1), Logger_log l2 t2 (snprintf 1024 m2)])"
proof -
  have "[SetLogLevel l1, SetLogLevel l2, Emit t1 (snprintf 1024 m1), Emit t2 (snprintf 1024 m2)]
      \<in> shuffles (LOG l1 t1 m1) (LOG l2 t2 m2)"
    by (simp add: LOG_def Cons_in_shuffles_iff)
  then have "\<exists>ss \<in> shuffles (LOG l1 t1 m1) (LOG l2 t2 m2).
      run_log ss level = [Logger_log l2 t1 (snprintf 1024 m1), Logger_log l2 t2 (snprintf 1024 m2)]"
    by (rule rev_bexI) simp
  then show ?thesis using run_log_sequential by blast
qed

end
