(* ===== verification/Pingpong_Bench.thy ===== *)
theory Pingpong_Bench
  imports Timestamp
begin

text \<open>
  The token-ring benchmark \<^verbatim>\<open>src/tmuduo/orgin_muduo_test/pingpong_bench.cc\<close>. Its globals are a record; a socket pair
  is two descriptors of which a byte sent on one waits in the \<open>inbox\<close> of the other, at most \<open>cap\<close> of
  them. Sockets block, so that receiving from an empty inbox or sending to a full one never returns in
  this single thread. The event loop is the original muduo's, not this repository's: \<open>loop\<close> is a
  parameter, which gets the callbacks the program registered, and \<open>muduo_loop\<close> states what it does.
\<close>

section \<open>The program\<close>

record bench =
  numPipes :: int
  numActive :: int
  numWrites :: int
  g_pipes :: "int list"
  g_channels :: "int list"
  g_reads :: int
  g_writes :: int
  g_fired :: int
  registered :: "nat \<Rightarrow> (int \<times> int) option"
  quitting :: bool
  inbox :: "int \<Rightarrow> nat"
  peer :: "int \<Rightarrow> int"

text \<open>\<open>g_channels\<close> are the channels by their descriptors; \<open>registered i\<close> are the arguments bound in the read callback
  of channel \<open>i\<close>, once it is set and reading enabled.\<close>

definition vec_at :: "int list \<Rightarrow> int \<Rightarrow> int res" where
  "vec_at xs j = (if 0 \<le> j \<and> j < int (length xs) then Inr (xs ! nat j) else Inl OutOfBounds)"

definition sock_recv :: "int \<Rightarrow> bench \<Rightarrow> (int \<times> bench) res" where
  "sock_recv fd b =
     (if inbox b fd = 0 then Inl BlocksForever else Inr (1, b\<lparr>inbox := (inbox b)(fd := inbox b fd - 1)\<rparr>))"

definition sock_send :: "nat \<Rightarrow> int \<Rightarrow> bench \<Rightarrow> bench res" where
  "sock_send cap fd b =
     (let to = peer b fd in
      if cap \<le> inbox b to then Inl BlocksForever else Inr (b\<lparr>inbox := (inbox b)(to := Suc (inbox b to))\<rparr>))"

text \<open>The next index on the ring.\<close>

definition ring_next :: "int \<Rightarrow> int \<Rightarrow> int" where
  "ring_next n widx = (if widx \<ge> n then widx - n else widx)"

definition readCallback :: "nat \<Rightarrow> int \<Rightarrow> int \<Rightarrow> bench \<Rightarrow> bench res" where
  "readCallback cap fd idx b =
     rbind (sock_recv fd b) (\<lambda>(n, b).
     rbind (to_int32 (g_reads b + n)) (\<lambda>reads.
     let b = b\<lparr>g_reads := reads\<rparr> in
     rbind (if g_writes b > 0 then
              rbind (to_int32 (idx + 1)) (\<lambda>widx.
              let widx = ring_next (numPipes b) widx in
              rbind (to_int32 (2 * widx + 1)) (\<lambda>j.
              rbind (vec_at (g_pipes b) j) (\<lambda>wfd.
              rbind (sock_send cap wfd b) (\<lambda>b.
              rbind (to_int32 (g_fired b + 1)) (\<lambda>fired.
              Inr (b\<lparr>g_writes := g_writes b - 1, g_fired := fired\<rparr>))))))
            else Inr b) (\<lambda>b.
     Inr (if g_fired b = g_reads b then b\<lparr>quitting := True\<rparr> else b))))"

text \<open>The callback of channel \<open>i\<close>, as the loop calls it.\<close>

definition fire :: "nat \<Rightarrow> nat \<Rightarrow> bench \<Rightarrow> bench res" where
  "fire cap i b = (case registered b i of None \<Rightarrow> Inr b | Some (fd, idx) \<Rightarrow> readCallback cap fd idx b)"

fun register_all :: "nat list \<Rightarrow> bench \<Rightarrow> bench res" where
  "register_all [] b = Inr b"
| "register_all (i # is) b =
     rbind (vec_at (g_channels b) (int i)) (\<lambda>fd.
     register_all is (b\<lparr>registered := (registered b)(i \<mapsto> (fd, int i))\<rparr>))"

fun send_tokens :: "nat \<Rightarrow> int \<Rightarrow> nat list \<Rightarrow> bench \<Rightarrow> bench res" where
  "send_tokens cap space [] b = Inr b"
| "send_tokens cap space (i # is) b =
     rbind (to_int32 (int i * space + 1)) (\<lambda>j.
     rbind (vec_at (g_pipes b) j) (\<lambda>fd.
     rbind (sock_send cap fd b) (send_tokens cap space is)))"

definition int_of_int64 :: "int \<Rightarrow> int" where
  "int_of_int64 x = sint (of_int x :: u32)"

text \<open>\<open>clock\<close> are the three readings of \<^verbatim>\<open>Timestamp::now\<close>.\<close>

definition runOnce ::
    "((nat \<Rightarrow> bench \<Rightarrow> bench res) \<Rightarrow> bench \<Rightarrow> bench res) \<Rightarrow> nat \<Rightarrow> timestamp \<times> timestamp \<times> timestamp \<Rightarrow> bench \<Rightarrow>
      ((int \<times> int) \<times> bench) res" where
  "runOnce loop cap clock b =
     (case clock of (beforeInit, beforeLoop, end) \<Rightarrow>
     rbind (register_all [0 ..< nat (numPipes b)] b) (\<lambda>b.
     rbind (check DivByZero (numActive b \<noteq> 0)) (\<lambda>_.
     rbind (to_int32 (cdiv (numPipes b) (numActive b))) (\<lambda>space.
     rbind (to_int32 (space * 2)) (\<lambda>space.
     rbind (send_tokens cap space [0 ..< nat (numActive b)] b) (\<lambda>b.
     let b = b\<lparr>g_fired := numActive b, g_reads := 0, g_writes := numWrites b\<rparr> in
     rbind (loop (fire cap) b) (\<lambda>b.
     Inr ((int_of_int64 (end - beforeInit), int_of_int64 (end - beforeLoop)), b))))))))"

text \<open>
  \<^verbatim>\<open>main\<close>: \<open>opts\<close> are the options \<^verbatim>\<open>getopt\<close> returns with their values, \<open>socketpair i\<close> what the \<open>i\<close>-th call returns. The
  result is the exit code and the lines printed. The channels are deleted just before the end of
  the process.
\<close>

fun parse_opts :: "(char \<times> int) list \<Rightarrow> bench \<Rightarrow> bench option" where
  "parse_opts [] b = Some b"
| "parse_opts ((c, v) # opts) b =
     (if c = CHR ''n'' then parse_opts opts (b\<lparr>numPipes := v\<rparr>)
      else if c = CHR ''a'' then parse_opts opts (b\<lparr>numActive := v\<rparr>)
      else if c = CHR ''w'' then parse_opts opts (b\<lparr>numWrites := v\<rparr>)
      else None)"

text \<open>\<open>None\<close> is \<^verbatim>\<open>return 1\<close>.\<close>

fun make_pipes :: "(nat \<Rightarrow> (int \<times> int) option) \<Rightarrow> nat list \<Rightarrow> bench \<Rightarrow> bench option" where
  "make_pipes socketpair [] b = Some b"
| "make_pipes socketpair (i # is) b =
     (case socketpair i of None \<Rightarrow> None
      | Some (r, w) \<Rightarrow>
          make_pipes socketpair is
            (b\<lparr>g_pipes := (g_pipes b)[2 * i := r, 2 * i + 1 := w], peer := (peer b)(r := w, w := r)\<rparr>))"

fun run_times ::
    "((nat \<Rightarrow> bench \<Rightarrow> bench res) \<Rightarrow> bench \<Rightarrow> bench res) \<Rightarrow> nat \<Rightarrow> (timestamp \<times> timestamp \<times> timestamp) list \<Rightarrow> bench \<Rightarrow>
      ((int \<times> int) list \<times> bench) res" where
  "run_times loop cap [] b = Inr ([], b)"
| "run_times loop cap (clock # clocks) b =
     rbind (runOnce loop cap clock b) (\<lambda>(t, b).
     rbind (run_times loop cap clocks b) (\<lambda>(ts, b). Inr (t # ts, b)))"

definition bench_init :: bench where
  "bench_init = \<lparr>numPipes = 100, numActive = 1, numWrites = 100, g_pipes = [], g_channels = [],
     g_reads = 0, g_writes = 0, g_fired = 0, registered = (\<lambda>_. None), quitting = False, inbox = (\<lambda>_. 0), peer = (\<lambda>fd. fd)\<rparr>"

definition bench_main ::
    "((nat \<Rightarrow> bench \<Rightarrow> bench res) \<Rightarrow> bench \<Rightarrow> bench res) \<Rightarrow> nat \<Rightarrow> (nat \<Rightarrow> (int \<times> int) option) \<Rightarrow>
      (nat \<Rightarrow> timestamp \<times> timestamp \<times> timestamp) \<Rightarrow> (char \<times> int) list \<Rightarrow> (int \<times> (int \<times> int) list) res" where
  "bench_main loop cap socketpair clock opts =
     (case parse_opts opts bench_init of None \<Rightarrow> Inr (1, [])
      | Some b \<Rightarrow>
          rbind (to_int32 (numPipes b * 2)) (\<lambda>n.
          rbind (to_int32 (n + 50)) (\<lambda>_.
          rbind (check LengthError (0 \<le> n)) (\<lambda>_.
          (case make_pipes socketpair [0 ..< nat (numPipes b)] (b\<lparr>g_pipes := replicate (nat n) 0\<rparr>) of
             None \<Rightarrow> Inr (1, [])
           | Some b \<Rightarrow>
               let b = b\<lparr>g_channels := map (\<lambda>i. g_pipes b ! (2 * i)) [0 ..< nat (numPipes b)]\<rparr> in
               rbind (run_times loop cap (map clock [0 ..< 25]) b) (\<lambda>(ts, b). Inr (0, ts)))))))"

section \<open>What the event loop does\<close>

text \<open>
  \<open>loop\<close> clears its flag and then works in rounds until \<^verbatim>\<open>quit\<close> is called: each round waits for
  registered channels with something to read and calls their callbacks. Which of several ready
  channels a round reports, and in which order, is not specified. \<open>rounds n k\<close> runs at most \<open>n\<close> rounds,
  the first of them the \<open>k\<close>-th.
\<close>

definition ready :: "bench \<Rightarrow> nat \<Rightarrow> bool" where
  "ready b i \<longleftrightarrow> i < length (g_channels b) \<and> (case registered b i of None \<Rightarrow> False | Some (fd, _) \<Rightarrow> 0 < inbox b fd)"

definition poll_ok :: "(nat \<Rightarrow> bench \<Rightarrow> nat list) \<Rightarrow> bool" where
  "poll_ok poll \<longleftrightarrow> (\<forall>k b. distinct (poll k b) \<and> (\<forall>i \<in> set (poll k b). ready b i) \<and> ((\<exists>i. ready b i) \<longrightarrow> poll k b \<noteq> []))"

fun fire_all :: "(nat \<Rightarrow> bench \<Rightarrow> bench res) \<Rightarrow> nat list \<Rightarrow> bench \<Rightarrow> bench res" where
  "fire_all cb [] b = Inr b"
| "fire_all cb (i # is) b = rbind (cb i b) (fire_all cb is)"

fun rounds :: "nat \<Rightarrow> nat \<Rightarrow> (nat \<Rightarrow> bench \<Rightarrow> nat list) \<Rightarrow> (nat \<Rightarrow> bench \<Rightarrow> bench res) \<Rightarrow> bench \<Rightarrow> bench res option" where
  "rounds n k poll cb b =
     (if quitting b then Some (Inr b)
      else case n of 0 \<Rightarrow> None
      | Suc m \<Rightarrow> (case fire_all cb (poll k b) b of Inl e \<Rightarrow> Some (Inl e) | Inr b \<Rightarrow> rounds m (Suc k) poll cb b))"

declare rounds.simps [simp del]

definition muduo_loop :: "((nat \<Rightarrow> bench \<Rightarrow> bench res) \<Rightarrow> bench \<Rightarrow> bench res) \<Rightarrow> bool" where
  "muduo_loop loop \<longleftrightarrow>
     (\<forall>cb b. \<exists>poll. poll_ok poll \<and> (\<forall>n r. rounds n 0 poll cb (b\<lparr>quitting := False\<rparr>) = Some r \<longrightarrow> loop cb b = r))"

section \<open>Tokens\<close>

text \<open>
  The pipes are set up: the descriptors are distinct, channel \<open>i\<close> reads the first end of pair \<open>i\<close>, whose
  other end is the second.
\<close>

definition rd :: "bench \<Rightarrow> nat \<Rightarrow> int" where "rd b i = g_pipes b ! (2 * i)"
definition np :: "bench \<Rightarrow> nat" where "np b = nat (numPipes b)"

definition wired :: "bench \<Rightarrow> bool" where
  "wired b \<longleftrightarrow> 0 < numPipes b \<and> numPipes b < 2 ^ 30 \<and> length (g_pipes b) = 2 * np b \<and> length (g_channels b) = np b \<and>
     distinct (map (rd b) [0 ..< np b]) \<and>
     (\<forall>i < np b. g_channels b ! i = rd b i \<and> peer b (g_pipes b ! (2 * i + 1)) = rd b i)"

definition waiting :: "bench \<Rightarrow> nat" where
  "waiting b = (\<Sum>i < np b. inbox b (rd b i))"

text \<open>What stays the same while the program runs.\<close>

definition same_wires :: "bench \<Rightarrow> bench \<Rightarrow> bool" where
  "same_wires b b' \<longleftrightarrow> numPipes b' = numPipes b \<and> numActive b' = numActive b \<and> numWrites b' = numWrites b \<and>
     g_pipes b' = g_pipes b \<and> g_channels b' = g_channels b \<and> peer b' = peer b"

lemma same_wires_sel:
  assumes "same_wires b b'"
  shows "np b' = np b" "rd b' i = rd b i" "wired b' \<longleftrightarrow> wired b"
  using assms by (simp_all add: same_wires_def np_def rd_def wired_def cong: map_cong)

lemma same_wires_trans: "same_wires a b \<Longrightarrow> same_wires b c \<Longrightarrow> same_wires a c"
  by (simp add: same_wires_def)

lemma wired_rd_inj: "wired b \<Longrightarrow> i < np b \<Longrightarrow> j < np b \<Longrightarrow> rd b i = rd b j \<Longrightarrow> i = j"
  by (auto simp: wired_def distinct_conv_nth)

lemma sum_inbox:
  assumes "wired b" and "i < np b"
  shows "(\<Sum>j < np b. ((inbox b)(rd b i := x)) (rd b j)) + inbox b (rd b i) = waiting b + x"
proof -
  have "(\<Sum>j < np b. ((inbox b)(rd b i := x)) (rd b j)) = (\<Sum>j < np b. if j = i then x else inbox b (rd b j))"
    by (rule sum.cong) (use assms wired_rd_inj in auto)
  also have "\<dots> = x + (\<Sum>j \<in> {..<np b} - {i}. inbox b (rd b j))"
    using assms(2) by (subst sum.remove [of _ i]) (auto intro!: sum.cong)
  finally show ?thesis using assms(2) by (simp add: waiting_def sum.remove [of "{..<np b}" i])
qed

lemma inbox_le_waiting: "i < np b \<Longrightarrow> inbox b (rd b i) \<le> waiting b"
  by (auto simp: waiting_def intro: member_le_sum)

text \<open>The bytes waiting when the inboxes are \<open>ib\<close>.\<close>

lemma waiting_inbox: "waiting (b\<lparr>inbox := ib\<rparr>) = (\<Sum>j < np b. ib (rd b j))"
  by (simp add: waiting_def np_def rd_def)

lemma recv_ok:
  assumes "wired b" and "i < np b" and "0 < inbox b (rd b i)"
  shows "\<exists>ib. sock_recv (rd b i) b = Inr (1, b\<lparr>inbox := ib\<rparr>) \<and> Suc (waiting (b\<lparr>inbox := ib\<rparr>)) = waiting b \<and>
    (\<forall>j < np b. j \<noteq> i \<longrightarrow> ib (rd b j) = inbox b (rd b j))"
proof -
  let ?ib = "(inbox b)(rd b i := inbox b (rd b i) - 1)"
  have "Suc (waiting (b\<lparr>inbox := ?ib\<rparr>)) = waiting b"
    using sum_inbox [OF assms(1,2), of "inbox b (rd b i) - 1"] assms(3) by (simp add: waiting_inbox)
  moreover have "sock_recv (rd b i) b = Inr (1, b\<lparr>inbox := ?ib\<rparr>)" using assms(3) by (simp add: sock_recv_def)
  ultimately show ?thesis using wired_rd_inj [OF assms(1,2)] by (intro exI [of _ ?ib]) (auto dest: sym)
qed

lemma send_ok:
  assumes "wired b" and "i < np b" and "waiting b < cap"
  shows "\<exists>ib. sock_send cap (g_pipes b ! (2 * i + 1)) b = Inr (b\<lparr>inbox := ib\<rparr>) \<and> waiting (b\<lparr>inbox := ib\<rparr>) = Suc (waiting b) \<and>
    (\<forall>fd. inbox b fd \<le> ib fd)"
proof -
  let ?ib = "(inbox b)(rd b i := Suc (inbox b (rd b i)))"
  have "waiting (b\<lparr>inbox := ?ib\<rparr>) = Suc (waiting b)"
    using sum_inbox [OF assms(1,2), of "Suc (inbox b (rd b i))"] by (simp add: waiting_inbox)
  moreover have "sock_send cap (g_pipes b ! (2 * i + 1)) b = Inr (b\<lparr>inbox := ?ib\<rparr>)"
    using assms inbox_le_waiting [of i b] by (simp add: sock_send_def wired_def Let_def)
  ultimately show ?thesis by (intro exI [of _ ?ib]) auto
qed

text \<open>
  While the loop runs: channel \<open>i\<close> is registered with its own index, the bytes that wait are those sent
  and not yet received, \<open>R\<close> receptions are to come, and the loop stops when the last byte is received.
\<close>

definition turning :: "nat \<Rightarrow> nat \<Rightarrow> bench \<Rightarrow> bool" where
  "turning cap R b \<longleftrightarrow> wired b \<and> (\<forall>i < np b. registered b i = Some (rd b i, int i)) \<and>
     int (waiting b) = g_fired b - g_reads b \<and> 0 \<le> g_reads b \<and> waiting b \<le> cap \<and>
     int R = int (waiting b) + max 0 (g_writes b) \<and> g_reads b + int R < 2 ^ 31 \<and> (quitting b \<longleftrightarrow> waiting b = 0) \<and> (waiting b = 0 \<longrightarrow> R = 0)"

lemma turningD:
  assumes "turning cap R b"
  shows "wired b" "i < np b \<Longrightarrow> registered b i = Some (rd b i, int i)" "int (waiting b) = g_fired b - g_reads b"
    "0 \<le> g_reads b" "waiting b \<le> cap" "int R = int (waiting b) + max 0 (g_writes b)" "g_reads b + int R < 2 ^ 31"
    "quitting b \<longleftrightarrow> waiting b = 0" "waiting b = 0 \<Longrightarrow> R = 0"
  using assms unfolding turning_def by blast+

lemma ready_turning: "turning cap R b \<Longrightarrow> ready b i \<longleftrightarrow> i < np b \<and> 0 < inbox b (rd b i)"
  using turningD(1) [of cap R b] turningD(2) [of cap R b i] by (auto simp: ready_def wired_def)

text \<open>The slot after \<open>i\<close>.\<close>

lemma next_pipe:
  assumes "wired b" and "i < np b"
  shows "\<exists>w < np b. ring_next (numPipes b) (int i + 1) = int w"
  using assms by (intro exI [of _ "if int i + 1 \<ge> numPipes b then 0 else Suc i"]) (auto simp: wired_def np_def ring_next_def)

text \<open>A callback receives one byte and forwards it while there are bytes to send.\<close>

definition passes :: "nat \<Rightarrow> nat \<Rightarrow> bench \<Rightarrow> bench \<Rightarrow> bool" where
  "passes cap i b b' \<longleftrightarrow> same_wires b b' \<and> registered b' = registered b \<and> g_reads b' = g_reads b + 1 \<and>
     (\<forall>j < np b. j \<noteq> i \<longrightarrow> inbox b (rd b j) \<le> inbox b' (rd b j))"

lemma wired_index: "wired b \<Longrightarrow> w < np b \<Longrightarrow> int32_ok (int w + 1) \<and> int32_ok (2 * int w + 1) \<and> vec_at (g_pipes b) (2 * int w + 1) = Inr (g_pipes b ! (2 * w + 1))"
  by (auto simp: wired_def np_def int32_ok_def vec_at_def nat_add_distrib nat_mult_distrib)

lemma readCallback_forwards:
  assumes t: "turning cap R b" and i: "i < np b" "0 < inbox b (rd b i)" and w: "0 < g_writes b"
  shows "\<exists>b'. readCallback cap (rd b i) (int i) b = Inr b' \<and> turning cap (R - 1) b' \<and> passes cap i b b'"
proof -
  note T = turningD [OF t]
  obtain ib where r: "sock_recv (rd b i) b = Inr (1, b\<lparr>inbox := ib\<rparr>)" "Suc (waiting (b\<lparr>inbox := ib\<rparr>)) = waiting b"
      "\<forall>j < np b. j \<noteq> i \<longrightarrow> ib (rd b j) = inbox b (rd b j)"
    using recv_ok [OF T(1) i] by blast
  define b2 where "b2 = b\<lparr>inbox := ib, g_reads := g_reads b + 1\<rparr>"
  have sw: "same_wires b b2" by (simp add: b2_def same_wires_def)
  note S = same_wires_sel [OF sw]
  have "waiting b2 = waiting (b\<lparr>inbox := ib\<rparr>)" by (simp add: b2_def waiting_def np_def rd_def)
  then have w2: "Suc (waiting b2) = waiting b" using r(2) by simp
  obtain v where v: "v < np b" "ring_next (numPipes b) (int i + 1) = int v"
    using next_pipe [OF T(1) i(1)] by blast
  obtain ib' where s: "sock_send cap (g_pipes b2 ! (2 * v + 1)) b2 = Inr (b2\<lparr>inbox := ib'\<rparr>)"
      "waiting (b2\<lparr>inbox := ib'\<rparr>) = Suc (waiting b2)" "\<forall>fd. inbox b2 fd \<le> ib' fd"
    using send_ok [of b2 v cap] S T(1,5) v(1) w2 by auto
  let ?b = "b2\<lparr>inbox := ib', g_writes := g_writes b - 1, g_fired := g_fired b + 1\<rparr>"
  have w': "waiting ?b = waiting b" using s(2) w2 by (simp add: waiting_def np_def rd_def)
  have W: "0 < waiting b" using w2 by simp
  have nq: "g_fired b + 1 \<noteq> g_reads b + 1" using T(3) W by simp
  have ok: "int32_ok (g_reads b + 1)" "int32_ok (g_fired b + 1)" "int32_ok (int i + 1)"
    using T(3,4,6,7) w W wired_index [OF T(1) i(1)] by (auto simp: int32_ok_def)
  have "readCallback cap (rd b i) (int i) b = Inr ?b"
    using r(1) ok s(1) w nq v(2) wired_index [OF T(1) v(1)] unfolding b2_def
    by (simp add: readCallback_def to_int32_def Let_def)
  moreover have sw': "same_wires b ?b" by (simp add: b2_def same_wires_def)
  moreover have "turning cap (R - 1) ?b"
    using T w w' nq W same_wires_sel [OF sw'] by (auto simp: turning_def b2_def)
  moreover have "passes cap i b ?b"
    using sw' s(3) r(3) by (auto simp: passes_def b2_def) (metis)
  ultimately show ?thesis by blast
qed

lemma readCallback_keeps:
  assumes t: "turning cap R b" and i: "i < np b" "0 < inbox b (rd b i)" and w: "\<not> 0 < g_writes b"
  shows "\<exists>b'. readCallback cap (rd b i) (int i) b = Inr b' \<and> turning cap (R - 1) b' \<and> passes cap i b b'"
proof -
  note T = turningD [OF t]
  obtain ib where r: "sock_recv (rd b i) b = Inr (1, b\<lparr>inbox := ib\<rparr>)" "Suc (waiting (b\<lparr>inbox := ib\<rparr>)) = waiting b"
      "\<forall>j < np b. j \<noteq> i \<longrightarrow> ib (rd b j) = inbox b (rd b j)"
    using recv_ok [OF T(1) i] by blast
  let ?b = "b\<lparr>inbox := ib, g_reads := g_reads b + 1, quitting := (g_fired b = g_reads b + 1)\<rparr>"
  have w': "Suc (waiting ?b) = waiting b" using r(2) by (simp add: waiting_def np_def rd_def)
  have "\<not> quitting b" using T(8) w' by simp
  moreover have "int32_ok (g_reads b + 1)" using T(3,4,6,7) w w' by (auto simp: int32_ok_def)
  ultimately have "readCallback cap (rd b i) (int i) b = Inr ?b"
    using r(1) w by (simp add: readCallback_def to_int32_def Let_def)
  moreover have sw: "same_wires b ?b" by (simp add: same_wires_def)
  moreover have "turning cap (R - 1) ?b"
    using T w w' same_wires_sel [OF sw] by (auto simp: turning_def)
  moreover have "passes cap i b ?b" using sw r(3) by (simp add: passes_def)
  ultimately show ?thesis by blast
qed

lemma fire_ok:
  assumes "turning cap R b" and "ready b i"
  shows "\<exists>b'. fire cap i b = Inr b' \<and> turning cap (R - 1) b' \<and> passes cap i b b' \<and> 0 < R"
proof -
  have i: "i < np b" "0 < inbox b (rd b i)" using assms ready_turning by blast+
  have "waiting b \<noteq> 0" using inbox_le_waiting [OF i(1)] i(2) by simp
  then have "0 < R" using turningD(6) [OF assms(1)] by linarith
  moreover have "fire cap i b = readCallback cap (rd b i) (int i) b" using turningD(2) [OF assms(1) i(1)] by (simp add: fire_def)
  ultimately show ?thesis
    using readCallback_forwards [OF assms(1) i] readCallback_keeps [OF assms(1) i] by (cases "0 < g_writes b") auto
qed

lemma fire_all_ok:
  assumes "turning cap R b" and "distinct is" and "\<forall>i \<in> set is. ready b i"
  shows "\<exists>b'. fire_all (fire cap) is b = Inr b' \<and> turning cap (R - length is) b' \<and> same_wires b b' \<and> length is \<le> R \<and>
    registered b' = registered b \<and> g_reads b' = g_reads b + int (length is)"
  using assms
proof (induction "is" arbitrary: b R)
  case (Cons i "is")
  obtain b1 where b1: "fire cap i b = Inr b1" "turning cap (R - 1) b1" "passes cap i b b1" "0 < R"
    using fire_ok [OF Cons.prems(1)] Cons.prems(3) by auto
  note S = same_wires_sel [of b b1]
  have "ready b1 j" if j: "j \<in> set is" for j
  proof -
    have "ready b j" "j \<noteq> i" using Cons.prems(2,3) j by auto
    then show ?thesis using b1(3) S ready_turning [OF b1(2)] ready_turning [OF Cons.prems(1)]
      by (fastforce simp: passes_def)
  qed
  with Cons.IH [OF b1(2)] Cons.prems(2) obtain b' where "fire_all (fire cap) is b1 = Inr b'" "turning cap (R - 1 - length is) b'"
      "same_wires b1 b'" "length is \<le> R - 1" "registered b' = registered b1" "g_reads b' = g_reads b1 + int (length is)"
    by auto
  then show ?case using b1 same_wires_trans [of b b1 b'] by (auto simp: passes_def)
qed (simp add: same_wires_def)

text \<open>As long as bytes wait some channel is ready, so a round receives at least one of them.\<close>

lemma some_ready:
  assumes "turning cap R b" and "\<not> quitting b"
  shows "\<exists>i. ready b i"
proof -
  have "waiting b \<noteq> 0" using turningD(8) [OF assms(1)] assms(2) by simp
  then obtain i where "i < np b" "inbox b (rd b i) \<noteq> 0" unfolding waiting_def by (metis lessThan_iff sum.neutral)
  then show ?thesis using ready_turning [OF assms(1)] by auto
qed

lemma rounds_end:
  assumes "poll_ok poll" and "turning cap R b" and "R \<le> n"
  shows "\<exists>b'. rounds n k poll (fire cap) b = Some (Inr b') \<and> turning cap 0 b' \<and> same_wires b b' \<and> g_reads b' = g_reads b + int R"
  using assms(2,3)
proof (induction n arbitrary: R b k)
  case 0
  then have "quitting b" using turningD(6,8) [OF 0(1)] by simp
  then show ?case using 0 by (simp add: rounds.simps same_wires_def)
next
  case (Suc n)
  show ?case
  proof (cases "quitting b")
    case True
    then have "R = 0" using turningD(8,9) [OF Suc.prems(1)] by simp
    then show ?thesis using True Suc.prems(1) by (simp add: rounds.simps same_wires_def)
  next
    case False
    then have p: "poll k b \<noteq> []" "distinct (poll k b)" "\<forall>i \<in> set (poll k b). ready b i"
      using assms(1) some_ready [OF Suc.prems(1)] unfolding poll_ok_def by blast+
    obtain b1 where b1: "fire_all (fire cap) (poll k b) b = Inr b1" "turning cap (R - length (poll k b)) b1" "same_wires b b1"
        "length (poll k b) \<le> R" "g_reads b1 = g_reads b + int (length (poll k b))"
      using fire_all_ok [OF Suc.prems(1) p(2,3)] by blast
    have "0 < length (poll k b)" using p(1) by simp
    then have "R - length (poll k b) \<le> n" using Suc.prems(2) by linarith
    from Suc.IH [OF b1(2) this, of "Suc k"] obtain b' where "rounds n (Suc k) poll (fire cap) b1 = Some (Inr b')" "turning cap 0 b'"
        "same_wires b1 b'" "g_reads b' = g_reads b1 + int (R - length (poll k b))" by blast
    then show ?thesis using False b1 same_wires_trans [OF b1(3)] by (subst rounds.simps) simp
  qed
qed

section \<open>One run\<close>

lemma register_all_ok:
  assumes "\<forall>i \<in> set is. i < length (g_channels b)"
  shows "register_all is b = Inr (b\<lparr>registered := (\<lambda>i. if i \<in> set is then Some (g_channels b ! i, int i) else registered b i)\<rparr>)"
  using assms
proof (induction "is" arbitrary: b)
  case (Cons i "is")
  have "vec_at (g_channels b) (int i) = Inr (g_channels b ! i)" using Cons.prems by (simp add: vec_at_def)
  with Cons show ?case by (auto intro!: arg_cong [where f = "\<lambda>f. b\<lparr>registered := f\<rparr>"])
qed simp

lemma send_tokens_ok:
  assumes "wired b" and "\<forall>i \<in> set is. int i * space = 2 * int (v i) \<and> v i < np b" and "waiting b + length is \<le> cap"
  shows "\<exists>ib. send_tokens cap space is b = Inr (b\<lparr>inbox := ib\<rparr>) \<and> waiting (b\<lparr>inbox := ib\<rparr>) = waiting b + length is"
  using assms
proof (induction "is" arbitrary: b)
  case Nil
  then show ?case by (intro exI [of _ "inbox b"]) simp
next
  case (Cons i "is")
  have v: "int i * space + 1 = 2 * int (v i) + 1" "v i < np b" using Cons.prems(2) by auto
  obtain ib where s: "sock_send cap (g_pipes b ! (2 * v i + 1)) b = Inr (b\<lparr>inbox := ib\<rparr>)" "waiting (b\<lparr>inbox := ib\<rparr>) = Suc (waiting b)"
    using send_ok [OF Cons.prems(1) v(2), of cap] Cons.prems(3) by auto
  have sw: "same_wires b (b\<lparr>inbox := ib\<rparr>)" by (simp add: same_wires_def)
  obtain ib' where "send_tokens cap space is (b\<lparr>inbox := ib\<rparr>) = Inr (b\<lparr>inbox := ib'\<rparr>)"
      "waiting (b\<lparr>inbox := ib'\<rparr>) = Suc (waiting b) + length is"
    using Cons.IH [of "b\<lparr>inbox := ib\<rparr>"] Cons.prems same_wires_sel [OF sw] s(2) by auto
  then show ?case using s(1) v(1) wired_index [OF Cons.prems(1) v(2)] by (auto simp: to_int32_def)
qed

text \<open>Between runs no byte is on its way.\<close>

definition idle :: "nat \<Rightarrow> bench \<Rightarrow> bool" where
  "idle cap b \<longleftrightarrow> wired b \<and> waiting b = 0 \<and> 0 < numActive b \<and> numActive b \<le> int cap \<and> numActive b + max 0 (numWrites b) < 2 ^ 31"

lemma token_slots:
  assumes "wired b" and "0 < numActive b" and "i < nat (numActive b)"
  shows "int i * (numPipes b div numActive b * 2) = 2 * int (i * nat (numPipes b div numActive b)) \<and> i * nat (numPipes b div numActive b) < np b"
proof -
  have q: "0 \<le> numPipes b div numActive b" using assms by (simp add: wired_def pos_imp_zdiv_nonneg_iff)
  have "int i * (numPipes b div numActive b) < numPipes b"
  proof (cases "numPipes b div numActive b = 0")
    case False
    then have "int i * (numPipes b div numActive b) < numActive b * (numPipes b div numActive b)" using q assms(3) by simp
    also have "\<dots> \<le> numPipes b" using mult_div_mod_eq [of "numActive b" "numPipes b"] pos_mod_sign [OF assms(2), of "numPipes b"] by linarith
    finally show ?thesis .
  qed (use assms(1) in \<open>simp add: wired_def\<close>)
  then have "int (i * nat (numPipes b div numActive b)) < numPipes b" using q by simp
  then have "i * nat (numPipes b div numActive b) < np b" unfolding np_def by linarith
  then show ?thesis using q by simp
qed

text \<open>The start: every channel registered, one byte for each active pipe on its way.\<close>

lemma tokens_out:
  assumes i: "idle cap b"
  shows "\<exists>b1 ib. register_all [0 ..< nat (numPipes b)] b = Inr b1 \<and> same_wires b b1 \<and>
    send_tokens cap (numPipes b div numActive b * 2) [0 ..< nat (numActive b)] b1 = Inr (b1\<lparr>inbox := ib\<rparr>) \<and>
    turning cap (nat (numActive b + max 0 (numWrites b)))
      (b1\<lparr>inbox := ib, g_fired := numActive b, g_reads := 0, g_writes := numWrites b, quitting := False\<rparr>)"
proof -
  have W: "wired b" "waiting b = 0" "0 < numActive b" "numActive b \<le> int cap" "numActive b + max 0 (numWrites b) < 2 ^ 31"
    using i by (auto simp: idle_def)
  let ?reg = "\<lambda>i. if i \<in> set [0 ..< np b] then Some (g_channels b ! i, int i) else registered b i"
  let ?space = "numPipes b div numActive b"
  define b1 where "b1 = b\<lparr>registered := ?reg\<rparr>"
  have r: "register_all [0 ..< nat (numPipes b)] b = Inr b1"
    using register_all_ok [of "[0 ..< np b]" b] W(1) by (simp add: wired_def np_def b1_def)
  have s1: "same_wires b b1" by (simp add: b1_def same_wires_def)
  have w1: "waiting b1 = 0" using W(2) by (simp add: b1_def waiting_def np_def rd_def)
  have c: "nat (numActive b) \<le> cap" using W(4) by linarith
  obtain ib where st: "send_tokens cap (?space * 2) [0 ..< nat (numActive b)] b1 = Inr (b1\<lparr>inbox := ib\<rparr>)"
      "waiting (b1\<lparr>inbox := ib\<rparr>) = nat (numActive b)"
    using send_tokens_ok [of b1 "[0 ..< nat (numActive b)]" "?space * 2" "\<lambda>i. i * nat ?space" cap] same_wires_sel [OF s1] W(1) w1 c
      token_slots [OF W(1,3)] by auto
  let ?b2 = "b1\<lparr>inbox := ib, g_fired := numActive b, g_reads := 0, g_writes := numWrites b, quitting := False\<rparr>"
  have s2: "same_wires b ?b2" using s1 by (simp add: same_wires_def)
  have "waiting ?b2 = nat (numActive b)" using st(2) by (simp add: waiting_def np_def rd_def)
  moreover have "registered ?b2 i = Some (rd b i, int i)" if "i < np b" for i
    using that W(1) by (simp add: b1_def wired_def)
  ultimately have "turning cap (nat (numActive b + max 0 (numWrites b))) ?b2"
    using same_wires_sel [OF s2] W c by (simp add: turning_def)
  then show ?thesis using r s1 st(1) by blast
qed

lemma runOnce_ok:
  assumes "muduo_loop loop" and i: "idle cap b"
  shows "\<exists>b'. runOnce loop cap (t0, t1, t2) b = Inr ((int_of_int64 (t2 - t0), int_of_int64 (t2 - t1)), b') \<and>
    idle cap b' \<and> same_wires b b' \<and> g_reads b' = numActive b + max 0 (numWrites b) \<and> g_fired b' = g_reads b'"
proof -
  let ?space = "numPipes b div numActive b" and ?R = "nat (numActive b + max 0 (numWrites b))"
  have W: "wired b" "0 < numActive b" using i by (auto simp: idle_def)
  have p: "0 < numPipes b" "numPipes b < 2 ^ 30" using W(1) by (auto simp: wired_def)
  have "0 \<le> ?space" "?space \<le> numPipes b" using p W(2) int_div_less_self [of "numPipes b" "numActive b"]
    by (auto simp: pos_imp_zdiv_nonneg_iff) (cases "numActive b = 1"; simp)
  then have ok: "int32_ok ?space" "int32_ok (?space * 2)" using p by (auto simp: int32_ok_def)
  obtain b1 ib where b1: "register_all [0 ..< nat (numPipes b)] b = Inr b1" "same_wires b b1"
      "send_tokens cap (?space * 2) [0 ..< nat (numActive b)] b1 = Inr (b1\<lparr>inbox := ib\<rparr>)"
      "turning cap ?R (b1\<lparr>inbox := ib, g_fired := numActive b, g_reads := 0, g_writes := numWrites b, quitting := False\<rparr>)"
    using tokens_out [OF i] by blast
  define b2 where "b2 = b1\<lparr>inbox := ib, g_fired := numActive b, g_reads := 0, g_writes := numWrites b\<rparr>"
  have t: "turning cap ?R (b2\<lparr>quitting := False\<rparr>)" using b1(4) by (simp add: b2_def)
  obtain poll where poll: "poll_ok poll" "\<forall>n r. rounds n 0 poll (fire cap) (b2\<lparr>quitting := False\<rparr>) = Some r \<longrightarrow> loop (fire cap) b2 = r"
    using assms(1) unfolding muduo_loop_def by blast
  obtain b3 where b3: "loop (fire cap) b2 = Inr b3" "turning cap 0 b3" "same_wires b2 b3" "g_reads b3 = int ?R"
    using rounds_end [OF poll(1) t order_refl, of 0] poll(2) by (auto simp: b2_def same_wires_def)
  have s3: "same_wires b b3" using b1(2) b3(3) by (simp add: same_wires_def b2_def)
  have "numActive b1 = numActive b" "numPipes b1 = numPipes b" "numWrites b1 = numWrites b" using b1(2) by (simp_all add: same_wires_def)
  then have "runOnce loop cap (t0, t1, t2) b = Inr ((int_of_int64 (t2 - t0), int_of_int64 (t2 - t1)), b3)"
    using b1(1,3) b3(1) ok p W(2) by (simp add: runOnce_def to_int32_def b2_def Let_def)
  moreover have "idle cap b3" using turningD [OF b3(2)] i s3 by (simp add: idle_def same_wires_def)
  moreover have "g_fired b3 = g_reads b3" using turningD [OF b3(2)] by simp
  ultimately show ?thesis using s3 b3(4) W by auto
qed

section \<open>The whole program\<close>

lemma run_times_ok:
  assumes "muduo_loop loop" and "idle cap b"
  shows "\<exists>b'. run_times loop cap cs b = Inr (map (\<lambda>(t0, t1, t2). (int_of_int64 (t2 - t0), int_of_int64 (t2 - t1))) cs, b') \<and> idle cap b'"
  using assms(2)
proof (induction cs arbitrary: b)
  case (Cons c cs)
  obtain t0 t1 t2 where c: "c = (t0, t1, t2)" by (cases c)
  obtain b1 where "runOnce loop cap c b = Inr ((int_of_int64 (t2 - t0), int_of_int64 (t2 - t1)), b1)" "idle cap b1"
    using runOnce_ok [OF assms(1) Cons.prems] c by blast
  with Cons.IH [of b1] c show ?case by auto
qed simp

text \<open>\<^verbatim>\<open>socketpair\<close> returns descriptors that are not in use.\<close>

definition fresh_pairs :: "nat \<Rightarrow> (nat \<Rightarrow> int \<times> int) \<Rightarrow> bool" where
  "fresh_pairs n f \<longleftrightarrow> (\<forall>i < n. \<forall>j < n. fst (f i) \<noteq> snd (f j) \<and> (i \<noteq> j \<longrightarrow> fst (f i) \<noteq> fst (f j) \<and> snd (f i) \<noteq> snd (f j)))"

lemma parse_opts_inbox: "parse_opts opts b = Some b' \<Longrightarrow> inbox b' = inbox b"
  by (induction opts b rule: parse_opts.induct) (auto split: if_splits)

lemma make_pipes_append:
  "make_pipes sp (is @ js) b = (case make_pipes sp is b of None \<Rightarrow> None | Some b \<Rightarrow> make_pipes sp js b)"
  by (induction "is" arbitrary: b) (auto split: option.split)

lemma make_pipes_ok:
  assumes "fresh_pairs n f" and "\<forall>i < n. sp i = Some (f i)" and "length (g_pipes b) = 2 * m" and "n \<le> m"
  shows "\<exists>ps pr. make_pipes sp [0 ..< n] b = Some (b\<lparr>g_pipes := ps, peer := pr\<rparr>) \<and> length ps = 2 * m \<and>
    (\<forall>i < n. ps ! (2 * i) = fst (f i) \<and> ps ! (2 * i + 1) = snd (f i) \<and> pr (snd (f i)) = fst (f i))"
  using assms
proof (induction n)
  case 0
  then show ?case by (intro exI [of _ "g_pipes b"] exI [of _ "peer b"]) simp
next
  case (Suc n)
  have "fresh_pairs n f" using Suc.prems(1) by (simp add: fresh_pairs_def)
  with Suc obtain ps pr where I: "make_pipes sp [0 ..< n] b = Some (b\<lparr>g_pipes := ps, peer := pr\<rparr>)" "length ps = 2 * m"
    "\<forall>i < n. ps ! (2 * i) = fst (f i) \<and> ps ! (2 * i + 1) = snd (f i) \<and> pr (snd (f i)) = fst (f i)" by auto
  let ?ps = "ps[2 * n := fst (f n), 2 * n + 1 := snd (f n)]" and ?pr = "pr(fst (f n) := snd (f n), snd (f n) := fst (f n))"
  have "make_pipes sp [0 ..< Suc n] b = Some (b\<lparr>g_pipes := ?ps, peer := ?pr\<rparr>)"
    using I(1) Suc.prems(2) by (simp add: make_pipes_append split: prod.split)
  moreover have "?ps ! (2 * i) = fst (f i) \<and> ?ps ! (2 * i + 1) = snd (f i) \<and> ?pr (snd (f i)) = fst (f i)" if i: "i < Suc n" for i
  proof (cases "i = n")
    case False
    then have "snd (f i) \<noteq> snd (f n)" "fst (f n) \<noteq> snd (f i)" using Suc.prems(1) i unfolding fresh_pairs_def by auto
    moreover have "2 * i \<noteq> 2 * n + 1" "2 * i + 1 \<noteq> 2 * n" by presburger+
    ultimately show ?thesis using I(3) i False by (simp add: nth_list_update)
  qed (use I(2) Suc.prems(4) in simp)
  moreover have "length ?ps = 2 * m" using I(2) by simp
  ultimately show ?case by blast
qed

text \<open>An event loop that keeps its promises: it reports every ready channel.\<close>

definition ready_list :: "bench \<Rightarrow> nat list" where
  "ready_list b = filter (ready b) [0 ..< length (g_channels b)]"

partial_function (option) simple_rounds :: "(nat \<Rightarrow> bench \<Rightarrow> bench res) \<Rightarrow> bench \<Rightarrow> bench res option" where
  [code]: "simple_rounds cb b =
     (if quitting b then Some (Inr b)
      else case fire_all cb (ready_list b) b of Inl e \<Rightarrow> Some (Inl e) | Inr b \<Rightarrow> simple_rounds cb b)"

definition simple_loop :: "(nat \<Rightarrow> bench \<Rightarrow> bench res) \<Rightarrow> bench \<Rightarrow> bench res" where
  "simple_loop cb b = (case simple_rounds cb (b\<lparr>quitting := False\<rparr>) of None \<Rightarrow> Inl BlocksForever | Some r \<Rightarrow> r)"

lemma rounds_simple: "rounds n k (\<lambda>_. ready_list) cb b = Some r \<Longrightarrow> simple_rounds cb b = Some r"
proof (induction n arbitrary: k b)
  case 0
  then show ?case by (simp add: rounds.simps simple_rounds.simps split: if_splits)
next
  case (Suc n)
  then show ?case by (subst (asm) rounds.simps, subst simple_rounds.simps) (auto split: if_splits sum.splits)
qed

lemma muduo_loop_simple: "muduo_loop simple_loop"
proof -
  have "poll_ok (\<lambda>_. ready_list)"
    unfolding poll_ok_def by (auto simp: ready_list_def ready_def filter_empty_conv)
  then show ?thesis unfolding muduo_loop_def simple_loop_def
    using rounds_simple by (intro allI exI [of _ "\<lambda>_. ready_list"] conjI impI) auto
qed

section \<open>Properties\<close>

text \<open>C39: One run of the token-ring benchmark always ends, whatever order its event loop serves the ready pipes in: with
  at least one active pipe, and sockets that hold a byte for each, no call blocks and nothing
  overflows, exactly \<^verbatim>\<open>numActive\<close> bytes plus one for each of the \<^verbatim>\<open>numWrites\<close> forwards are received, as many
  as were sent, and none is left in a pipe, so that the next run can start.\<close>

theorem runOnce_completes:
  assumes "muduo_loop loop" and "idle cap b"
  shows "\<exists>b'. runOnce loop cap (t0, t1, t2) b = Inr ((int_of_int64 (t2 - t0), int_of_int64 (t2 - t1)), b') \<and>
    g_reads b' = numActive b + max 0 (numWrites b) \<and> g_fired b' = g_reads b' \<and> idle cap b'"
  using runOnce_ok [OF assms] by blast

definition ex_bench :: bench where
  "ex_bench = bench_init\<lparr>numPipes := 3, numActive := 2, numWrites := 5, g_pipes := [3, 4, 5, 6, 7, 8], g_channels := [3, 5, 7],
     peer := (\<lambda>fd. if fd \<in> {3, 5, 7} then fd + 1 else fd - 1)\<rparr>"

theorem runOnce_completes_witness:
  "\<exists>b'. runOnce simple_loop 4 (100, 200, 500) ex_bench = Inr ((400, 300), b') \<and> g_reads b' = 7 \<and> g_fired b' = 7"
proof -
  have l: "{..<3} = {0, 1, 2 :: nat}" by auto
  have "idle 4 ex_bench"
    by (simp add: idle_def wired_def ex_bench_def bench_init_def np_def rd_def waiting_def upt_rec l All_less_Suc eval_nat_numeral)
  from runOnce_completes [OF muduo_loop_simple this, of 100 200 500] show ?thesis
    by (auto simp: ex_bench_def bench_init_def int_of_int64_def)
qed

text \<open>With the default settings or any in range, when \<^verbatim>\<open>socketpair\<close> succeeds and gives new descriptors, the program
  finishes its 25 runs and exits with 0, having printed the two times of each run.\<close>

lemma bench_main_completes:
  assumes "muduo_loop loop" and o: "parse_opts opts bench_init = Some b" and p: "0 < numPipes b" "numPipes b < 2 ^ 30 - 25"
    and a: "0 < numActive b" "numActive b \<le> int cap" "numActive b + max 0 (numWrites b) < 2 ^ 31"
    and sp: "fresh_pairs (nat (numPipes b)) f" "\<forall>i < nat (numPipes b). sp i = Some (f i)"
  shows "bench_main loop cap sp clock opts =
    Inr (0, map (\<lambda>(t0, t1, t2). (int_of_int64 (t2 - t0), int_of_int64 (t2 - t1))) (map clock [0 ..< 25]))"
proof -
  let ?n = "nat (numPipes b)"
  obtain ps pr where m: "make_pipes sp [0 ..< ?n] (b\<lparr>g_pipes := replicate (2 * ?n) 0\<rparr>) = Some (b\<lparr>g_pipes := ps, peer := pr\<rparr>)"
      "length ps = 2 * ?n" "\<forall>i < ?n. ps ! (2 * i) = fst (f i) \<and> ps ! (2 * i + 1) = snd (f i) \<and> pr (snd (f i)) = fst (f i)"
    using make_pipes_ok [OF sp, of "b\<lparr>g_pipes := replicate (2 * ?n) 0\<rparr>" ?n] by auto
  let ?b = "b\<lparr>g_pipes := ps, peer := pr, g_channels := map (\<lambda>i. ps ! (2 * i)) [0 ..< ?n]\<rparr>"
  have "map (rd ?b) [0 ..< ?n] = map (fst \<circ> f) [0 ..< ?n]" using m(3) by (simp add: rd_def)
  moreover have "distinct (map (fst \<circ> f) [0 ..< ?n])" using sp(1) by (auto simp: distinct_conv_nth fresh_pairs_def)
  ultimately have "distinct (map (rd ?b) [0 ..< ?n])" by metis
  then have "wired ?b" using p m(2,3) by (simp add: wired_def np_def) (simp add: rd_def)
  moreover have "inbox b = (\<lambda>_. 0)" using parse_opts_inbox [OF o] by (simp add: bench_init_def)
  ultimately have "idle cap ?b" using a by (simp add: idle_def waiting_def)
  from run_times_ok [OF assms(1) this, of "map clock [0 ..< 25]"] show ?thesis
    using o p m(1) by (auto simp: bench_main_def to_int32_def int32_ok_def Let_def nat_mult_distrib mult.commute simp del: upt_rec)
qed

end
