(* ===== verification/Pingpong_Client.thy ===== *)
theory Pingpong_Client
  imports Decimal
begin

text \<open>
  The ping-pong client and server of \<^verbatim>\<open>src/tmuduo/orgin_muduo_test\<close> (\<^verbatim>\<open>pingpong_client.cc\<close>, \<^verbatim>\<open>pingpong_server.cc\<close>). They use the original
  muduo library, which is not part of the repository: the state records the calls they make to it,
  in order, and the library's callbacks are events. \<open>nextLoop i\<close> is what the thread pool's \<open>i\<close>-th
  \<^verbatim>\<open>getNextLoop\<close> returns. A quotient that is logged as a \<^verbatim>\<open>double\<close> is kept as its two integers.
\<close>

section \<open>The client\<close>

datatype api =
    RunAfter int
  | SetThreadNum int
  | PoolStart
  | Connect nat
  | Disconnect nat
  | SetTcpNoDelay nat bool
  | Send nat "byte list"
  | Quit
  | Warn string
  | WarnInt int string
  | WarnRatio int int string

type_synonym inet = "string \<times> u16"

record session =
  client_loop :: nat
  client_server :: inet
  client_name :: string
  bytesRead :: int
  bytesWritten :: int
  messagesRead :: int

record client =
  sessionCount :: int
  timeout :: int
  sessions :: "session list"
  message :: "byte list"
  numConnected :: u32
  calls :: "api list"

definition call :: "api \<Rightarrow> client \<Rightarrow> client" where
  "call a c = c\<lparr>calls := calls c @ [a]\<rparr>"

definition Session_new :: "nat \<Rightarrow> inet \<Rightarrow> string \<Rightarrow> session" where
  "Session_new loop serverAddr name = \<lparr>client_loop = loop, client_server = serverAddr, client_name = name, bytesRead = 0, bytesWritten = 0, messagesRead = 0\<rparr>"

definition Session_start :: "nat \<Rightarrow> client \<Rightarrow> client" where
  "Session_start i = call (Connect i)"

definition Session_stop :: "nat \<Rightarrow> client \<Rightarrow> client" where
  "Session_stop i = call (Disconnect i)"

definition Session_onMessage :: "nat \<Rightarrow> byte list \<Rightarrow> client \<Rightarrow> client res" where
  "Session_onMessage i buf c =
     (let s = sessions c ! i in
      rbind (to_int64 (messagesRead s + 1)) (\<lambda>m.
      rbind (to_int64 (bytesRead s + int (length buf))) (\<lambda>r.
      rbind (to_int64 (bytesWritten s + int (length buf))) (\<lambda>w.
      Inr (call (Send i buf) (c\<lparr>sessions := (sessions c)[i := s\<lparr>messagesRead := m, bytesRead := r, bytesWritten := w\<rparr>]\<rparr>))))))"

text \<open>\<^verbatim>\<open>"C%05d"\<close>.\<close>

definition session_name :: "nat \<Rightarrow> string" where
  "session_name i = snprintf 32 (CHR ''C'' # replicate (5 - length (dec_nat i)) (CHR ''0'') @ dec_nat i)"

fun start_sessions :: "(nat \<Rightarrow> nat) \<Rightarrow> inet \<Rightarrow> nat list \<Rightarrow> client \<Rightarrow> client" where
  "start_sessions nextLoop serverAddr [] c = c"
| "start_sessions nextLoop serverAddr (i # is) c =
     (let session = Session_new (nextLoop i) serverAddr (session_name i); c = Session_start i c in
      start_sessions nextLoop serverAddr is (c\<lparr>sessions := sessions c @ [session]\<rparr>))"

definition Client_new :: "(nat \<Rightarrow> nat) \<Rightarrow> inet \<Rightarrow> int \<Rightarrow> int \<Rightarrow> int \<Rightarrow> int \<Rightarrow> client" where
  "Client_new nextLoop serverAddr blockSize count time threadCount =
     (let c = \<lparr>sessionCount = count, timeout = time, sessions = [], message = [], numConnected = 0, calls = []\<rparr>;
          c = call (RunAfter time) c;
          c = (if threadCount > 1 then call (SetThreadNum threadCount) c else c);
          c = call PoolStart c;
          c = c\<lparr>message := map (\<lambda>i. of_nat (i mod 128)) [0 ..< nat blockSize]\<rparr> in
      start_sessions nextLoop serverAddr [0 ..< nat count] c)"

definition Client_onConnect :: "client \<Rightarrow> client" where
  "Client_onConnect c =
     (let c = c\<lparr>numConnected := numConnected c + 1\<rparr> in
      if sint (numConnected c) = sessionCount c then call (Warn ''all connected'') c else c)"

fun total_of :: "(session \<Rightarrow> int) \<Rightarrow> session list \<Rightarrow> int \<Rightarrow> int res" where
  "total_of f [] acc = Inr acc"
| "total_of f (s # ss) acc = rbind (to_int64 (acc + f s)) (total_of f ss)"

definition Client_onDisconnect :: "client \<Rightarrow> client res" where
  "Client_onDisconnect c =
     (let c = c\<lparr>numConnected := numConnected c - 1\<rparr> in
      if sint (numConnected c) = 0 then
        let c = call (Warn ''all disconnected'') c in
        rbind (total_of bytesRead (sessions c) 0) (\<lambda>totalBytesRead.
        rbind (total_of messagesRead (sessions c) 0) (\<lambda>totalMessagesRead.
        let c = call (WarnInt totalBytesRead '' total bytes read'') c;
            c = call (WarnInt totalMessagesRead '' total messages read'') c;
            c = call (WarnRatio totalBytesRead totalMessagesRead '' average message size'') c in
        rbind (to_int32 (timeout c * 1024)) (\<lambda>k.
        rbind (to_int32 (k * 1024)) (\<lambda>k.
        Inr (call Quit (call (WarnRatio totalBytesRead k '' MiB/s throughput'') c))))))
      else Inr c)"

definition Client_handleTimeout :: "client \<Rightarrow> client" where
  "Client_handleTimeout c = fold Session_stop [0 ..< length (sessions c)] (call (Warn ''stop'') c)"

definition Session_onConnection :: "nat \<Rightarrow> bool \<Rightarrow> client \<Rightarrow> client res" where
  "Session_onConnection i connected c =
     (if connected then Inr (Client_onConnect (call (Send i (message c)) (call (SetTcpNoDelay i True) c)))
      else Client_onDisconnect c)"

text \<open>\<^verbatim>\<open>main\<close>: \<open>None\<close> stands for the usage message.\<close>

definition client_main :: "(string \<Rightarrow> int) \<Rightarrow> (nat \<Rightarrow> nat) \<Rightarrow> string list \<Rightarrow> client option" where
  "client_main atoi nextLoop argv =
     (if length argv \<noteq> 7 then None
      else let ip = argv ! 1; port = of_int (atoi (argv ! 2)); threadCount = atoi (argv ! 3); blockSize = atoi (argv ! 4);
               sessionCount = atoi (argv ! 5); timeout = atoi (argv ! 6) in
           Some (Client_new nextLoop (ip, port) blockSize sessionCount timeout threadCount))"

text \<open>The callbacks the library makes once the client is constructed, in any order.\<close>

datatype client_event = EvUp nat | EvDown nat | EvMessage nat "byte list" | EvTimeout

fun client_step :: "client_event \<Rightarrow> client \<Rightarrow> client res" where
  "client_step (EvUp i) c = Session_onConnection i True c"
| "client_step (EvDown i) c = Session_onConnection i False c"
| "client_step (EvMessage i buf) c = Session_onMessage i buf c"
| "client_step EvTimeout c = Inr (Client_handleTimeout c)"

fun client_run :: "client_event list \<Rightarrow> client \<Rightarrow> client res" where
  "client_run [] c = Inr c"
| "client_run (e # es) c = rbind (client_step e c) (client_run es)"

section \<open>The server\<close>

definition server_onConnection :: "nat \<Rightarrow> api list" where
  "server_onConnection conn = [SetTcpNoDelay conn True]"

definition server_onMessage :: "nat \<Rightarrow> byte list \<Rightarrow> api list" where
  "server_onMessage conn buf = [Send conn buf]"

text \<open>The calls up to \<^verbatim>\<open>loop\<close>; \<open>None\<close> is the usage message.\<close>

datatype server_api = Listen inet | ServerThreadNum int | ServerStart

definition server_main :: "(string \<Rightarrow> int) \<Rightarrow> string list \<Rightarrow> server_api list option" where
  "server_main atoi argv =
     (if length argv < 4 then None
      else let ip = argv ! 1; port = of_int (atoi (argv ! 2)); threadCount = atoi (argv ! 3) in
           Some ([Listen (ip, port)] @ (if threadCount > 1 then [ServerThreadNum threadCount] else []) @ [ServerStart]))"

section \<open>What a run amounts to\<close>

text \<open>
  The sessions that are up after some events, and whether the events are ones the library can make
  for \<open>n\<close> sessions: a session goes up and down in turn and has messages only while it is up.
\<close>

fun up_after :: "client_event \<Rightarrow> nat set \<Rightarrow> nat set" where
  "up_after (EvUp i) U = insert i U"
| "up_after (EvDown i) U = U - {i}"
| "up_after _ U = U"

fun event_ok :: "nat \<Rightarrow> client_event \<Rightarrow> nat set \<Rightarrow> bool" where
  "event_ok n (EvUp i) U \<longleftrightarrow> i < n \<and> i \<notin> U"
| "event_ok n (EvDown i) U \<longleftrightarrow> i \<in> U"
| "event_ok n (EvMessage i buf) U \<longleftrightarrow> i \<in> U"
| "event_ok n EvTimeout U \<longleftrightarrow> True"

fun events_ok :: "nat \<Rightarrow> client_event list \<Rightarrow> nat set \<Rightarrow> bool" where
  "events_ok n [] U = True"
| "events_ok n (e # es) U = (event_ok n e U \<and> events_ok n es (up_after e U))"

text \<open>How often the last session goes down, and how often the \<open>n\<close>-th one comes up.\<close>

fun emptied :: "client_event list \<Rightarrow> nat set \<Rightarrow> nat" where
  "emptied [] U = 0"
| "emptied (e # es) U = (case e of EvDown _ \<Rightarrow> if up_after e U = {} then 1 else 0 | _ \<Rightarrow> 0) + emptied es (up_after e U)"

fun filled :: "nat \<Rightarrow> client_event list \<Rightarrow> nat set \<Rightarrow> nat" where
  "filled n [] U = 0"
| "filled n (e # es) U = (case e of EvUp _ \<Rightarrow> if card (up_after e U) = n then 1 else 0 | _ \<Rightarrow> 0) + filled n es (up_after e U)"

text \<open>The messages session \<open>i\<close> received, and what it has to send: the client's message whenever it comes
  up, every received message back.\<close>

fun heard :: "nat \<Rightarrow> client_event list \<Rightarrow> byte list list" where
  "heard i [] = []"
| "heard i (e # es) = (case e of EvMessage j buf \<Rightarrow> if j = i then [buf] else [] | _ \<Rightarrow> []) @ heard i es"

fun echoed :: "byte list \<Rightarrow> nat \<Rightarrow> client_event list \<Rightarrow> byte list list" where
  "echoed msg i [] = []"
| "echoed msg i (e # es) =
     (case e of EvUp j \<Rightarrow> if j = i then [msg] else [] | EvMessage j buf \<Rightarrow> if j = i then [buf] else [] | _ \<Rightarrow> []) @ echoed msg i es"

fun sent :: "nat \<Rightarrow> api list \<Rightarrow> byte list list" where
  "sent i [] = []"
| "sent i (a # as) = (case a of Send j buf \<Rightarrow> if j = i then [buf] else [] | _ \<Rightarrow> []) @ sent i as"

fun volume :: "client_event list \<Rightarrow> nat" where
  "volume [] = 0"
| "volume (e # es) = (case e of EvMessage _ buf \<Rightarrow> length buf | _ \<Rightarrow> 0) + volume es"

lemma sent_append: "sent i (as @ bs) = sent i as @ sent i bs"
  by (induction as) simp_all

section \<open>The counters\<close>

text \<open>The client with the sessions in \<open>U\<close> up; \<open>b\<close> and \<open>m\<close> are the bytes and messages it may still receive.\<close>

definition client_ok :: "nat \<Rightarrow> nat set \<Rightarrow> nat \<Rightarrow> nat \<Rightarrow> client \<Rightarrow> bool" where
  "client_ok n U b m c \<longleftrightarrow> sessionCount c = int n \<and> n < 2 ^ 31 \<and> length (sessions c) = n \<and> U \<subseteq> {..<n} \<and>
     numConnected c = of_nat (card U) \<and> - 2048 \<le> timeout c \<and> timeout c < 2048 \<and>
     (\<forall>s \<in> set (sessions c). 0 \<le> bytesRead s \<and> bytesWritten s = bytesRead s \<and> 0 \<le> messagesRead s) \<and>
     sum_list (map bytesRead (sessions c)) + int b < 2 ^ 63 \<and> sum_list (map messagesRead (sessions c)) + int m < 2 ^ 63"

lemma total_sum:
  assumes "\<forall>s \<in> set ss. 0 \<le> f s" and "0 \<le> acc" and "acc + sum_list (map f ss) < 2 ^ 63"
  shows "total_of f ss acc = Inr (acc + sum_list (map f ss))"
  using assms
proof (induction ss arbitrary: acc)
  case (Cons s ss)
  have "0 \<le> sum_list (map f ss)" using Cons.prems(1) by (intro sum_list_nonneg) auto
  then show ?case using Cons by (simp add: to_int64_def int64_ok_def add.assoc)
qed simp

lemma sint_count: "k < 2 ^ 31 \<Longrightarrow> sint (of_nat k :: u32) = int k"
  by (simp add: sint_uint unsigned_of_nat signed_take_bit_int_eq_self take_bit_nat_eq_self of_nat_take_bit flip: of_nat_take_bit)

lemma client_okD:
  assumes "client_ok n U b m c"
  shows "sessionCount c = int n" "n < 2 ^ 31" "length (sessions c) = n" "U \<subseteq> {..<n}" "finite U" "card U \<le> n"
    "numConnected c = of_nat (card U)" "- 2048 \<le> timeout c" "timeout c < 2048"
    "sum_list (map bytesRead (sessions c)) + int b < 2 ^ 63" "sum_list (map messagesRead (sessions c)) + int m < 2 ^ 63"
    "\<forall>s \<in> set (sessions c). 0 \<le> bytesRead s \<and> bytesWritten s = bytesRead s \<and> 0 \<le> messagesRead s"
  using assms finite_subset [of U "{..<n}"] card_mono [of "{..<n}" U] by (simp_all add: client_ok_def)

text \<open>What the events \<open>es\<close> add to the client's counters and to its calls.\<close>

definition accounts :: "nat \<Rightarrow> nat set \<Rightarrow> client_event list \<Rightarrow> client \<Rightarrow> client \<Rightarrow> bool" where
  "accounts n U es c c' \<longleftrightarrow> message c' = message c \<and>
     (\<exists>d. calls c' = calls c @ d \<and> (\<forall>i. sent i d = echoed (message c) i es) \<and> count_list d Quit = emptied es U \<and>
       count_list d (Warn ''all connected'') = filled n es U) \<and>
     (\<forall>i < n. bytesRead (sessions c' ! i) = bytesRead (sessions c ! i) + int (length (concat (heard i es))) \<and>
       messagesRead (sessions c' ! i) = messagesRead (sessions c ! i) + int (length (heard i es)))"

lemma onConnect_ok:
  assumes ok: "client_ok n U b m c" and "i < n" "i \<notin> U"
  shows "\<exists>c'. client_step (EvUp i) c = Inr c' \<and> client_ok n (insert i U) b m c' \<and> accounts n U [EvUp i] c c'"
proof -
  note C = client_okD [OF ok]
  have card: "card (insert i U) = Suc (card U)" using C(5) assms(3) by simp
  have "insert i U \<subseteq> {..<n}" using C(4) assms(2) by auto
  then have "card (insert i U) \<le> n" using card_mono [of "{..<n}"] by fastforce
  then have "sint (of_nat (card U) + 1 :: u32) = int (Suc (card U))"
    using sint_count [of "Suc (card U)"] C(2) card by (simp add: add.commute)
  then show ?thesis using ok card \<open>insert i U \<subseteq> {..<n}\<close> C(1,7)
    by (auto simp: Session_onConnection_def Client_onConnect_def call_def client_ok_def accounts_def Let_def)
qed

lemma onDisconnect_ok:
  assumes ok: "client_ok n U b m c" and "i \<in> U"
  shows "\<exists>c'. client_step (EvDown i) c = Inr c' \<and> client_ok n (U - {i}) b m c' \<and> accounts n U [EvDown i] c c'"
proof -
  note C = client_okD [OF ok]
  have pos: "0 < card U" using assms(2) C(5) card_gt_0_iff by blast
  have card: "card (U - {i}) = card U - 1" using C(5) assms(2) by simp
  have w: "(of_nat (card U) - 1 :: u32) = of_nat (card U - 1)" using pos by (simp add: of_nat_diff)
  have sz: "sint (of_nat (card U - 1) :: u32) = int (card U - 1)" using sint_count [of "card U - 1"] C(2,6) by simp
  have z: "card U - 1 = 0 \<longleftrightarrow> U - {i} = {}" using card C(5) by (metis card_eq_0_iff finite_Diff)
  have t: "int32_ok (timeout c * 1024)" "int32_ok (timeout c * 1024 * 1024)" using C(8,9) by (auto simp: int32_ok_def)
  have tot: "total_of bytesRead (sessions c) 0 = Inr (sum_list (map bytesRead (sessions c)))"
      "total_of messagesRead (sessions c) 0 = Inr (sum_list (map messagesRead (sessions c)))"
    using total_sum [of "sessions c" bytesRead 0] total_sum [of "sessions c" messagesRead 0] C(10,11,12) by auto
  have sub: "U - {i} \<subseteq> {..<n}" using C(4) by auto
  show ?thesis
  proof (cases "U - {i} = {}")
    case True
    then have "card U = 1" using z pos by simp
    then show ?thesis using True ok sub C(1,7) w sz t tot card
      by (auto simp: Session_onConnection_def Client_onDisconnect_def call_def client_ok_def accounts_def Let_def to_int32_def)
  next
    case False
    then have "card U - 1 \<noteq> 0" using z by simp
    then show ?thesis using False ok sub C(1,7) w sz card
      by (auto simp: Session_onConnection_def Client_onDisconnect_def call_def client_ok_def accounts_def Let_def)
  qed
qed

lemma sum_list_put: "i < length xs \<Longrightarrow> sum_list (xs[i := x]) = sum_list xs + x - xs ! i" for x :: int
  by (induction xs arbitrary: i) (auto split: nat.split)

lemma onMessage_ok:
  assumes ok: "client_ok n U (length buf + b) (Suc m) c" and "i \<in> U"
  shows "\<exists>c'. client_step (EvMessage i buf) c = Inr c' \<and> client_ok n U b m c' \<and> accounts n U [EvMessage i buf] c c'"
proof -
  note C = client_okD [OF ok]
  let ?s = "sessions c ! i"
  let ?t = "?s\<lparr>messagesRead := messagesRead ?s + 1, bytesRead := bytesRead ?s + int (length buf), bytesWritten := bytesWritten ?s + int (length buf)\<rparr>"
  have i: "i < length (sessions c)" using C(3,4) assms(2) by auto
  then have s: "?s \<in> set (sessions c)" by simp
  have nn: "0 \<le> bytesRead ?s" "bytesWritten ?s = bytesRead ?s" "0 \<le> messagesRead ?s" using C(12) s by auto
  have le: "bytesRead ?s \<le> sum_list (map bytesRead (sessions c))" "messagesRead ?s \<le> sum_list (map messagesRead (sessions c))"
    using C(12) s by (auto intro!: member_le_sum_list)
  have "sum_list (map f ((sessions c)[i := ?t])) = sum_list (map f (sessions c)) + f ?t - f ?s" for f :: "session \<Rightarrow> int"
    using i by (simp add: map_update sum_list_put)
  then have sums: "sum_list (map bytesRead ((sessions c)[i := ?t])) + int b < 2 ^ 63"
      "sum_list (map messagesRead ((sessions c)[i := ?t])) + int m < 2 ^ 63" using C(10,11) by simp_all
  have "int64_ok (messagesRead ?s + 1)" "int64_ok (bytesRead ?s + int (length buf))" using nn le C(10,11) by (auto simp: int64_ok_def)
  then have "client_step (EvMessage i buf) c = Inr (call (Send i buf) (c\<lparr>sessions := (sessions c)[i := ?t]\<rparr>))"
    using nn(2) by (simp add: Session_onMessage_def to_int64_def Let_def)
  moreover have "\<forall>s \<in> set ((sessions c)[i := ?t]). 0 \<le> bytesRead s \<and> bytesWritten s = bytesRead s \<and> 0 \<le> messagesRead s"
    using C(12) nn set_update_subset_insert [of "sessions c" i ?t] by fastforce
  ultimately show ?thesis using ok sums i C(3)
    by (auto simp: client_ok_def accounts_def call_def nth_list_update)
qed

lemma timeout_calls: "fold Session_stop is c = c\<lparr>calls := calls c @ map Disconnect is\<rparr>"
  by (induction "is" arbitrary: c) (simp_all add: Session_stop_def call_def)

lemma disconnect_silent: "sent i (map Disconnect is) = []" "count_list (map Disconnect is) Quit = 0" "count_list (map Disconnect is) (Warn w) = 0"
  by (induction "is") simp_all

lemma handleTimeout_ok:
  assumes "client_ok n U b m c"
  shows "\<exists>c'. client_step EvTimeout c = Inr c' \<and> client_ok n U b m c' \<and> accounts n U [EvTimeout] c c'"
  using assms by (auto simp: Client_handleTimeout_def timeout_calls call_def client_ok_def accounts_def disconnect_silent)

definition msgs :: "client_event list \<Rightarrow> nat" where
  "msgs es = length (filter (\<lambda>e. case e of EvMessage _ _ \<Rightarrow> True | _ \<Rightarrow> False) es)"

lemma client_step_ok:
  assumes "client_ok n U (volume (e # es)) (msgs (e # es)) c" and "event_ok n e U"
  shows "\<exists>c'. client_step e c = Inr c' \<and> client_ok n (up_after e U) (volume es) (msgs es) c' \<and> accounts n U [e] c c'"
  using assms onConnect_ok [of n U "volume es" "msgs es" c] onDisconnect_ok [of n U "volume es" "msgs es" c]
    onMessage_ok [of n U _ "volume es" "msgs es" c] handleTimeout_ok [of n U "volume es" "msgs es" c]
  by (cases e) (simp_all add: msgs_def)

lemma accounts_Cons:
  assumes "accounts n U [e] c c1" and "accounts n (up_after e U) es c1 c2"
  shows "accounts n U (e # es) c c2"
proof -
  obtain d1 where d1: "calls c1 = calls c @ d1" "\<forall>i. sent i d1 = echoed (message c) i [e]" "count_list d1 Quit = emptied [e] U"
      "count_list d1 (Warn ''all connected'') = filled n [e] U"
    using assms(1) unfolding accounts_def by blast
  obtain d2 where d2: "calls c2 = calls c1 @ d2" "\<forall>i. sent i d2 = echoed (message c1) i es" "count_list d2 Quit = emptied es (up_after e U)"
      "count_list d2 (Warn ''all connected'') = filled n es (up_after e U)"
    using assms(2) unfolding accounts_def by blast
  have "message c1 = message c" "message c2 = message c" using assms by (auto simp: accounts_def)
  moreover have "calls c2 = calls c @ (d1 @ d2)" using d1(1) d2(1) by simp
  ultimately show ?thesis using assms d1(2-4) d2(2-4)
    unfolding accounts_def by (auto simp: sent_append intro!: exI [of _ "d1 @ d2"])
qed

lemma client_run_ok:
  assumes "client_ok n U (volume es) (msgs es) c" and "events_ok n es U"
  shows "\<exists>c'. client_run es c = Inr c' \<and> client_ok n (fold up_after es U) 0 0 c' \<and> accounts n U es c c'"
  using assms
proof (induction es arbitrary: U c)
  case Nil
  then show ?case by (simp add: accounts_def msgs_def)
next
  case (Cons e es)
  obtain c1 where c1: "client_step e c = Inr c1" "client_ok n (up_after e U) (volume es) (msgs es) c1" "accounts n U [e] c c1"
    using client_step_ok [OF Cons.prems(1)] Cons.prems(2) by auto
  moreover obtain c' where "client_run es c1 = Inr c'" "client_ok n (fold up_after es (up_after e U)) 0 0 c'" "accounts n (up_after e U) es c1 c'"
    using Cons.IH [OF c1(2)] Cons.prems(2) by auto
  ultimately show ?case using accounts_Cons [of n U e c c1 es c'] by auto
qed

lemma start_sessions_eq:
  "start_sessions nl addr is c = c\<lparr>calls := calls c @ map Connect is, sessions := sessions c @ map (\<lambda>i. Session_new (nl i) addr (session_name i)) is\<rparr>"
  by (induction "is" arbitrary: c) (simp_all add: Session_start_def call_def Let_def)

lemma connect_silent: "sent i (map Connect is) = []" "count_list (map Connect is) Quit = 0" "count_list (map Connect is) (Warn w) = 0"
  by (induction "is") simp_all

lemma Client_new_ok:
  fixes nl addr bs time tc n
  defines "c \<equiv> Client_new nl addr bs (int n) time tc"
  assumes "n < 2 ^ 31" and "- 2048 \<le> time" "time < 2048" and "b < 2 ^ 63" and "m < 2 ^ 63"
  shows "client_ok n {} b m c" "sent i (calls c) = []" "count_list (calls c) Quit = 0" "count_list (calls c) (Warn w) = 0"
    "message c = map (\<lambda>i. of_nat (i mod 128)) [0 ..< nat bs]" "i < n \<Longrightarrow> bytesRead (sessions c ! i) = 0 \<and> messagesRead (sessions c ! i) = 0"
proof -
  have z: "sum_list (map (\<lambda>_. 0 :: int) xs) = 0" for xs :: "nat list" by (induction xs) simp_all
  show "client_ok n {} b m c" using assms(2-6)
    by (auto simp: c_def client_ok_def Client_new_def Let_def start_sessions_eq call_def Session_new_def comp_def z)
qed (auto simp: c_def Client_new_def Let_def start_sessions_eq call_def sent_append connect_silent Session_new_def)

section \<open>Properties\<close>

text \<open>C40: Whatever the order in which connections come up, go down and carry messages, the ping-pong client's accounts are
  right: the connection count is the number of sessions that are up, every session sends the start
  message when it comes up and every received message back, in order and nothing else, its byte and
  message counters are those of what it received, \<^verbatim>\<open>all connected\<close> is logged each time the last
  session comes up and the loop is told to quit each time the last one goes down. The time limit has to be below
  2048 seconds.\<close>

theorem client_accounts:
  assumes "n < 2 ^ 31" and "- 2048 \<le> time" "time < 2048" and "volume es < 2 ^ 63" and "msgs es < 2 ^ 63" and "events_ok n es {}"
  shows "\<exists>c. client_run es (Client_new nl addr bs (int n) time tc) = Inr c \<and>
    numConnected c = of_nat (card (fold up_after es {})) \<and>
    (\<forall>i. sent i (calls c) = echoed (map (\<lambda>i. of_nat (i mod 128)) [0 ..< nat bs]) i es) \<and>
    count_list (calls c) (Warn ''all connected'') = filled n es {} \<and> count_list (calls c) Quit = emptied es {} \<and>
    (\<forall>i < n. bytesRead (sessions c ! i) = int (length (concat (heard i es))) \<and> bytesWritten (sessions c ! i) = bytesRead (sessions c ! i) \<and>
      messagesRead (sessions c ! i) = int (length (heard i es)))"
proof -
  let ?c = "Client_new nl addr bs (int n) time tc"
  note N = Client_new_ok [OF assms(1-5), where nl = nl and addr = addr and bs = bs and tc = tc]
  obtain c where c: "client_run es ?c = Inr c" "client_ok n (fold up_after es {}) 0 0 c" "accounts n {} es ?c c"
    using client_run_ok [OF N(1) assms(6)] by blast
  obtain d where d: "calls c = calls ?c @ d" "\<forall>i. sent i d = echoed (message ?c) i es" "count_list d Quit = emptied es {}"
      "count_list d (Warn ''all connected'') = filled n es {}"
    using c(3) unfolding accounts_def by blast
  have "bytesRead (sessions c ! i) = int (length (concat (heard i es))) \<and> messagesRead (sessions c ! i) = int (length (heard i es)) \<and>
      bytesWritten (sessions c ! i) = bytesRead (sessions c ! i)" if i: "i < n" for i
    using c(3) N(6) [OF i] i client_okD(3,12) [OF c(2)] by (simp add: accounts_def)
  then show ?thesis using c(1) client_okD(7) [OF c(2)] d N by (simp add: sent_append)
qed

theorem client_accounts_witness:
  "\<exists>c. client_run [EvUp 1, EvUp 0, EvMessage 1 [7, 8], EvTimeout, EvDown 1, EvDown 0]
      (Client_new (\<lambda>_. 0) (''10.0.0.1'', 55555) 2 2 30 1) = Inr c \<and>
    numConnected c = 0 \<and> sent 1 (calls c) = [[0, 1], [7, 8]] \<and> count_list (calls c) Quit = 1 \<and> bytesRead (sessions c ! 1) = 2"
  using client_accounts [of 2 30 "[EvUp 1, EvUp 0, EvMessage 1 [7, 8], EvTimeout, EvDown 1, EvDown 0]" "\<lambda>_. 0" "(''10.0.0.1'', 55555)" 2 1]
  by (auto simp: msgs_def upt_rec insert_Diff_if)

text \<open>From 2048 seconds on the report overflows an \<^verbatim>\<open>int\<close>.\<close>

lemma onDisconnect_overflow:
  assumes "client_ok n {i} b m (c\<lparr>timeout := 0\<rparr>)" and "2048 \<le> timeout c" "timeout c < 2 ^ 31"
  shows "client_step (EvDown i) c = Inl SignedOverflow"
proof -
  note C = client_okD [OF assms(1), simplified]
  have "total_of bytesRead (sessions c) 0 = Inr (sum_list (map bytesRead (sessions c)))"
      "total_of messagesRead (sessions c) 0 = Inr (sum_list (map messagesRead (sessions c)))"
    using total_sum [of "sessions c" bytesRead 0] total_sum [of "sessions c" messagesRead 0] C by auto
  then show ?thesis using C assms(2,3)
    by (auto simp: Session_onConnection_def Client_onDisconnect_def call_def Let_def to_int32_def int32_ok_def)
qed

end
