(* ===== verification/Spec2Isabelle.thy ===== *)
theory Spec2Isabelle
  imports Kfifo Buffer Timer_Queue Poller Event_Loop Tcp_Connection Conn_Machine Loop_Pool Addresses Tcp_Server
    Server_Dtor Server_App String_Piece Log Pingpong_Bench Pingpong_Client
begin

text \<open>
  \<^bold>\<open>A verified model of mymuduo.\<close>
  mymuduo (\<^verbatim>\<open>src/mymuduo\<close>) is a C++11 rewriting of the muduo network library: one event loop per thread, a
  server that accepts connections in its base loop and hands them to the loops of a thread pool.

  \<^bold>\<open>The program.\<close> An \<^verbatim>\<open>EventLoop\<close> waits in its \<^verbatim>\<open>EpollPoller\<close> for events, dispatches them to the \<^verbatim>\<open>Channel\<close>s that the kernel
  reports and then runs the functors other code has queued; an eventfd wakes it up and a timerfd drives
  its \<^verbatim>\<open>TimerQueue\<close>. A \<^verbatim>\<open>TcpServer\<close> owns an \<^verbatim>\<open>Acceptor\<close> and a map of \<^verbatim>\<open>TcpConnection\<close>s; each connection owns a socket, a
  channel and two \<^verbatim>\<open>Kfifo\<close> ring buffers, is shared by \<^verbatim>\<open>shared_ptr\<close>s and closed by functors that travel between its
  own loop and the base loop. \<^verbatim>\<open>EventLoopThreadPool\<close>, \<^verbatim>\<open>EventLoopThread\<close> and \<^verbatim>\<open>Thread\<close> start and stop the loops' threads.

  \<^bold>\<open>How it is modelled.\<close> Objects are records, heaps are maps from addresses, and every operation is a function from
  the state to a result \<open>'a res\<close>: \<open>Inr\<close> the new state, or \<open>Inl\<close> the way the C++ execution goes wrong (\<open>err\<close> in
  \<^verbatim>\<open>Prelude\<close>: failed assertion or \<^verbatim>\<open>LOG_FATAL\<close>, use after free, out-of-bounds access, null pointer, empty
  \<^verbatim>\<open>std::function\<close>, deadlock, signed overflow). \<^verbatim>\<open>uint32_t\<close> and event masks are words; \<^verbatim>\<open>size_t\<close> is a natural number with
  its wrap-around written out; \<^verbatim>\<open>int\<close> and \<^verbatim>\<open>int64_t\<close> are integers with explicit range checks.

  \<^item> \<^verbatim>\<open>Prelude\<close>, \<^verbatim>\<open>Ring\<close>, \<^verbatim>\<open>Decimal\<close>: results, memory blocks, word and list lemmas, ring buffers over lists, printed numbers.
  \<^item> \<^verbatim>\<open>Byte_Fifo\<close>: the contract of a byte queue as the locales \<open>byte_fifo\<close> and \<open>byte_fifo_total\<close>, with the stream theorem.
    \<^verbatim>\<open>Kfifo\<close> (\<^verbatim>\<open>kfifo.h/.cpp\<close>, interpretation \<open>kf\<close>) and \<^verbatim>\<open>Buffer\<close> (\<^verbatim>\<open>Buffer.h/.cpp\<close>, interpretation \<open>bf\<close>) implement it: contents,
    bounds and wrap-around, \<^verbatim>\<open>readFd\<close> and \<^verbatim>\<open>writeFd\<close> on every branch, and what the mutex that is locked twice does.
  \<^item> \<^verbatim>\<open>Timestamp\<close> (\<^verbatim>\<open>Timestamp.h/.cpp\<close>) and \<^verbatim>\<open>Timer_Queue\<close> (\<^verbatim>\<open>TimerQueue\<close>, \<^verbatim>\<open>Timer\<close>, \<^verbatim>\<open>TimerId\<close>): the two ordered sets, the heap of
    timers, cancellation from callbacks, re-arming. Reachable queues satisfy an invariant that implies memory
    safety and that the timerfd fires in time; expired timers run once, in order; the destructor frees.
  \<^item> \<^verbatim>\<open>Poller\<close> (\<^verbatim>\<open>Channel\<close>, \<^verbatim>\<open>Poller\<close>, \<^verbatim>\<open>EpollPoller\<close>, \<^verbatim>\<open>DefaultPoller\<close>): the index state machine, \<^verbatim>\<open>epoll_ctl\<close> calls, dispatch. The locale
    \<open>watch_table\<close> is the contract with the code above; its interpretation \<open>ep\<close> shows that the kernel's interest list is
    the abstract table after every legal sequence of operations.
  \<^item> \<^verbatim>\<open>Event_Loop\<close> (\<^verbatim>\<open>EventLoop.h/.cpp\<close>): operations of one thread, and a step relation interleaving the loop's thread with any
    number of others, split where another thread can intervene. No wake-up is lost, functors run in order and
    once, every queued functor runs within a bounded number of steps of the loop's thread.
  \<^item> \<^verbatim>\<open>Addresses\<close> (\<^verbatim>\<open>Endian.h\<close>, \<^verbatim>\<open>InetAddress.h/.cpp\<close>, \<^verbatim>\<open>SocketOps.cpp\<close>): both byte orders, dotted addresses, round trips.
  \<^item> \<^verbatim>\<open>Tcp_Connection\<close> (\<^verbatim>\<open>TcpConnection.h/.cpp\<close>, \<^verbatim>\<open>Socket.h/.cpp\<close>, \<^verbatim>\<open>Callbacks.h\<close>): a world is a loop with its connections, the
    callers' strings and a log of what the outside sees. \<^verbatim>\<open>Conn_Machine\<close> puts its operations into one state machine with
    an invariant under all of them; the states are a \<open>linorder\<close> along which they only move up. The callback of the
    example server (\<^verbatim>\<open>tmyserver.cpp\<close>) is an instance of the callbacks it allows.
  \<^item> \<^verbatim>\<open>Loop_Pool\<close> (\<^verbatim>\<open>EventLoopThreadPool\<close>, \<^verbatim>\<open>EventLoopThread\<close>, \<^verbatim>\<open>Thread\<close>, \<^verbatim>\<open>CurrentThread\<close>): the start-up hand-shake and the destructor as
    step relations of two threads, round robin over the loops.
  \<^item> \<^verbatim>\<open>Tcp_Server\<close> (\<^verbatim>\<open>TcpServer.h/.cpp\<close>, \<^verbatim>\<open>Acceptor.h/.cpp\<close>): one world per loop; \<open>enter\<close> and \<open>leave\<close> let the loops' operations run
    unchanged inside the server and call back into it. Accepting establishes a connection under a fresh name in the
    next loop; end of stream or a hang-up takes it apart across two loops until nothing is left of it.
    \<^verbatim>\<open>Server_Dtor\<close> does the same for the destructor with any number of connections.
  \<^item> \<^verbatim>\<open>Server_Machine\<close>, \<^verbatim>\<open>Server_Events\<close>, \<^verbatim>\<open>Server_Accept\<close>, \<^verbatim>\<open>Server_Safety\<close>, \<^verbatim>\<open>Server_Rest\<close>, \<^verbatim>\<open>Server_App\<close>: the whole server as one machine (\<open>mstep\<close>). Each loop polls,
    handles its events one by one, swaps its queue out, runs the functors one by one and destroys them; the steps of
    all loops interleave freely. The invariant \<open>srv_inv\<close> follows every connection through its life (opening, open, waiting
    to be removed, waiting to be destroyed, destroyed) and counts every reference to it: the map's and one for
    each functor that is queued, running or not yet destroyed. \<open>only\<close> and \<open>srv_inv_only\<close> reduce a step to the one
    connection it is about. From the construction of the server on, no step fails, connections only move forward in their life
    (\<open>forward\<close>), and idle loops mean that
    nothing is leaked; when nothing more happens outside the server comes to rest (\<open>total_work\<close> bounds the steps
    that are left). The application's callbacks may read from, send on and shut down the connection they are called
    for (\<open>polite\<close>); \<open>app_user\<close> builds them from such actions, and the example server's is one (\<open>chat_polite\<close>). \<open>ChatServer_main\<close> starts such a server.
  \<^item> \<^verbatim>\<open>String_Piece\<close> (\<^verbatim>\<open>StringPiece.h\<close>): comparison is the lexicographic order on unsigned bytes. \<^verbatim>\<open>Log\<close> (\<^verbatim>\<open>Logger.h/.cpp\<close>): lines of
    several threads and the levels they are printed with.
  \<^item> \<^verbatim>\<open>Pingpong_Bench\<close> and \<^verbatim>\<open>Pingpong_Client\<close> (the benchmarks \<^verbatim>\<open>pingpong_bench.cc\<close>, \<^verbatim>\<open>pingpong_client.cc\<close> and \<^verbatim>\<open>pingpong_server.cc\<close> under
    \<^verbatim>\<open>src/tmuduo\<close>, written for the original muduo library): the token ring ends after the right number of receptions
    whatever order the event loop serves it in; the client's counters and calls are right for every order of callbacks.

  \<^bold>\<open>Parameters.\<close> The kernel (\<^verbatim>\<open>epoll_ctl\<close>, \<^verbatim>\<open>epoll_wait\<close>, \<^verbatim>\<open>readv\<close>, \<^verbatim>\<open>write\<close>, \<^verbatim>\<open>accept4\<close>, \<^verbatim>\<open>bind\<close>, \<^verbatim>\<open>listen\<close>, clocks, descriptors), the
  allocator, \<^verbatim>\<open>inet_addr\<close> and the application's callbacks are arguments (in the server, the record \<open>env\<close>). What is
  asked of them is named: \<open>kernel_accepts\<close> (an \<^verbatim>\<open>epoll_ctl\<close> call that the manual does not refuse succeeds), \<open>write_ok\<close>,
  \<open>user_quiet\<close>, \<open>polite\<close> and \<open>callbacks_ok\<close>, and for the machine of the whole server \<open>poll_legal\<close>, \<open>accept_legal\<close> and \<open>event_legal\<close>
  (\<^verbatim>\<open>epoll_wait\<close> reports watched descriptors once, new objects and descriptors are not in use, reads fit). \<open>relock\<close> says what locking a held \<^verbatim>\<open>std::mutex\<close> does, which C++ leaves open: \<^verbatim>\<open>Kfifo\<close>
  locks twice, so results are stated for both answers.

  \<^bold>\<open>Bounds.\<close> The event loop may run for ever: \<open>loop_rounds\<close> takes the list of what the polls return and yields \<open>None\<close>
  when the list ends before the loop was told to stop; the step relations have no bound. A queued functor has
  run after as many steps of the loop's thread as functors are waiting plus seven (one tour of the loop); the
  destructor of a loop's thread takes at most four. Everything else is total.

  \<^bold>\<open>Not modelled.\<close> \<^verbatim>\<open>Types.h\<close> and \<^verbatim>\<open>noncopyable.h\<close> have no behaviour of their own. Of
  \<^verbatim>\<open>SocketOps.cpp\<close> the branches compiled only under \<^verbatim>\<open>VALGRIND\<close> are left out. \<^verbatim>\<open>ChatServer::onMessage\<close> of the example server does not compile against
  \<^verbatim>\<open>Callbacks.h\<close>. The original muduo library that the benchmarks use is not in the repository. Declared functions
  without a body (\<^verbatim>\<open>Kfifo::retrieveAllAsString\<close>) have no code to model. The two threads of a connection that is used
  from outside its loop are interleaved at the level of queued functors, not of single memory accesses.

  \<^bold>\<open>Still open.\<close> In the machine of the whole server no write-complete and high-water callbacks are set, and the callbacks
  use no other connection than their own and do not stop the server; those are covered for one
  connection (\<^verbatim>\<open>Conn_Machine\<close>) and one loop (\<^verbatim>\<open>Event_Loop\<close>), the server's destructor in \<^verbatim>\<open>Server_Dtor\<close>.
\<close>

end
